(* ===== verification/Gv_Type.thy ===== *)
theory Gv_Type
  imports Prelude
begin

section \<open>GVariant types: signatures, alignment, fixed size\<close>

text \<open>
  The model of \<^verbatim>\<open>crates/ostrya-gvariant/src/ty.rs\<close> and of the error type of
  that crate: the type tree, the layout (alignment and fixed size) that a container
  computes from its members, the packed one-word form of a layout, and the parser and
  printer of type signatures with the depth limit of 128 levels.

  Proved here: the alignment arithmetic of \<open>align_up\<close>; that every alignment is 1, 2,
  4 or 8 and divides each fixed size; that the packed layout represents the layout;
  and that the signature parser and printer are inverse to each other.
\<close>

datatype gv_error =
    InvalidTypeString bytes nat string
  | TypeMismatch bytes string
  | InvalidValue string
  | NotNormal string
  | DepthExceeded

definition MAX_VALUE_DEPTH :: nat where
  "MAX_VALUE_DEPTH = 128"

definition MAX_TYPE_DEPTH :: nat where
  "MAX_TYPE_DEPTH = MAX_VALUE_DEPTH"

datatype gty =
    TBool | TByte | TI16 | TU16 | TI32 | TU32 | TI64 | TU64 | THandle | TDouble
  | TStr | TObjectPath | TSignature | TVariant
  | TMaybe gty
  | TArray gty
  | TTuple "gty list"
  | TDictEntry gty gty

subsection \<open>Alignment and layout\<close>

text \<open>\<open>(n + alignment - 1) & !(alignment - 1)\<close>\<close>

definition align_up :: "nat \<Rightarrow> nat \<Rightarrow> nat" where
  "align_up n alignment = nat ((int n + int alignment - 1) AND NOT (int alignment - 1))"

record layout =
  lay_fixed :: "nat option"
  lay_alignment :: nat

definition layout_new :: "nat option \<Rightarrow> nat \<Rightarrow> layout" where
  "layout_new fixed al = \<lparr>lay_fixed = fixed, lay_alignment = al\<rparr>"

definition layout_scalar :: "nat \<Rightarrow> layout" where
  "layout_scalar n = layout_new (Some n) n"

definition layout_variable :: "nat \<Rightarrow> layout" where
  "layout_variable al = layout_new None al"

text \<open>One round of the loop of \<open>Layout::of_struct\<close> over the alignment, the size and \<open>any\<close>.\<close>

fun of_struct_step :: "layout \<Rightarrow> nat \<times> nat option \<times> bool \<Rightarrow> nat \<times> nat option \<times> bool" where
  "of_struct_step m (al, sz, any) =
     (max al (lay_alignment m),
      (case (sz, lay_fixed m) of
         (Some s, Some f) \<Rightarrow> Some (align_up s (lay_alignment m) + f)
       | _ \<Rightarrow> None),
      True)"

definition of_struct :: "layout list \<Rightarrow> layout" where
  "of_struct ms =
     (case fold of_struct_step ms (1, Some 0, False) of
        (al, sz, any) \<Rightarrow>
          layout_new (if any then map_option (\<lambda>s. align_up s al) sz else Some 1) al)"

fun gty_layout :: "gty \<Rightarrow> layout" where
  "gty_layout TBool = layout_scalar 1"
| "gty_layout TByte = layout_scalar 1"
| "gty_layout TI16 = layout_scalar 2"
| "gty_layout TU16 = layout_scalar 2"
| "gty_layout TI32 = layout_scalar 4"
| "gty_layout TU32 = layout_scalar 4"
| "gty_layout THandle = layout_scalar 4"
| "gty_layout TI64 = layout_scalar 8"
| "gty_layout TU64 = layout_scalar 8"
| "gty_layout TDouble = layout_scalar 8"
| "gty_layout TStr = layout_variable 1"
| "gty_layout TObjectPath = layout_variable 1"
| "gty_layout TSignature = layout_variable 1"
| "gty_layout TVariant = layout_variable 8"
| "gty_layout (TMaybe elem) = layout_variable (lay_alignment (gty_layout elem))"
| "gty_layout (TArray elem) = layout_variable (lay_alignment (gty_layout elem))"
| "gty_layout (TTuple members) = of_struct (map gty_layout members)"
| "gty_layout (TDictEntry key val) = of_struct [gty_layout key, gty_layout val]"

definition gty_alignment :: "gty \<Rightarrow> nat" where
  "gty_alignment ty = lay_alignment (gty_layout ty)"

definition fixed_size :: "gty \<Rightarrow> nat option" where
  "fixed_size ty = lay_fixed (gty_layout ty)"

text \<open>The one-word form: the alignment in the low 4 bits, the fixed size (or 0) above.\<close>

definition packed_new :: "nat option \<Rightarrow> nat \<Rightarrow> u64" where
  "packed_new fixed al =
     push_bit 4 (word_of_nat (case fixed of Some n \<Rightarrow> n | None \<Rightarrow> 0)) OR word_of_nat al"

definition packed_alignment :: "u64 \<Rightarrow> nat" where
  "packed_alignment inner = unat (inner AND 0xf)"

definition packed_fixed :: "u64 \<Rightarrow> nat option" where
  "packed_fixed inner =
     (let sz = drop_bit 4 inner in if sz = 0 then None else Some (unat sz))"

fun is_basic :: "gty \<Rightarrow> bool" where
  "is_basic (TMaybe _) = False"
| "is_basic (TArray _) = False"
| "is_basic (TTuple _) = False"
| "is_basic (TDictEntry _ _) = False"
| "is_basic TVariant = False"
| "is_basic _ = True"

subsection \<open>Signatures\<close>

fun signature :: "gty \<Rightarrow> bytes" where
  "signature TBool = lit ''b''"
| "signature TByte = lit ''y''"
| "signature TI16 = lit ''n''"
| "signature TU16 = lit ''q''"
| "signature TI32 = lit ''i''"
| "signature TU32 = lit ''u''"
| "signature TI64 = lit ''x''"
| "signature TU64 = lit ''t''"
| "signature THandle = lit ''h''"
| "signature TDouble = lit ''d''"
| "signature TStr = lit ''s''"
| "signature TObjectPath = lit ''o''"
| "signature TSignature = lit ''g''"
| "signature TVariant = lit ''v''"
| "signature (TMaybe elem) = lit ''m'' @ signature elem"
| "signature (TArray elem) = lit ''a'' @ signature elem"
| "signature (TTuple members) = lit ''('' @ concat (map signature members) @ lit '')''"
| "signature (TDictEntry key val) = lit ''{'' @ signature key @ signature val @ lit ''}''"

text \<open>The leaf characters of the \<open>match\<close> in \<open>parse_one\<close>.\<close>

definition leaf_type :: "u8 \<Rightarrow> gty option" where
  "leaf_type c =
     (if c = of_char CHR ''b'' then Some TBool
      else if c = of_char CHR ''y'' then Some TByte
      else if c = of_char CHR ''n'' then Some TI16
      else if c = of_char CHR ''q'' then Some TU16
      else if c = of_char CHR ''i'' then Some TI32
      else if c = of_char CHR ''u'' then Some TU32
      else if c = of_char CHR ''x'' then Some TI64
      else if c = of_char CHR ''t'' then Some TU64
      else if c = of_char CHR ''h'' then Some THandle
      else if c = of_char CHR ''d'' then Some TDouble
      else if c = of_char CHR ''s'' then Some TStr
      else if c = of_char CHR ''o'' then Some TObjectPath
      else if c = of_char CHR ''g'' then Some TSignature
      else if c = of_char CHR ''v'' then Some TVariant
      else None)"

text \<open>
  \<open>parse_one\<close> reads one complete type at \<open>pos\<close> and returns the position after it;
  \<open>parse_members\<close> is the \<open>while\<close> loop of its tuple branch, up to and with the \<open>)\<close>.
\<close>

function parse_one :: "bytes \<Rightarrow> nat \<Rightarrow> nat \<Rightarrow> (nat \<times> string, gty \<times> nat) result"
  and parse_members :: "bytes \<Rightarrow> nat \<Rightarrow> nat \<Rightarrow> (nat \<times> string, gty list \<times> nat) result"
where
  "parse_one sig pos depth =
     (if depth > MAX_TYPE_DEPTH then Err (pos, ''nesting exceeds the supported depth'')
      else if length sig \<le> pos then Err (pos, ''unexpected end of signature'')
      else case leaf_type (sig ! pos) of
        Some ty \<Rightarrow> Ok (ty, Suc pos)
      | None \<Rightarrow>
        if sig ! pos = of_char CHR ''m'' then
          andthen (parse_one sig (Suc pos) (Suc depth)) (\<lambda>(t, p). Ok (TMaybe t, p))
        else if sig ! pos = of_char CHR ''a'' then
          andthen (parse_one sig (Suc pos) (Suc depth)) (\<lambda>(t, p). Ok (TArray t, p))
        else if sig ! pos = of_char CHR ''('' then
          andthen (parse_members sig (Suc pos) (Suc depth)) (\<lambda>(ts, p). Ok (TTuple ts, p))
        else if sig ! pos = of_char CHR ''{'' then
          andthen (parse_one sig (Suc pos) (Suc depth)) (\<lambda>(key, p).
            if \<not> is_basic key then Err (Suc pos, ''dict-entry key must be a basic type'')
            else andthen (parse_one sig p (Suc depth)) (\<lambda>(val, q).
              if \<not> (q < length sig \<and> sig ! q = of_char CHR ''}'')
              then Err (q, ''expected '}' after the dict-entry value'')
              else Ok (TDictEntry key val, Suc q)))
        else Err (pos, ''unsupported type character''))"
| "parse_members sig pos depth =
     (if pos < length sig \<and> sig ! pos = of_char CHR '')'' then Ok ([], Suc pos)
      else andthen (parse_one sig pos depth) (\<lambda>(t, p).
        andthen (parse_members sig p depth) (\<lambda>(ts, q). Ok (t # ts, q))))"
  by pat_completeness auto

text \<open>A successful parse reads at least one character; the \<open>while\<close> loop needs it to end.\<close>

lemma parse_progress_dom:
  "parse_one_parse_members_dom (Inl (sig, pos, depth)) \<Longrightarrow>
     (\<And>t p. parse_one sig pos depth = Ok (t, p) \<Longrightarrow> pos < length sig \<and> pos < p)"
  "parse_one_parse_members_dom (Inr (sig, pos, depth)) \<Longrightarrow>
     (\<And>ts q. parse_members sig pos depth = Ok (ts, q) \<Longrightarrow> pos < q)"
proof (induction sig pos depth and sig pos depth rule: parse_one_parse_members.pinduct)
  case (1 sig pos depth)
  note eq = "1.prems" [unfolded parse_one.psimps [OF "1.hyps"]]
  have d: "\<not> depth > MAX_TYPE_DEPTH" and len: "\<not> length sig \<le> pos"
    using eq by (auto split: if_splits)
  show ?case
  proof (cases "leaf_type (sig ! pos)")
    case (Some ty)
    then show ?thesis using eq d len by simp
  next
    case None
    consider (m) "sig ! pos = of_char CHR ''m''" | (a) "sig ! pos = of_char CHR ''a''"
      | (t) "sig ! pos = of_char CHR ''(''" | (e) "sig ! pos = of_char CHR ''{''"
      using eq d len None by (auto split: if_splits)
    then show ?thesis
    proof cases
      case m
      then show ?thesis
        using eq d len None "1.IH"(1) [OF d len None] by (auto simp: result_simps)
    next
      case a
      then show ?thesis
        using eq d len None "1.IH"(2) [OF d len None] by (auto simp: result_simps)
    next
      case t
      then show ?thesis
        using eq d len None "1.IH"(3) [OF d len None] by (auto simp: result_simps)
    next
      case e
      then obtain k b v q where k: "parse_one sig (Suc pos) (Suc depth) = Ok (k, b)" "is_basic k"
        and v: "parse_one sig b (Suc depth) = Ok (v, q)" "p = Suc q"
        using eq d len None by (auto simp: result_simps split: if_splits)
      have "Suc pos < b" using "1.IH"(4) [OF d len None] k e by simp
      moreover have "b < q" using "1.IH"(5) [OF d len None _ _ _ e k(1) refl] k v e by simp
      ultimately show ?thesis using v len by simp
    qed
  qed
next
  case (2 sig pos depth)
  note eq = "2.prems" [unfolded parse_members.psimps [OF "2.hyps"]]
  show ?case
  proof (cases "pos < length sig \<and> sig ! pos = of_char CHR '')''")
    case True
    then show ?thesis using eq by simp
  next
    case False
    then obtain t p us where t: "parse_one sig pos depth = Ok (t, p)"
      and us: "parse_members sig p depth = Ok (us, q)"
      using eq by (auto simp: result_simps)
    have "pos < p" using "2.IH"(1) [OF False t] by simp
    moreover have "p < q" using "2.IH"(2) [OF False t refl us] .
    ultimately show ?thesis by simp
  qed
qed

termination parse_one
proof (relation "measures
    [\<lambda>x. case x of Inl (sig, pos, d) \<Rightarrow> Suc MAX_TYPE_DEPTH - d | Inr (sig, pos, d) \<Rightarrow> Suc MAX_TYPE_DEPTH - d,
     \<lambda>x. case x of Inl (sig, pos, d) \<Rightarrow> length sig - pos | Inr (sig, pos, d) \<Rightarrow> length sig - pos,
     \<lambda>x. case x of Inl _ \<Rightarrow> 0 | Inr _ \<Rightarrow> 1]", goal_cases)
  case (8 sig pos depth x t p)
  then have "pos < length sig \<and> pos < p"
    using parse_progress_dom(1) [of sig pos depth t p] by simp
  then show ?case by auto
qed auto

declare parse_one.simps [simp del] parse_members.simps [simp del]

definition gty_parse :: "bytes \<Rightarrow> (gv_error, gty) result" where
  "gty_parse sig =
     andthen (map_err (\<lambda>(offset, reason). InvalidTypeString sig offset reason) (parse_one sig 0 0))
       (\<lambda>(ty, pos).
          if pos \<noteq> length sig
          then Err (InvalidTypeString sig pos ''trailing characters after a complete type'')
          else Ok ty)"

subsection \<open>Alignment arithmetic\<close>

definition is_align :: "nat \<Rightarrow> bool" where
  "is_align a \<longleftrightarrow> a \<in> {1, 2, 4, 8}"

lemma and_not_mask_int: "(x :: int) AND NOT (mask k) = x div 2 ^ k * 2 ^ k"
proof -
  have "x AND NOT (mask k) = push_bit k (drop_bit k x)"
    by (rule bit_eqI) (auto simp: bit_simps)
  then show ?thesis by (simp add: push_bit_eq_mult drop_bit_eq_div)
qed

lemma align_up_eq:
  assumes "is_align a"
  shows "align_up n a = (n + a - 1) div a * a"
proof -
  from assms obtain k where a: "a = 2 ^ k"
    unfolding is_align_def by (auto intro: that [of 0] that [of 1] that [of 2] that [of 3])
  have "0 < a" using a by simp
  then have "int n + int a - 1 = int (n + a - 1)" by linarith
  moreover have "int a - 1 = mask k" using a by (simp add: mask_eq_exp_minus_1)
  ultimately have "align_up n a = nat (int (n + a - 1) div int a * int a)"
    by (simp add: align_up_def and_not_mask_int a)
  also have "\<dots> = (n + a - 1) div a * a"
    by (simp flip: zdiv_int of_nat_mult)
  finally show ?thesis .
qed

lemma packed_new_nat:
  "packed_new fixed al = word_of_nat (push_bit 4 (case fixed of Some n \<Rightarrow> n | None \<Rightarrow> 0) OR al)"
  by (simp add: packed_new_def of_nat_or_eq push_bit_of_nat)

lemma packed_alignment_new:
  assumes "al < 16"
  shows "packed_alignment (packed_new fixed al) = al"
proof -
  have "packed_new fixed al AND 0xf = take_bit 4 (packed_new fixed al)"
    by (simp add: take_bit_eq_mask mask_eq_exp_minus_1)
  then have "packed_alignment (packed_new fixed al) = take_bit 4 (unat (packed_new fixed al))"
    by (simp add: packed_alignment_def unsigned_take_bit_eq)
  also have "\<dots> = al" using assms
    by (simp add: packed_new_nat unsigned_of_nat take_bit_or take_bit_push_bit take_bit_nat_eq_self)
  finally show ?thesis .
qed

lemma packed_fixed_new:
  assumes "al < 16" and "\<And>n. fixed = Some n \<Longrightarrow> 0 < n \<and> n < 2 ^ 60"
  shows "packed_fixed (packed_new fixed al) = fixed"
proof -
  let ?s = "case fixed of Some n \<Rightarrow> n | None \<Rightarrow> 0"
  have s: "?s < 2 ^ 60" using assms(2) by (cases fixed) auto
  have al: "drop_bit 4 al = 0" using assms(1) by (simp add: drop_bit_eq_div)
  have "take_bit 64 (push_bit 4 ?s) = push_bit 4 ?s"
    using s by (intro take_bit_nat_eq_self) (simp add: push_bit_eq_mult)
  moreover have "take_bit 64 al = al"
    using assms(1) by (intro take_bit_nat_eq_self) simp
  ultimately have "drop_bit 4 (unat (packed_new fixed al)) = ?s"
    by (simp add: packed_new_nat unsigned_of_nat drop_bit_or al drop_bit_push_bit)
  then have "unat (drop_bit 4 (packed_new fixed al)) = ?s"
    by (simp add: unat_drop_bit_eq)
  then show ?thesis using assms(2)
    by (cases fixed) (auto simp: packed_fixed_def Let_def unat_eq_0)
qed
lemma align_up_props:
  assumes "is_align a"
  shows align_up_ge: "n \<le> align_up n a"
    and align_up_dvd: "a dvd align_up n a"
    and align_up_less: "align_up n a < n + a"
    and align_up_idem: "a dvd n \<Longrightarrow> align_up n a = n"
    and align_up_add: "a dvd k \<Longrightarrow> align_up (k + n) a = k + align_up n a"
proof -
  have a: "0 < a" using assms by (auto simp: is_align_def)
  note eq = align_up_eq [OF assms]
  have m: "(n + a - 1) div a * a + (n + a - 1) mod a = n + a - 1" by simp
  have "(n + a - 1) mod a < a" using a by simp
  with m a show "n \<le> align_up n a" "align_up n a < n + a"
    unfolding eq by linarith+
  show "a dvd align_up n a" by (simp add: eq)
  show "align_up (k + n) a = k + align_up n a" if d: "a dvd k" for k n
  proof -
    from d obtain q where k: "k = a * q" ..
    have "k + n + a - 1 = (n + a - 1) + q * a" using a k by (simp add: mult.commute)
    then have "(k + n + a - 1) div a = q + (n + a - 1) div a"
      using a by (metis add.commute div_mult_self1 less_numeral_extra(3))
    then show ?thesis by (simp add: eq k algebra_simps)
  qed
  from this [of n 0] show "align_up n a = n" if "a dvd n"
    using that a by (simp add: eq)
qed

lemma is_align_max: "is_align a \<Longrightarrow> is_align b \<Longrightarrow> is_align (max a b)"
  by (simp add: max_def)

lemma is_align_dvd: "is_align a \<Longrightarrow> is_align b \<Longrightarrow> a \<le> b \<Longrightarrow> a dvd b"
  by (auto simp: is_align_def)

subsection \<open>Layouts of structures\<close>

text \<open>The size of the members packed one after the other from offset \<open>s\<close>, if all are fixed.\<close>

fun struct_size :: "(nat \<times> nat option) list \<Rightarrow> nat \<Rightarrow> nat option" where
  "struct_size [] s = Some s"
| "struct_size ((al, fs) # ms) s =
     (case fs of None \<Rightarrow> None | Some f \<Rightarrow> struct_size ms (align_up s al + f))"

definition max_alignment :: "nat list \<Rightarrow> nat" where
  "max_alignment als = fold max als 1"

lemma fold_max_mono: "(x::nat) \<le> fold max xs x"
proof (induction xs arbitrary: x)
  case Nil
  show ?case by simp
next
  case (Cons y xs)
  have "x \<le> max y x" by simp
  also have "\<dots> \<le> fold max xs (max y x)" by (rule Cons)
  finally show ?case by simp
qed

lemma fold_max_ge: "y \<in> set xs \<Longrightarrow> (y::nat) \<le> fold max xs x"
proof (induction xs arbitrary: x)
  case Nil
  then show ?case by simp
next
  case (Cons z xs)
  show ?case
  proof (cases "y = z")
    case True
    then show ?thesis
      using fold_max_mono [of "max z x" xs] by simp
  next
    case False
    then show ?thesis using Cons by simp
  qed
qed

lemma max_alignment_ge: "a \<in> set als \<Longrightarrow> a \<le> max_alignment als"
  by (simp add: max_alignment_def fold_max_ge)

lemma is_align_fold: "is_align x \<Longrightarrow> \<forall>a \<in> set als. is_align a \<Longrightarrow> is_align (fold max als x)"
  by (induction als arbitrary: x) (auto simp: is_align_max)

lemma is_align_max_alignment: "\<forall>a \<in> set als. is_align a \<Longrightarrow> is_align (max_alignment als)"
  unfolding max_alignment_def by (rule is_align_fold) (simp_all add: is_align_def)

lemma max_alignment_dvd:
  "\<forall>a \<in> set als. is_align a \<Longrightarrow> a \<in> set als \<Longrightarrow> a dvd max_alignment als"
  by (meson is_align_dvd is_align_max_alignment max_alignment_ge)

abbreviation lay_pair :: "layout \<Rightarrow> nat \<times> nat option" where
  "lay_pair m \<equiv> (lay_alignment m, lay_fixed m)"

lemma fold_of_struct_step:
  "fold of_struct_step ms (al, sz, any) =
     (fold max (map lay_alignment ms) al,
      (case sz of None \<Rightarrow> None | Some s \<Rightarrow> struct_size (map lay_pair ms) s),
      any \<or> ms \<noteq> [])"
  by (induction ms arbitrary: al sz any) (auto simp: max.commute split: option.splits)

lemma of_struct_alignment: "lay_alignment (of_struct ms) = max_alignment (map lay_alignment ms)"
  by (simp add: of_struct_def fold_of_struct_step layout_new_def max_alignment_def)

lemma of_struct_fixed:
  "lay_fixed (of_struct ms) =
     (if ms = [] then Some 1
      else map_option (\<lambda>s. align_up s (max_alignment (map lay_alignment ms)))
             (struct_size (map lay_pair ms) 0))"
  by (simp add: of_struct_def fold_of_struct_step layout_new_def max_alignment_def)

lemma struct_size_ge:
  "struct_size ms s = Some n \<Longrightarrow> \<forall>(al, fs) \<in> set ms. is_align al \<Longrightarrow> s \<le> n"
proof (induction ms s rule: struct_size.induct)
  case (1 s)
  then show ?case by simp
next
  case (2 al fs ms s)
  then obtain f where "fs = Some f" "struct_size ms (align_up s al + f) = Some n"
    by (auto split: option.splits)
  then show ?case using 2 align_up_ge [of al s] by fastforce
qed

definition lay_ok :: "layout \<Rightarrow> bool" where
  "lay_ok l \<longleftrightarrow> is_align (lay_alignment l) \<and>
     (\<forall>n. lay_fixed l = Some n \<longrightarrow> 0 < n \<and> lay_alignment l dvd n)"

lemma lay_ok_of_struct:
  assumes "\<forall>m \<in> set ms. lay_ok m"
  shows "lay_ok (of_struct ms)"
proof -
  have al: "\<forall>a \<in> set (map lay_alignment ms). is_align a"
    using assms by (auto simp: lay_ok_def)
  have A: "is_align (max_alignment (map lay_alignment ms))"
    by (rule is_align_max_alignment [OF al])
  have pos: "0 < n" if "ms \<noteq> []" "struct_size (map lay_pair ms) 0 = Some n" for n
  proof -
    from that(1) obtain m ms' where ms: "ms = m # ms'" by (cases ms) auto
    with that(2) obtain f where f: "lay_fixed m = Some f"
      and n: "struct_size (map lay_pair ms') (align_up 0 (lay_alignment m) + f) = Some n"
      by (auto split: option.splits)
    have "align_up 0 (lay_alignment m) + f \<le> n"
      by (rule struct_size_ge [OF n]) (use assms ms in \<open>auto simp: lay_ok_def\<close>)
    moreover have "0 < f" using assms ms f by (auto simp: lay_ok_def)
    ultimately show ?thesis by simp
  qed
  show ?thesis
    unfolding lay_ok_def of_struct_alignment of_struct_fixed
    using A pos align_up_ge [OF A] align_up_dvd [OF A]
    by (auto simp: max_alignment_def intro: less_le_trans)
qed

lemma lay_ok_gty: "lay_ok (gty_layout ty)"
proof (induction ty)
  case (TTuple ms)
  then show ?case by (simp add: lay_ok_of_struct)
next
  case (TDictEntry k v)
  then show ?case by (simp add: lay_ok_of_struct)
qed (auto simp: lay_ok_def layout_scalar_def layout_variable_def layout_new_def is_align_def)

subsection \<open>Signatures parse back to their types\<close>

text \<open>The types that the signature parser accepts at nesting level \<open>d\<close>.\<close>

fun sig_ok :: "nat \<Rightarrow> gty \<Rightarrow> bool" where
  "sig_ok d (TMaybe t) \<longleftrightarrow> d \<le> MAX_TYPE_DEPTH \<and> sig_ok (Suc d) t"
| "sig_ok d (TArray t) \<longleftrightarrow> d \<le> MAX_TYPE_DEPTH \<and> sig_ok (Suc d) t"
| "sig_ok d (TTuple ts) \<longleftrightarrow> d \<le> MAX_TYPE_DEPTH \<and> (\<forall>t \<in> set ts. sig_ok (Suc d) t)"
| "sig_ok d (TDictEntry k v) \<longleftrightarrow>
     d \<le> MAX_TYPE_DEPTH \<and> is_basic k \<and> sig_ok (Suc d) k \<and> sig_ok (Suc d) v"
| "sig_ok d t \<longleftrightarrow> d \<le> MAX_TYPE_DEPTH"

lemma leaf_type_signature:
  "leaf_type c = Some t \<Longrightarrow> signature t = [c] \<and> (d \<le> MAX_TYPE_DEPTH \<longrightarrow> sig_ok d t)"
  by (auto simp: leaf_type_def split: if_splits)

lemma signature_hd: "\<exists>c s. signature t = c # s \<and> c \<noteq> of_char CHR '')''"
  by (cases t) auto

lemma parse_members_signature:
  assumes "\<And>t pos post. t \<in> set ts \<Longrightarrow> drop pos sig = signature t @ post \<Longrightarrow>
    parse_one sig pos d = Ok (t, pos + length (signature t))"
  shows "drop pos sig = concat (map signature ts) @ of_char CHR '')'' # post \<Longrightarrow>
    parse_members sig pos d = Ok (ts, Suc (pos + length (concat (map signature ts))))"
  using assms
proof (induction ts arbitrary: pos)
  case Nil
  then show ?case by (simp add: parse_members.simps drop_Cons_conv)
next
  case (Cons t ts)
  obtain c s where c: "signature t = c # s" "c \<noteq> of_char CHR '')''"
    using signature_hd by blast
  let ?p = "pos + length (signature t)"
  have "\<not> (pos < length sig \<and> sig ! pos = of_char CHR '')'')"
    using Cons.prems(1) c by (auto simp: drop_Cons_conv)
  moreover have "parse_one sig pos d = Ok (t, ?p)"
    by (rule Cons.prems(2)) (use Cons.prems(1) in auto)
  moreover have "drop ?p sig = concat (map signature ts) @ of_char CHR '')'' # post"
  proof -
    have "drop ?p sig = drop (length (signature t)) (drop pos sig)" by (simp add: add.commute)
    then show ?thesis using Cons.prems(1) by simp
  qed
  ultimately show ?case
    using Cons.IH [of ?p] Cons.prems(2)
    by (subst parse_members.simps) (auto simp: add.assoc)
qed

lemma parse_one_signature:
  "sig_ok d t \<Longrightarrow> drop pos sig = signature t @ post \<Longrightarrow>
    parse_one sig pos d = Ok (t, pos + length (signature t))"
proof (induction t arbitrary: d pos post)
  case (TMaybe t)
  then have "parse_one sig (Suc pos) (Suc d) = Ok (t, Suc pos + length (signature t))"
    by (auto simp: drop_Cons_conv)
  then show ?case using TMaybe.prems
    by (subst parse_one.simps) (auto simp: drop_Cons_conv leaf_type_def)
next
  case (TArray t)
  then have "parse_one sig (Suc pos) (Suc d) = Ok (t, Suc pos + length (signature t))"
    by (auto simp: drop_Cons_conv)
  then show ?case using TArray.prems
    by (subst parse_one.simps) (auto simp: drop_Cons_conv leaf_type_def)
next
  case (TTuple ts)
  have "parse_members sig (Suc pos) (Suc d) = Ok (ts, Suc (Suc pos + length (concat (map signature ts))))"
    by (rule parse_members_signature [where post = post]) (use TTuple in \<open>auto simp: drop_Cons_conv\<close>)
  then show ?case using TTuple.prems
    by (subst parse_one.simps) (auto simp: drop_Cons_conv leaf_type_def)
next
  case (TDictEntry k v)
  let ?p = "Suc pos + length (signature k)"
  have dr: "drop (Suc pos) sig = signature k @ signature v @ of_char CHR ''}'' # post"
    using TDictEntry.prems(2) by (auto simp: drop_Cons_conv)
  have k: "parse_one sig (Suc pos) (Suc d) = Ok (k, ?p)"
    by (rule TDictEntry.IH(1) [OF _ dr]) (use TDictEntry.prems in simp)
  have dr2: "drop ?p sig = signature v @ of_char CHR ''}'' # post"
    using dr by (metis append_eq_conv_conj drop_drop add.commute)
  have v: "parse_one sig ?p (Suc d) = Ok (v, ?p + length (signature v))"
    by (rule TDictEntry.IH(2) [OF _ dr2]) (use TDictEntry.prems in simp)
  have "drop (?p + length (signature v)) sig = of_char CHR ''}'' # post"
    using dr2 by (metis append_eq_conv_conj drop_drop add.commute)
  then show ?case using TDictEntry.prems k v
    by (subst parse_one.simps) (auto simp: drop_Cons_conv leaf_type_def)
qed (simp_all add: parse_one.simps drop_Cons_conv leaf_type_def)

lemma parse_one_sound:
  "parse_one sig pos d = Ok (t, p) \<Longrightarrow>
     sig_ok d t \<and> p \<le> length sig \<and> drop pos sig = signature t @ drop p sig"
  "parse_members sig pos d = Ok (ts, q) \<Longrightarrow>
     (\<forall>t \<in> set ts. sig_ok d t) \<and> q \<le> length sig \<and>
     drop pos sig = concat (map signature ts) @ of_char CHR '')'' # drop q sig"
proof (induction sig pos d and sig pos d arbitrary: t p and ts q rule: parse_one_parse_members.induct)
  case (1 sig pos d)
  note eq = "1.prems" [unfolded parse_one.simps [of sig pos d]]
  have d: "\<not> d > MAX_TYPE_DEPTH" and len: "\<not> length sig \<le> pos"
    using eq by (auto split: if_splits)
  then have hd: "drop pos sig = sig ! pos # drop (Suc pos) sig"
    by (simp add: Cons_nth_drop_Suc)
  show ?case
  proof (cases "leaf_type (sig ! pos)")
    case (Some ty)
    then have t: "t = ty" "p = Suc pos" using eq d len by auto
    have "signature ty = [sig ! pos] \<and> sig_ok d ty"
      using leaf_type_signature [OF Some, of d] d by simp
    then show ?thesis using hd t len by simp
  next
    case None
    consider (m) "sig ! pos = of_char CHR ''m''" | (a) "sig ! pos = of_char CHR ''a''"
      | (t) "sig ! pos = of_char CHR ''(''" | (e) "sig ! pos = of_char CHR ''{''"
      using eq d len None by (auto split: if_splits)
    then show ?thesis
    proof cases
      case m
      then show ?thesis
        using eq d len None hd "1.IH"(1) [OF d len None] by (fastforce simp: result_simps)
    next
      case a
      then show ?thesis
        using eq d len None hd "1.IH"(2) [OF d len None] by (fastforce simp: result_simps)
    next
      case t
      then show ?thesis
        using eq d len None hd "1.IH"(3) [OF d len None] by (fastforce simp: result_simps)
    next
      case e
      then obtain k b v q where k: "parse_one sig (Suc pos) (Suc d) = Ok (k, b)" "is_basic k"
        and v: "parse_one sig b (Suc d) = Ok (v, q)" "p = Suc q" "t = TDictEntry k v"
        and q: "q < length sig" "sig ! q = of_char CHR ''}''"
        using eq d len None by (auto simp: result_simps split: if_splits)
      have 1: "sig_ok (Suc d) k \<and> b \<le> length sig \<and> drop (Suc pos) sig = signature k @ drop b sig"
        using "1.IH"(4) [OF d len None] k e by simp
      have 2: "sig_ok (Suc d) v \<and> q \<le> length sig \<and> drop b sig = signature v @ drop q sig"
        using "1.IH"(5) [OF d len None _ _ _ e k(1) refl] k v e by simp
      have "drop q sig = sig ! q # drop (Suc q) sig" using q(1) by (rule Cons_nth_drop_Suc [symmetric])
      then show ?thesis using 1 2 v q hd e d k by simp
    qed
  qed
next
  case (2 sig pos d)
  note eq = "2.prems" [unfolded parse_members.simps [of sig pos d]]
  show ?case
  proof (cases "pos < length sig \<and> sig ! pos = of_char CHR '')''")
    case True
    then have "drop pos sig = of_char CHR '')'' # drop (Suc pos) sig"
      by (metis Cons_nth_drop_Suc)
    then show ?thesis using eq True by auto
  next
    case False
    then obtain t p us where t: "parse_one sig pos d = Ok (t, p)"
      and us: "parse_members sig p d = Ok (us, q)" "ts = t # us"
      using eq by (auto simp: result_simps)
    show ?thesis using "2.IH"(1) [OF False t] "2.IH"(2) [OF False t refl us(1)] us(2) by simp
  qed
qed

lemma gty_parse_signature: "sig_ok 0 t \<Longrightarrow> gty_parse (signature t) = Ok t"
  using parse_one_signature [of 0 t 0 "signature t" "[]"] by (simp add: gty_parse_def)

lemma gty_parse_sound: "gty_parse sig = Ok t \<Longrightarrow> signature t = sig \<and> sig_ok 0 t"
  using parse_one_sound(1) [of sig 0 0 t "length sig"]
  by (auto simp: gty_parse_def result_simps split: if_splits)

lemma gty_parse_iff: "gty_parse sig = Ok t \<longleftrightarrow> sig = signature t \<and> sig_ok 0 t"
  using gty_parse_signature gty_parse_sound by blast

subsection \<open>Properties\<close>

text \<open>C24: a signature string parses exactly when it is the signature of a type whose nesting
  stays within the limit and whose dict entries have basic keys, and then it parses to that type.
  So every accepted signature prints back to the same bytes and no two spellings denote one
  type.\<close>

theorem signature_parse_print: "gty_parse sig = Ok t \<longleftrightarrow> sig = signature t \<and> sig_ok 0 t"
  by (rule gty_parse_iff)

text \<open>The packed layout word gives back the alignment and the fixed size it was built from,
  for each type whose fixed size leaves the four alignment bits free.\<close>

theorem packed_layout_unpacks:
  assumes "\<And>n. fixed_size t = Some n \<Longrightarrow> n < 2 ^ 60"
  shows "packed_alignment (packed_new (fixed_size t) (gty_alignment t)) = gty_alignment t \<and>
    packed_fixed (packed_new (fixed_size t) (gty_alignment t)) = fixed_size t"
proof -
  have lay: "lay_ok (gty_layout t)" by (rule lay_ok_gty)
  then have "gty_alignment t < 16" "\<And>n. fixed_size t = Some n \<Longrightarrow> 0 < n"
    by (auto simp: lay_ok_def gty_alignment_def fixed_size_def is_align_def)
  then show ?thesis using assms packed_alignment_new packed_fixed_new by auto
qed

theorem packed_layout_unpacks_witness:
  "packed_alignment (packed_new (fixed_size (TTuple [TU32, TU64])) (gty_alignment (TTuple [TU32, TU64]))) =
     gty_alignment (TTuple [TU32, TU64]) \<and>
   packed_fixed (packed_new (fixed_size (TTuple [TU32, TU64])) (gty_alignment (TTuple [TU32, TU64]))) =
     fixed_size (TTuple [TU32, TU64]) \<and> fixed_size (TTuple [TU32, TU64]) = Some 16"
proof -
  have "fixed_size (TTuple [TU32, TU64]) = Some 16" by code_simp
  then show ?thesis using packed_layout_unpacks [of "TTuple [TU32, TU64]"] by simp
qed

end
