(* ===== verification/Gv_Framing.thy ===== *)
theory Gv_Framing
  imports Gv_Type
begin

section \<open>GVariant container framing: offsets, padding, array and tuple cursors\<close>

text \<open>
  The model of the framing layer that the dynamic codec (\<^verbatim>\<open>ser.rs\<close>, \<^verbatim>\<open>de.rs\<close>) and the
  typed codec (\<^verbatim>\<open>codec.rs\<close>) of \<^verbatim>\<open>crates/ostrya-gvariant\<close> share: the width of framing
  offsets, padding, the array writer and reader, and the tuple writer and reader. A
  reader or writer is a record of its fields; each method takes the record and returns
  the updated one. A closure argument of the source is a function argument.

  The lemmas relate both sides to one description of the bytes of a container
  (\<open>struct_bytes\<close>, \<open>array_bytes\<close>): the writer produces exactly these bytes, and the
  reader accepts exactly these bytes and returns the members.
\<close>

subsection \<open>Offsets and padding\<close>

definition offset_max :: "nat \<Rightarrow> nat" where
  "offset_max z =
     (if z = 1 then 0xFF
      else if z = 2 then 0xFFFF
      else if z = 4 then 0xFFFFFFFF
      else 2 ^ 64 - 1)"

definition choose_offset_size :: "nat \<Rightarrow> nat \<Rightarrow> nat" where
  "choose_offset_size data_len n_offsets =
     (if data_len + n_offsets * 1 \<le> offset_max 1 then 1
      else if data_len + n_offsets * 2 \<le> offset_max 2 then 2
      else if data_len + n_offsets * 4 \<le> offset_max 4 then 4
      else 8)"

definition offset_size_for :: "nat \<Rightarrow> nat" where
  "offset_size_for len =
     (if len \<le> offset_max 1 then 1
      else if len \<le> offset_max 2 then 2
      else if len \<le> offset_max 4 then 4
      else 8)"

definition write_offset :: "bytes \<Rightarrow> nat \<Rightarrow> nat \<Rightarrow> bytes" where
  "write_offset buf val z = buf @ take z (to_le_bytes (word_of_nat val :: u64))"

definition read_offset :: "bytes \<Rightarrow> nat \<Rightarrow> nat" where
  "read_offset bs z = unat (from_le_bytes (bs @ replicate (8 - z) 0) :: u64)"

definition check_padding :: "bytes \<Rightarrow> (gv_error, unit) result" where
  "check_padding padding =
     (if \<exists>b \<in> set padding. b \<noteq> 0 then Err (NotNormal ''padding bytes are not zero'') else Ok ())"

definition pad_to :: "bytes \<Rightarrow> nat \<Rightarrow> bytes" where
  "pad_to out al = resize out (align_up (length out) al) 0"

subsection \<open>Arrays\<close>

record array_reader =
  ar_data :: bytes
  ar_elem_alignment :: nat
  ar_elem_size :: "nat option"
  ar_z :: nat
  ar_data_end :: nat
  ar_n :: nat
  ar_i :: nat
  ar_pos :: nat

definition array_reader_new :: "bytes \<Rightarrow> nat \<Rightarrow> nat option \<Rightarrow> (gv_error, array_reader) result" where
  "array_reader_new data elem_alignment elem_fixed_size =
     (let r = \<lparr>ar_data = data, ar_elem_alignment = elem_alignment, ar_elem_size = elem_fixed_size,
               ar_z = 0, ar_data_end = 0, ar_n = 0, ar_i = 0, ar_pos = 0\<rparr> in
      if data = [] then Ok r
      else case elem_fixed_size of
        Some sz \<Rightarrow>
          if \<not> sz dvd length data
          then Err (NotNormal ''array size is not a multiple of the element size'')
          else Ok (r\<lparr>ar_n := length data div sz\<rparr>)
      | None \<Rightarrow>
          let z = offset_size_for (length data) in
          if length data < z then Err (NotNormal ''array is too small for its framing'')
          else
            let data_end = read_offset (drop (length data - z) data) z in
            if data_end > length data - z
            then Err (NotNormal ''array framing offset is out of bounds'')
            else
              let offsets_len = length data - data_end in
              if \<not> z dvd offsets_len
              then Err (NotNormal ''array framing area has a partial offset'')
              else
                let n = offsets_len div z in
                if choose_offset_size data_end n \<noteq> z
                then Err (NotNormal ''array framing offset size is not normal-form'')
                else Ok (r\<lparr>ar_z := z, ar_data_end := data_end, ar_n := n\<rparr>))"

text \<open>\<open>next_slice\<close>: \<open>None\<close> at the end, otherwise the slice or an error and the new reader.\<close>

definition next_slice :: "array_reader \<Rightarrow> ((gv_error, bytes) result \<times> array_reader) option" where
  "next_slice r =
     (if ar_i r \<ge> ar_n r then None
      else
        let idx = ar_i r; r = r\<lparr>ar_i := ar_i r + 1\<rparr> in
        case ar_elem_size r of
          Some sz \<Rightarrow> Some (Ok (slice (ar_data r) (idx * sz) (idx * sz + sz)), r)
        | None \<Rightarrow>
            let off_at = ar_data_end r + idx * ar_z r;
                end_at = read_offset (slice (ar_data r) off_at (off_at + ar_z r)) (ar_z r);
                start = align_up (ar_pos r) (ar_elem_alignment r) in
            if start > end_at \<or> end_at > ar_data_end r
            then Some (Err (NotNormal ''array element offsets are out of order''), r\<lparr>ar_i := ar_n r\<rparr>)
            else case check_padding (slice (ar_data r) (ar_pos r) start) of
              Err e \<Rightarrow> Some (Err e, r\<lparr>ar_i := ar_n r\<rparr>)
            | Ok _ \<Rightarrow> Some (Ok (slice (ar_data r) start end_at), r\<lparr>ar_pos := end_at\<rparr>))"

lemma next_slice_progress:
  "next_slice r = Some (s, r') \<Longrightarrow> ar_n r' - ar_i r' < ar_n r - ar_i r"
  by (auto simp: next_slice_def Let_def split: if_splits option.splits result.splits)

text \<open>The loops \<open>while let Some(slice) = reader.next_slice() { items.push(f(slice?)?) }\<close>.\<close>

function read_elems ::
  "(bytes \<Rightarrow> (gv_error, 'a) result) \<Rightarrow> array_reader \<Rightarrow> (gv_error, 'a list) result" where
  "read_elems f r =
     (case next_slice r of
        None \<Rightarrow> Ok []
      | Some (s, r') \<Rightarrow>
          andthen s (\<lambda>sl. andthen (f sl) (\<lambda>x. andthen (read_elems f r') (\<lambda>xs. Ok (x # xs)))))"
  by pat_completeness auto
termination
  by (relation "measure (\<lambda>(f, r). ar_n r - ar_i r)") (auto dest: next_slice_progress)

declare read_elems.simps [simp del]

text \<open>
  \<open>write_array\<close>: the element loops over \<open>0..n\<close> and the offsets. \<open>write_elem out i\<close>
  is the closure of the caller.
\<close>

fun write_fixed_elems ::
  "bytes \<Rightarrow> (bytes \<Rightarrow> nat \<Rightarrow> (gv_error, bytes) result) \<Rightarrow> nat list \<Rightarrow> (gv_error, bytes) result" where
  "write_fixed_elems out w [] = Ok out"
| "write_fixed_elems out w (i # is) = andthen (w out i) (\<lambda>out. write_fixed_elems out w is)"

fun write_var_elems ::
  "bytes \<Rightarrow> nat \<Rightarrow> nat \<Rightarrow> (bytes \<Rightarrow> nat \<Rightarrow> (gv_error, bytes) result) \<Rightarrow> nat list \<Rightarrow> nat list \<Rightarrow>
    (gv_error, bytes \<times> nat list) result" where
  "write_var_elems out start al w ends [] = Ok (out, ends)"
| "write_var_elems out start al w ends (i # is) =
     andthen (w (pad_to out al) i) (\<lambda>out.
       write_var_elems out start al w (ends @ [length out - start]) is)"

definition write_array ::
  "bytes \<Rightarrow> nat \<Rightarrow> bool \<Rightarrow> nat \<Rightarrow> (bytes \<Rightarrow> nat \<Rightarrow> (gv_error, bytes) result) \<Rightarrow> (gv_error, bytes) result"
where
  "write_array out elem_alignment elem_fixed n write_elem =
     (let start = length out in
      if elem_fixed then write_fixed_elems out write_elem [0..<n]
      else andthen (write_var_elems out start elem_alignment write_elem [] [0..<n]) (\<lambda>(out, ends).
        if ends \<noteq> [] then
          let z = choose_offset_size (length out - start) (length ends) in
          Ok (fold (\<lambda>e out. write_offset out e z) ends out)
        else Ok out))"

subsection \<open>Tuples\<close>

record tuple_reader =
  tr_data :: bytes
  tr_framing_start :: nat
  tr_z :: nat
  tr_pos :: nat
  tr_offset_index :: nat
  tr_fixed :: bool

definition tuple_reader_new :: "bytes \<Rightarrow> nat \<Rightarrow> nat option \<Rightarrow> (gv_error, tuple_reader) result" where
  "tuple_reader_new data n_offsets fs =
     (if (case fs of Some sz \<Rightarrow> length data \<noteq> sz | None \<Rightarrow> False)
      then Err (NotNormal ''fixed-size tuple has the wrong size'')
      else
        let z = offset_size_for (length data) in
        if length data < n_offsets * z then Err (NotNormal ''tuple is too small for its framing'')
        else
          let framing_start = length data - n_offsets * z in
          if n_offsets > 0 \<and> choose_offset_size framing_start n_offsets \<noteq> z
          then Err (NotNormal ''tuple framing offset size is not normal-form'')
          else Ok \<lparr>tr_data = data, tr_framing_start = framing_start, tr_z = z, tr_pos = 0,
                   tr_offset_index = 0, tr_fixed = (fs \<noteq> None)\<rparr>)"

definition tuple_field ::
  "tuple_reader \<Rightarrow> nat \<Rightarrow> nat option \<Rightarrow> bool \<Rightarrow> (gv_error, bytes \<times> tuple_reader) result" where
  "tuple_field r al fs is_last =
     (let start = align_up (tr_pos r) al;
          at = length (tr_data r) - (tr_offset_index r + 1) * tr_z r;
          (end_opt, r) =
            (case fs of
               Some sz \<Rightarrow> (if start + sz < usize_bound then Some (start + sz) else None, r)
             | None \<Rightarrow>
                 if is_last then (Some (tr_framing_start r), r)
                 else (Some (read_offset (slice (tr_data r) at (at + tr_z r)) (tr_z r)),
                       r\<lparr>tr_offset_index := tr_offset_index r + 1\<rparr>)) in
      andthen (ok_or (NotNormal ''tuple member offset overflows'') end_opt) (\<lambda>end_at.
        if start > end_at \<or> end_at > tr_framing_start r
        then Err (NotNormal ''tuple member offsets are out of order'')
        else andthen (check_padding (slice (tr_data r) (tr_pos r) start)) (\<lambda>_.
          Ok (slice (tr_data r) start end_at, r\<lparr>tr_pos := end_at\<rparr>))))"

definition tuple_reader_finish :: "tuple_reader \<Rightarrow> (gv_error, unit) result" where
  "tuple_reader_finish r =
     (if tr_fixed r then check_padding (drop (tr_pos r) (tr_data r))
      else if tr_pos r \<noteq> tr_framing_start r
      then Err (NotNormal ''tuple members do not fill the tuple'')
      else Ok ())"

record tuple_writer =
  tw_out :: bytes
  tw_start :: nat
  tw_offsets :: "nat list"

definition tuple_writer_new :: "bytes \<Rightarrow> tuple_writer" where
  "tuple_writer_new out = \<lparr>tw_out = out, tw_start = length out, tw_offsets = []\<rparr>"

definition field_dyn ::
  "tuple_writer \<Rightarrow> nat \<Rightarrow> nat option \<Rightarrow> bool \<Rightarrow> (bytes \<Rightarrow> (gv_error, bytes) result) \<Rightarrow>
    (gv_error, tuple_writer) result" where
  "field_dyn w al fs is_last write =
     andthen (write (pad_to (tw_out w) al)) (\<lambda>out.
       Ok (w\<lparr>tw_out := out,
             tw_offsets := (if \<not> is_last \<and> fs = None then tw_offsets w @ [length out - tw_start w]
                            else tw_offsets w)\<rparr>))"

definition tuple_writer_finish :: "tuple_writer \<Rightarrow> nat option \<Rightarrow> bytes" where
  "tuple_writer_finish w fs =
     (case fs of
        Some sz \<Rightarrow> resize (tw_out w) (tw_start w + sz) 0
      | None \<Rightarrow>
          if tw_offsets w \<noteq> [] then
            let z = choose_offset_size (length (tw_out w) - tw_start w) (length (tw_offsets w)) in
            fold (\<lambda>e out. write_offset out e z) (rev (tw_offsets w)) (tw_out w)
          else tw_out w)"

text \<open>
  The member loops: each member is an alignment, a fixed size, and for the writer the
  closure that encodes it. The last member of the list is the member with \<open>is_last\<close>.
\<close>

fun write_fields ::
  "tuple_writer \<Rightarrow> (nat \<times> nat option \<times> (bytes \<Rightarrow> (gv_error, bytes) result)) list \<Rightarrow>
    (gv_error, tuple_writer) result" where
  "write_fields w [] = Ok w"
| "write_fields w ((al, fs, wr) # ms) =
     andthen (field_dyn w al fs (ms = []) wr) (\<lambda>w. write_fields w ms)"

fun read_fields ::
  "('m \<Rightarrow> nat \<times> nat option) \<Rightarrow> ('m \<Rightarrow> bytes \<Rightarrow> (gv_error, 'a) result) \<Rightarrow> tuple_reader \<Rightarrow> 'm list \<Rightarrow>
    (gv_error, 'a list \<times> tuple_reader) result" where
  "read_fields lay f r [] = Ok ([], r)"
| "read_fields lay f r (m # ms) =
     andthen (tuple_field r (fst (lay m)) (snd (lay m)) (ms = [])) (\<lambda>(s, r).
       andthen (f m s) (\<lambda>x.
         andthen (read_fields lay f r ms) (\<lambda>(xs, r). Ok (x # xs, r))))"

definition n_offsets_of :: "(nat \<times> nat option) list \<Rightarrow> nat" where
  "n_offsets_of ms = length (filter (\<lambda>m. snd m = None) (take (length ms - 1) ms))"

subsection \<open>Offsets and padding: facts\<close>

lemma offset_max_bounds [simp]:
  "offset_max 1 = 255" "offset_max (Suc 0) = 255" "offset_max 2 = 65535" "offset_max 4 = 4294967295"
  by (simp_all add: offset_max_def)

lemma choose_offset_size_cases: "choose_offset_size m n \<in> {1, 2, 4, 8}"
  by (simp add: choose_offset_size_def)

lemma offset_size_for_cases: "offset_size_for m \<in> {1, 2, 4, 8}"
  by (simp add: offset_size_for_def)

text \<open>The reader derives from the total size the offset size that the writer chose.\<close>

lemma offset_size_agreement:
  "offset_size_for (m + n * choose_offset_size m n) = choose_offset_size m n"
  by (simp add: offset_size_for_def choose_offset_size_def)

text \<open>An end offset within the container fits the chosen width.\<close>

lemma choose_offset_size_fits:
  assumes "m + n * choose_offset_size m n < usize_bound" and "e \<le> m"
  shows "e < 256 ^ choose_offset_size m n"
  using assms by (auto simp: choose_offset_size_def split: if_splits)

lemma write_offset_eq: "z \<le> 8 \<Longrightarrow> write_offset buf val z = buf @ le_bytes z val"
proof -
  assume "z \<le> 8"
  have "to_le_bytes (word_of_nat val :: u64) = le_bytes 8 val"
    using le_bytes_mod [of 8 val] by (simp add: to_le_bytes_def unat_of_nat)
  then show ?thesis using \<open>z \<le> 8\<close> by (simp add: write_offset_def take_le_bytes)
qed

lemma read_offset_eq:
  assumes "length bs = z" and "z \<le> 8"
  shows "read_offset bs z = le_val bs"
proof -
  have "le_val bs < 256 ^ 8"
    using le_val_bound [of bs] assms power_increasing [of z 8 "256 :: nat"] by simp
  then have "le_val bs mod 2 ^ 64 = le_val bs" by simp
  then show ?thesis
    using assms by (simp add: read_offset_def from_le_bytes_def le_val_append unat_of_nat)
qed

lemma read_write_offset: "z \<le> 8 \<Longrightarrow> e < 256 ^ z \<Longrightarrow> read_offset (le_bytes z e) z = e"
  by (simp add: read_offset_eq le_val_le_bytes)

lemma write_read_offset: "length bs = z \<Longrightarrow> z \<le> 8 \<Longrightarrow> le_bytes z (read_offset bs z) = bs"
  using le_bytes_le_val [of bs] by (simp add: read_offset_eq)

definition framing :: "nat \<Rightarrow> nat list \<Rightarrow> bytes" where
  "framing z ends = concat (map (le_bytes z) ends)"

lemma framing_simps [simp]:
  "framing z [] = []"
  "framing z (e # es) = le_bytes z e @ framing z es"
  "framing z (es @ fs) = framing z es @ framing z fs"
  by (simp_all add: framing_def)

lemma length_framing [simp]: "length (framing z ends) = length ends * z"
  by (induction ends) auto

lemma fold_write_offset:
  "z \<le> 8 \<Longrightarrow> fold (\<lambda>e out. write_offset out e z) ends out = out @ framing z ends"
  by (induction ends arbitrary: out) (auto simp: write_offset_eq)

lemma slice_framing:
  "k < length ends \<Longrightarrow>
    slice (body @ framing z ends) (length body + k * z) (length body + k * z + z) = le_bytes z (ends ! k)"
proof (induction ends arbitrary: body k)
  case Nil
  then show ?case by simp
next
  case (Cons e es)
  show ?case
  proof (cases k)
    case 0
    then show ?thesis by (simp add: slice_def)
  next
    case (Suc j)
    then show ?thesis
      using Cons.IH [of j "body @ le_bytes z e"] Cons.prems by (simp add: add.assoc)
  qed
qed

text \<open>A byte string of whole chunks is the framing that its chunks spell.\<close>

lemma framing_of_chunks:
  assumes "z \<le> 8" and "m + n * z = length data"
  shows "drop m data =
    framing z (map (\<lambda>k. read_offset (slice data (m + k * z) (m + k * z + z)) z) [0..<n])"
  using assms(2)
proof (induction n arbitrary: m)
  case 0
  then show ?case by simp
next
  case (Suc n)
  have "drop m data = slice data m (m + z) @ drop (m + z) data"
    using append_take_drop_id [of z "drop m data"] by (simp add: slice_def add.commute)
  moreover have "le_bytes z (read_offset (slice data m (m + z)) z) = slice data m (m + z)"
    using Suc.prems assms(1) by (intro write_read_offset) auto
  moreover have "drop (m + z) data =
      framing z (map (\<lambda>k. read_offset (slice data (m + Suc k * z) (m + Suc k * z + z)) z) [0..<n])"
    using Suc.IH [of "m + z"] Suc.prems by (simp add: algebra_simps)
  ultimately show ?case
    by (simp add: upt_conv_Cons map_Suc_upt [symmetric] comp_def del: upt_Suc)
qed

lemma check_padding_Ok: "check_padding p = Ok u \<longleftrightarrow> p = replicate (length p) 0"
  by (auto simp: check_padding_def intro: replicate_length_same [symmetric] dest: arg_cong [where f = set] split: if_splits)
    
lemma pad_to_eq: "is_align al \<Longrightarrow> pad_to out al = out @ replicate (align_up (length out) al - length out) 0"
  by (simp add: pad_to_def resize_def align_up_ge)

lemma length_pad_to [simp]: "is_align al \<Longrightarrow> length (pad_to out al) = align_up (length out) al"
  by (simp add: pad_to_eq align_up_ge)

lemma pad_to_append:
  "is_align al \<Longrightarrow> al dvd length buf \<Longrightarrow> pad_to (buf @ acc) al = buf @ pad_to acc al"
  by (simp add: pad_to_eq align_up_add)


subsection \<open>The bytes of a structure\<close>

text \<open>
  A member is its alignment, its fixed size and its serialized bytes. \<open>struct_body\<close>
  appends the members, each padded to its alignment, to what is already there;
  \<open>struct_ends\<close> lists the end offsets of the variable-size members but the last.
\<close>

type_synonym member = "nat \<times> nat option \<times> bytes"

fun struct_body :: "bytes \<Rightarrow> member list \<Rightarrow> bytes" where
  "struct_body acc [] = acc"
| "struct_body acc ((al, fs, s) # ms) = struct_body (pad_to acc al @ s) ms"

fun struct_ends :: "bytes \<Rightarrow> member list \<Rightarrow> nat list" where
  "struct_ends acc [] = []"
| "struct_ends acc ((al, fs, s) # ms) =
     (if ms \<noteq> [] \<and> fs = None then [length (pad_to acc al @ s)] else []) @
     struct_ends (pad_to acc al @ s) ms"

definition struct_bytes :: "nat option \<Rightarrow> member list \<Rightarrow> bytes" where
  "struct_bytes fs ms =
     (let body = struct_body [] ms; ends = struct_ends [] ms in
      case fs of
        Some sz \<Rightarrow> resize body sz 0
      | None \<Rightarrow> body @ framing (choose_offset_size (length body) (length ends)) (rev ends))"

definition with_bytes :: "(nat \<times> nat option) list \<Rightarrow> bytes list \<Rightarrow> member list" where
  "with_bytes lays ss = map2 (\<lambda>(al, fs) s. (al, fs, s)) lays ss"

lemma with_bytes_simps [simp]:
  "with_bytes [] ss = []"
  "with_bytes ls [] = []"
  "with_bytes ((al, fs) # ls) (s # ss) = (al, fs, s) # with_bytes ls ss"
  by (auto simp: with_bytes_def)

lemma with_bytes_Nil_iff: "length ls = length ss \<Longrightarrow> with_bytes ls ss = [] \<longleftrightarrow> ls = []"
  by (cases ls; cases ss) (auto simp: with_bytes_def)

definition sizes_ok :: "(nat \<times> nat option) list \<Rightarrow> bytes list \<Rightarrow> bool" where
  "sizes_ok ls ss = list_all2 (\<lambda>l s. \<forall>k. snd l = Some k \<longrightarrow> length s = k) ls ss"

lemma sizes_ok_length: "sizes_ok ls ss \<Longrightarrow> length ls = length ss"
  by (simp add: sizes_ok_def list_all2_lengthD)

text \<open>A member writer appends the same bytes at every aligned position.\<close>

definition pos_indep :: "nat \<Rightarrow> (bytes \<Rightarrow> (gv_error, bytes) result) \<Rightarrow> bool" where
  "pos_indep al wr \<longleftrightarrow> (\<forall>out. al dvd length out \<longrightarrow> wr out = map_ok (\<lambda>bs. out @ bs) (wr []))"

lemma pos_indepD: "pos_indep al wr \<Longrightarrow> al dvd length out \<Longrightarrow> wr out = map_ok (\<lambda>bs. out @ bs) (wr [])"
  unfolding pos_indep_def by blast

abbreviation field_layouts ::
  "(nat \<times> nat option \<times> (bytes \<Rightarrow> (gv_error, bytes) result)) list \<Rightarrow> (nat \<times> nat option) list" where
  "field_layouts ms \<equiv> map (\<lambda>(al, fs, wr). (al, fs)) ms"

abbreviation run_fields ::
  "(nat \<times> nat option \<times> (bytes \<Rightarrow> (gv_error, bytes) result)) list \<Rightarrow> (gv_error, bytes list) result" where
  "run_fields ms \<equiv> try_map (\<lambda>(al, fs, wr). wr []) ms"

lemma write_fields_eq:
  assumes "\<forall>(al, fs, wr) \<in> set ms. is_align al \<and> al dvd length buf \<and> pos_indep al wr"
  shows "write_fields \<lparr>tw_out = buf @ acc, tw_start = length buf, tw_offsets = offs\<rparr> ms =
    map_ok (\<lambda>ss. \<lparr>tw_out = buf @ struct_body acc (with_bytes (field_layouts ms) ss),
                  tw_start = length buf,
                  tw_offsets = offs @ struct_ends acc (with_bytes (field_layouts ms) ss)\<rparr>)
      (run_fields ms)"
  using assms
proof (induction ms arbitrary: acc offs)
  case Nil
  show ?case by simp
next
  case (Cons m ms)
  obtain al fs wr where m: "m = (al, fs, wr)" by (cases m)
  have al: "is_align al" "al dvd length buf" and wr: "pos_indep al wr"
    using Cons.prems m by auto
  have "al dvd length (pad_to (buf @ acc) al)"
    using al by (simp add: align_up_dvd)
  then have eq: "wr (pad_to (buf @ acc) al) = map_ok (\<lambda>bs. buf @ pad_to acc al @ bs) (wr [])"
    using pos_indepD [OF wr, of "pad_to (buf @ acc) al"] al by (simp add: pad_to_append)
  have prems: "\<forall>(al, fs, wr) \<in> set ms. is_align al \<and> al dvd length buf \<and> pos_indep al wr"
    using Cons.prems by auto
  show ?case
  proof (cases "wr []")
    case (Err e)
    then show ?thesis by (simp add: m field_dyn_def eq)
  next
    case (Ok bs)
    have nil: "with_bytes (field_layouts ms) ss = [] \<longleftrightarrow> ms = []" if "run_fields ms = Ok ss" for ss
    proof -
      have "length (field_layouts ms) = length ss"
        using that by (auto simp: result_simps dest: list_all2_lengthD)
      then show ?thesis using with_bytes_Nil_iff [of "field_layouts ms" ss] by simp
    qed
    show ?thesis
      using Cons.IH [OF prems, of "pad_to acc al @ bs"
          "if ms \<noteq> [] \<and> fs = None then offs @ [length (pad_to acc al @ bs)] else offs"] nil
      by (cases "run_fields ms") (auto simp: m field_dyn_def eq Ok)
  qed
qed

definition tuple_encode ::
  "nat option \<Rightarrow> (nat \<times> nat option \<times> (bytes \<Rightarrow> (gv_error, bytes) result)) list \<Rightarrow> bytes \<Rightarrow>
    (gv_error, bytes) result" where
  "tuple_encode fs ms out = map_ok (\<lambda>w. tuple_writer_finish w fs) (write_fields (tuple_writer_new out) ms)"

lemma choose_offset_size_le [simp]: "choose_offset_size m n \<le> 8"
  by (simp add: choose_offset_size_def)

lemma resize_append: "resize (buf @ xs) (length buf + n) v = buf @ resize xs n v"
  by (simp add: resize_def)

lemma tuple_encode_eq:
  assumes "\<forall>(al, fs, wr) \<in> set ms. is_align al \<and> al dvd length out \<and> pos_indep al wr"
  shows "tuple_encode fs ms out =
    map_ok (\<lambda>ss. out @ struct_bytes fs (with_bytes (field_layouts ms) ss)) (run_fields ms)"
proof -
  note eq = write_fields_eq [OF assms, of "[]" "[]"]
  show ?thesis
    by (cases "run_fields ms"; cases fs)
      (simp_all add: tuple_encode_def tuple_writer_new_def tuple_writer_finish_def struct_bytes_def
        Let_def resize_append fold_write_offset eq [simplified])
qed

subsection \<open>The tuple reader accepts only structure bytes\<close>

text \<open>The end offset that a tuple reader finds for the \<open>k\<close>-th variable-size member.\<close>

definition tuple_off :: "bytes \<Rightarrow> nat \<Rightarrow> nat \<Rightarrow> nat" where
  "tuple_off data z k =
     read_offset (slice data (length data - (k + 1) * z) (length data - (k + 1) * z + z)) z"

lemma take_pad_slice:
  assumes "is_align al" "start = align_up pos al" "start \<le> e" "e \<le> length data" "pos \<le> length data"
    and "check_padding (slice data pos start) = Ok u"
  shows "take e data = pad_to (take pos data) al @ slice data start e"
proof -
  have "pos \<le> start" using assms by (simp add: align_up_ge)
  then have "take e data = take pos data @ slice data pos start @ slice data start e"
    using take_slice [of pos start data] take_slice [of start e data] assms by simp
  moreover have "slice data pos start = replicate (start - pos) 0"
    using assms(3-) by (auto simp: check_padding_Ok)
  ultimately show ?thesis using assms by (simp add: pad_to_eq min_def)
qed

lemma tuple_field_sound:
  assumes "tuple_field r al fs is_last = Ok (s, r')" and "is_align al"
    and "tr_pos r \<le> tr_framing_start r" and "tr_framing_start r \<le> length (tr_data r)"
  shows "r' = r\<lparr>tr_pos := tr_pos r', tr_offset_index :=
              tr_offset_index r + (if \<not> is_last \<and> fs = None then 1 else 0)\<rparr>"
    and "tr_pos r' \<le> tr_framing_start r"
    and "take (tr_pos r') (tr_data r) = pad_to (take (tr_pos r) (tr_data r)) al @ s"
    and "\<forall>k. fs = Some k \<longrightarrow> length s = k"
    and "\<not> is_last \<and> fs = None \<Longrightarrow> tuple_off (tr_data r) (tr_z r) (tr_offset_index r) = tr_pos r'"
proof -
  let ?start = "align_up (tr_pos r) al"
  let ?e = "tr_pos r'"
  have e: "?start \<le> ?e" "?e \<le> tr_framing_start r"
    and pad: "check_padding (slice (tr_data r) (tr_pos r) ?start) = Ok ()"
    and s: "s = slice (tr_data r) ?start ?e"
    using assms(1)
    by (auto simp: tuple_field_def Let_def result_simps split: if_splits option.splits)
  show "r' = r\<lparr>tr_pos := tr_pos r', tr_offset_index :=
              tr_offset_index r + (if \<not> is_last \<and> fs = None then 1 else 0)\<rparr>"
    using assms(1)
    by (auto simp: tuple_field_def Let_def result_simps split: if_splits option.splits)
  show "tr_pos r' \<le> tr_framing_start r" by (rule e)
  show "take ?e (tr_data r) = pad_to (take (tr_pos r) (tr_data r)) al @ s"
    unfolding s using e pad assms(2-4) by (intro take_pad_slice) auto
  show "\<forall>k. fs = Some k \<longrightarrow> length s = k"
    using assms(1,4)
    by (auto simp: tuple_field_def Let_def result_simps split: if_splits option.splits)
  show "\<not> is_last \<and> fs = None \<Longrightarrow> tuple_off (tr_data r) (tr_z r) (tr_offset_index r) = ?e"
    using assms(1)
    by (auto simp: tuple_field_def tuple_off_def Let_def result_simps split: if_splits option.splits)
qed

abbreviation read_slices ::
  "tuple_reader \<Rightarrow> (nat \<times> nat option) list \<Rightarrow> (gv_error, bytes list \<times> tuple_reader) result" where
  "read_slices r ls \<equiv> read_fields (\<lambda>l. l) (\<lambda>_ s. Ok s) r ls"

lemma read_fields_slices:
  "read_fields lay f r ms = Ok (xs, r') \<longleftrightarrow>
     (\<exists>ss. read_slices r (map lay ms) = Ok (ss, r') \<and> list_all2 (\<lambda>(m, s) x. f m s = Ok x) (zip ms ss) xs)"
proof (induction ms arbitrary: r xs)
  case Nil
  show ?case by auto
next
  case (Cons m ms)
  show ?case
    by (force simp: result_simps Cons list_all2_Cons1)
qed

lemma read_slices_sound:
  assumes "read_slices r ls = Ok (ss, r')" and "\<forall>l \<in> set ls. is_align (fst l)"
    and "tr_pos r \<le> tr_framing_start r" and "tr_framing_start r \<le> length (tr_data r)"
  shows "sizes_ok ls ss \<and>
    (\<exists>p n. r' = r\<lparr>tr_pos := p, tr_offset_index := tr_offset_index r + n\<rparr> \<and> p \<le> tr_framing_start r \<and>
      n = n_offsets_of ls \<and>
      take p (tr_data r) = struct_body (take (tr_pos r) (tr_data r)) (with_bytes ls ss) \<and>
      struct_ends (take (tr_pos r) (tr_data r)) (with_bytes ls ss) =
        map (tuple_off (tr_data r) (tr_z r)) [tr_offset_index r ..< tr_offset_index r + n])"
  using assms
proof (induction ls arbitrary: r ss)
  case Nil
  then show ?case by (auto simp: sizes_ok_def n_offsets_of_def intro!: exI [of _ "tr_pos r"])
next
  case (Cons l ls)
  obtain al fs where l: "l = (al, fs)" by (cases l)
  from Cons.prems(1) obtain s r1 ss1 where
    f: "tuple_field r al fs (ls = []) = Ok (s, r1)" and
    rest: "read_slices r1 ls = Ok (ss1, r')" and ss: "ss = s # ss1"
    by (auto simp: l result_simps)
  have al: "is_align al" using Cons.prems(2) l by simp
  note step = tuple_field_sound [OF f al Cons.prems(3,4)]
  let ?k = "if ls \<noteq> [] \<and> fs = None then 1 else (0::nat)"
  have r1: "tr_data r1 = tr_data r" "tr_z r1 = tr_z r" "tr_framing_start r1 = tr_framing_start r"
    "tr_offset_index r1 = tr_offset_index r + ?k" "tr_fixed r1 = tr_fixed r"
    by (subst step(1); simp)+
  from Cons.IH [OF rest] Cons.prems(2,4) step(2) r1
  obtain p where ok1: "sizes_ok ls ss1" and
    r': "r' = r1\<lparr>tr_pos := p, tr_offset_index := tr_offset_index r1 + n_offsets_of ls\<rparr>" and
    p: "p \<le> tr_framing_start r" and
    body: "take p (tr_data r) = struct_body (take (tr_pos r1) (tr_data r)) (with_bytes ls ss1)" and
    ends: "struct_ends (take (tr_pos r1) (tr_data r)) (with_bytes ls ss1) =
        map (tuple_off (tr_data r) (tr_z r))
          [tr_offset_index r1 ..< tr_offset_index r1 + n_offsets_of ls]"
    by auto
  have n: "n_offsets_of (l # ls) = ?k + n_offsets_of ls"
    by (cases ls) (auto simp: n_offsets_of_def l)
  have nil: "with_bytes ls ss1 = [] \<longleftrightarrow> ls = []"
    using sizes_ok_length [OF ok1] by (rule with_bytes_Nil_iff)
  have "r' = r\<lparr>tr_pos := p, tr_offset_index := tr_offset_index r + n_offsets_of (l # ls)\<rparr>"
    using r' r1 n by (intro tuple_reader.equality) auto
  moreover have "take p (tr_data r) = struct_body (take (tr_pos r) (tr_data r)) (with_bytes (l # ls) ss)"
    using body step(3) by (simp add: l ss)
  moreover have "struct_ends (take (tr_pos r) (tr_data r)) (with_bytes (l # ls) ss) =
      map (tuple_off (tr_data r) (tr_z r)) [tr_offset_index r ..< tr_offset_index r + n_offsets_of (l # ls)]"
  proof -
    have len: "length (take (tr_pos r1) (tr_data r)) = tr_pos r1"
      using step(2) Cons.prems(4) by simp
    have "struct_ends (take (tr_pos r) (tr_data r)) (with_bytes (l # ls) ss) =
        (if ls \<noteq> [] \<and> fs = None then [tr_pos r1] else []) @
        map (tuple_off (tr_data r) (tr_z r))
          [tr_offset_index r1 ..< tr_offset_index r1 + n_offsets_of ls]"
      using len nil by (simp add: l ss ends flip: step(3))
    then show ?thesis
      using step(5) r1(4) by (cases "ls \<noteq> [] \<and> fs = None") (auto simp: n upt_conv_Cons simp del: upt_Suc)
  qed
  ultimately show ?case
    using ok1 step(4) p by (auto simp: sizes_ok_def ss l)
qed


definition tuple_slices ::
  "bytes \<Rightarrow> nat option \<Rightarrow> (nat \<times> nat option) list \<Rightarrow> (gv_error, bytes list) result" where
  "tuple_slices data fs ls =
     andthen (tuple_reader_new data (n_offsets_of ls) fs) (\<lambda>r.
       andthen (read_slices r ls) (\<lambda>(ss, r). andthen (tuple_reader_finish r) (\<lambda>_. Ok ss)))"

lemma offset_size_for_le [simp]: "offset_size_for m \<le> 8"
  by (simp add: offset_size_for_def)

lemma framing_of_tuple_offs:
  assumes "z \<le> 8" and "m + n * z = length data"
  shows "framing z (rev (map (tuple_off data z) [0..<n])) = drop m data"
proof -
  have "rev (map (tuple_off data z) [0..<n]) =
      map (\<lambda>k. read_offset (slice data (m + k * z) (m + k * z + z)) z) [0..<n]"
  proof (rule nth_equalityI)
    fix i assume "i < length (rev (map (tuple_off data z) [0..<n]))"
    then have i: "i < n" by simp
    have "length data - (n - Suc i + 1) * z = m + i * z"
    proof -
      have "(n - Suc i + 1) * z + i * z = (n - Suc i + 1 + i) * z" by (simp only: add_mult_distrib)
      also have "n - Suc i + 1 + i = n" using i by simp
      finally have "(n - Suc i + 1) * z + i * z = n * z" .
      with assms(2) show ?thesis by linarith
    qed
    then show "rev (map (tuple_off data z) [0..<n]) ! i =
        map (\<lambda>k. read_offset (slice data (m + k * z) (m + k * z + z)) z) [0..<n] ! i"
      using i by (simp add: rev_nth tuple_off_def)
  qed simp
  then show ?thesis using framing_of_chunks [OF assms] by simp
qed

lemma tuple_slices_sound:
  assumes ok: "tuple_slices data fs ls = Ok ss" and al: "\<forall>l \<in> set ls. is_align (fst l)"
    and fixed: "fs \<noteq> None \<Longrightarrow> n_offsets_of ls = 0"
  shows "sizes_ok ls ss \<and> data = struct_bytes fs (with_bytes ls ss)"
proof -
  let ?n = "n_offsets_of ls"
  let ?z = "offset_size_for (length data)"
  let ?m = "length data - ?n * ?z"
  from ok obtain r r' where
    new: "tuple_reader_new data ?n fs = Ok r" and
    sl: "read_slices r ls = Ok (ss, r')" and
    fin: "tuple_reader_finish r' = Ok ()"
    by (auto simp: tuple_slices_def result_simps)
  have r: "r = \<lparr>tr_data = data, tr_framing_start = ?m, tr_z = ?z, tr_pos = 0,
                tr_offset_index = 0, tr_fixed = (fs \<noteq> None)\<rparr>"
    and le: "?n * ?z \<le> length data" and z: "?n > 0 \<Longrightarrow> choose_offset_size ?m ?n = ?z"
    and sz: "\<And>k. fs = Some k \<Longrightarrow> length data = k"
    using new by (auto simp: tuple_reader_new_def Let_def split: if_splits option.splits)
  from read_slices_sound [OF sl al] obtain p where
    sizes: "sizes_ok ls ss" and
    r': "r' = r\<lparr>tr_pos := p, tr_offset_index := ?n\<rparr>" and p: "p \<le> ?m" and
    body: "take p data = struct_body [] (with_bytes ls ss)" and
    ends: "struct_ends [] (with_bytes ls ss) = map (tuple_off data ?z) [0..<?n]"
    by (auto simp: r)
  have "data = struct_bytes fs (with_bytes ls ss)"
  proof (cases fs)
    case None
    then have pm: "p = ?m" using fin r' r by (simp add: tuple_reader_finish_def split: if_splits)
    have "framing ?z (rev (map (tuple_off data ?z) [0..<?n])) = drop ?m data"
      using le by (intro framing_of_tuple_offs) auto
    then have "data = take p data @ framing ?z (rev (map (tuple_off data ?z) [0..<?n]))"
      by (simp add: pm)
    moreover have "?n = 0 \<or> choose_offset_size (length (take p data)) ?n = ?z"
      using z pm by auto
    ultimately show ?thesis
      using None by (auto simp: struct_bytes_def Let_def ends simp flip: body)
  next
    case (Some k)
    then have "check_padding (drop p data) = Ok ()"
      using fin r' r by (simp add: tuple_reader_finish_def)
    then have "drop p data = replicate (length data - p) 0" by (simp add: check_padding_Ok)
    then have "data = take p data @ replicate (length data - p) 0"
      by (metis append_take_drop_id)
    then show ?thesis
      using Some sz p by (simp add: struct_bytes_def Let_def resize_def flip: body) 
  qed
  with sizes show ?thesis by simp
qed

subsection \<open>The tuple reader accepts all structure bytes\<close>

lemma prefix_pad_to: "is_align al \<Longrightarrow> prefix acc (pad_to acc al)"
  by (simp add: pad_to_eq)

lemma prefix_struct_body:
  "\<forall>l \<in> set ls. is_align (fst l) \<Longrightarrow> length ls = length ss \<Longrightarrow> prefix acc (struct_body acc (with_bytes ls ss))"
proof (induction ls ss arbitrary: acc rule: list_induct2')
  case (4 l ls s ss)
  obtain al fs where l: "l = (al, fs)" by (cases l)
  have "prefix acc (pad_to acc al @ s)"
    using 4 l prefix_pad_to [of al acc] by (auto simp: prefix_def)
  then show ?case
    using 4 l prefix_order.trans by fastforce
qed auto

lemma prefix_take: "prefix xs ys \<Longrightarrow> take (length xs) ys = xs"
  by (auto simp: prefix_def)

lemma check_padding_zeros [simp]: "check_padding (replicate n 0) = Ok ()"
  by (simp add: check_padding_Ok)

lemma tuple_field_complete:
  assumes al: "is_align al" and data: "prefix (pad_to acc al @ s) (tr_data r)"
    and acc: "tr_pos r = length acc"
    and e: "e = length (pad_to acc al @ s)" "e \<le> tr_framing_start r" "tr_framing_start r < usize_bound"
    and k: "\<forall>k. fs = Some k \<longrightarrow> length s = k"
    and lst: "is_last \<and> fs = None \<Longrightarrow> e = tr_framing_start r"
    and off: "\<not> is_last \<and> fs = None \<Longrightarrow> tuple_off (tr_data r) (tr_z r) (tr_offset_index r) = e"
  shows "tuple_field r al fs is_last =
    Ok (s, r\<lparr>tr_pos := e, tr_offset_index := tr_offset_index r + (if \<not> is_last \<and> fs = None then 1 else 0)\<rparr>)"
proof -
  let ?start = "align_up (length acc) al"
  obtain t where t: "tr_data r = pad_to acc al @ s @ t" using data by (auto simp: prefix_def)
  have ge: "length acc \<le> ?start" using al by (simp add: align_up_ge)
  have e': "e = ?start + length s" using e(1) al by simp
  have pad: "slice (tr_data r) (length acc) ?start = replicate (?start - length acc) 0"
    using al ge by (simp add: t slice_def pad_to_eq)
  have s: "slice (tr_data r) ?start e = s"
    using al by (simp add: t slice_def e')
  have "check_padding (slice (tr_data r) (length acc) ?start) = Ok ()"
    unfolding pad by (simp add: check_padding_Ok)
  then show ?thesis
    using e(2,3) e' k lst off s acc
    by (cases fs) (auto simp: tuple_field_def Let_def tuple_off_def result_simps)
qed

lemma read_slices_complete:
  assumes "sizes_ok ls ss" and "\<forall>l \<in> set ls. is_align (fst l)"
    and "prefix (struct_body acc (with_bytes ls ss)) (tr_data r)" and "tr_pos r = length acc"
    and "length (struct_body acc (with_bytes ls ss)) \<le> tr_framing_start r"
    and "tr_framing_start r < usize_bound"
    and "ls \<noteq> [] \<and> snd (last ls) = None \<Longrightarrow>
      length (struct_body acc (with_bytes ls ss)) = tr_framing_start r"
    and "struct_ends acc (with_bytes ls ss) =
      map (tuple_off (tr_data r) (tr_z r)) [tr_offset_index r ..< tr_offset_index r + n_offsets_of ls]"
  shows "read_slices r ls =
    Ok (ss, r\<lparr>tr_pos := length (struct_body acc (with_bytes ls ss)),
              tr_offset_index := tr_offset_index r + n_offsets_of ls\<rparr>)"
  using assms
proof (induction ls arbitrary: r ss acc)
  case Nil
  then show ?case by (auto simp: sizes_ok_def n_offsets_of_def)
next
  case (Cons l ls)
  obtain al fs where l: "l = (al, fs)" by (cases l)
  obtain s ss1 where ss: "ss = s # ss1" using Cons.prems(1) by (auto simp: sizes_ok_def list_all2_Cons1)
  let ?acc = "pad_to acc al @ s"
  let ?k = "if ls \<noteq> [] \<and> fs = None then 1 else (0::nat)"
  let ?r = "r\<lparr>tr_pos := length ?acc, tr_offset_index := tr_offset_index r + ?k\<rparr>"
  have sz: "sizes_ok ls ss1" and k: "\<forall>k. fs = Some k \<longrightarrow> length s = k"
    using Cons.prems(1) by (auto simp: sizes_ok_def ss l)
  have als: "is_align al" "\<forall>l \<in> set ls. is_align (fst l)" using Cons.prems(2) by (auto simp: l)
  note pre = prefix_struct_body [OF als(2) sizes_ok_length [OF sz], of ?acc]
  have n: "n_offsets_of (l # ls) = ?k + n_offsets_of ls"
    by (cases ls) (auto simp: n_offsets_of_def l)
  have nil: "with_bytes ls ss1 = [] \<longleftrightarrow> ls = []"
    using sizes_ok_length [OF sz] by (rule with_bytes_Nil_iff)
  have ends: "(if ls \<noteq> [] \<and> fs = None then [length ?acc] else []) @ struct_ends ?acc (with_bytes ls ss1) =
      map (tuple_off (tr_data r) (tr_z r)) [tr_offset_index r ..< tr_offset_index r + (?k + n_offsets_of ls)]"
    using Cons.prems(8) nil n by (simp add: l ss)
  have "tuple_field r al fs (ls = []) = Ok (s, ?r)"
  proof (subst tuple_field_complete [OF als(1) _ Cons.prems(4) refl _ _ k])
    show "prefix ?acc (tr_data r)"
      using pre Cons.prems(3) prefix_order.trans by (auto simp: l ss)
    show "length ?acc \<le> tr_framing_start r"
      using prefix_length_le [OF pre] Cons.prems(5) by (simp add: l ss)
    show "tr_framing_start r < usize_bound" by (rule Cons.prems)
    show "(ls = []) \<and> fs = None \<Longrightarrow> length ?acc = tr_framing_start r"
      using Cons.prems(7) sz by (auto simp: l ss sizes_ok_def)
    show "ls \<noteq> [] \<and> fs = None \<Longrightarrow> tuple_off (tr_data r) (tr_z r) (tr_offset_index r) = length ?acc"
      using ends by (simp add: upt_conv_Cons del: upt_Suc)
  qed simp
  moreover have "read_slices ?r ls =
    Ok (ss1, ?r\<lparr>tr_pos := length (struct_body ?acc (with_bytes ls ss1)),
              tr_offset_index := tr_offset_index ?r + n_offsets_of ls\<rparr>)"
  proof (rule Cons.IH [OF sz als(2)])
    show "struct_ends ?acc (with_bytes ls ss1) =
      map (tuple_off (tr_data ?r) (tr_z ?r)) [tr_offset_index ?r ..< tr_offset_index ?r + n_offsets_of ls]"
      using ends by (cases "ls \<noteq> [] \<and> fs = None") (auto simp: upt_conv_Cons simp del: upt_Suc)
  qed (use Cons.prems in \<open>auto simp: l ss\<close>)
  ultimately show ?case using n by (auto simp: l ss add.assoc)
qed

lemma n_offsets_of_simps [simp]:
  "n_offsets_of [] = 0"
  "n_offsets_of ((al, fs) # ls) = (if ls \<noteq> [] \<and> fs = None then 1 else 0) + n_offsets_of ls"
  by (cases ls; auto simp: n_offsets_of_def)+

lemma length_struct_ends:
  "length ls = length ss \<Longrightarrow> length (struct_ends acc (with_bytes ls ss)) = n_offsets_of ls"
proof (induction ls ss arbitrary: acc rule: list_induct2)
  case (Cons l ls s ss)
  obtain al fs where l: "l = (al, fs)" by (cases l)
  show ?case using Cons with_bytes_Nil_iff [OF Cons.hyps]
    by (auto simp: l)
qed simp

lemma struct_ends_le:
  "\<forall>l \<in> set ls. is_align (fst l) \<Longrightarrow> length ls = length ss \<Longrightarrow>
    e \<in> set (struct_ends acc (with_bytes ls ss)) \<Longrightarrow> e \<le> length (struct_body acc (with_bytes ls ss))"
proof (induction ls ss arbitrary: acc rule: list_induct2')
  case (4 l ls s ss)
  obtain al fs where l: "l = (al, fs)" by (cases l)
  show ?case
    using 4 prefix_length_le [OF prefix_struct_body [of ls ss "pad_to acc al @ s"]]
    by (auto simp: l split: if_splits)
qed auto


lemma slice_framing_rev:
  assumes "length ends = n" and "k < n"
  shows "slice (body @ framing z (rev ends)) (length body + n * z - (k + 1) * z)
    (length body + n * z - (k + 1) * z + z) = le_bytes z (ends ! k)"
proof -
  have "(n - Suc k) * z + (k + 1) * z = (n - Suc k + (k + 1)) * z" by (simp only: add_mult_distrib)
  also have "n - Suc k + (k + 1) = n" using assms by simp
  finally have "length body + n * z - (k + 1) * z = length body + (n - Suc k) * z" by linarith
  then show ?thesis
    using slice_framing [of "n - Suc k" "rev ends" body z] assms by (simp add: rev_nth)
qed

lemma tuple_slices_var_complete:
  assumes sz: "sizes_ok ls ss" and al: "\<forall>l \<in> set ls. is_align (fst l)"
    and bound: "length (struct_bytes None (with_bytes ls ss)) < usize_bound"
  shows "tuple_slices (struct_bytes None (with_bytes ls ss)) None ls = Ok ss"
proof -
  let ?body = "struct_body [] (with_bytes ls ss)"
  let ?ends = "struct_ends [] (with_bytes ls ss)"
  let ?n = "n_offsets_of ls"
  let ?z = "choose_offset_size (length ?body) ?n"
  let ?data = "?body @ framing ?z (rev ?ends)"
  let ?r = "\<lparr>tr_data = ?data, tr_framing_start = length ?body, tr_z = ?z, tr_pos = 0,
                tr_offset_index = 0, tr_fixed = False\<rparr>"
  have len: "length ?ends = ?n" using length_struct_ends [OF sizes_ok_length [OF sz]] .
  then have data: "struct_bytes None (with_bytes ls ss) = ?data" by (simp add: struct_bytes_def Let_def)
  have dlen: "length ?data = length ?body + ?n * ?z" using len by simp
  have small: "length ?body + ?n * ?z < usize_bound" using bound unfolding data dlen .
  have new: "tuple_reader_new ?data ?n None = Ok ?r"
    unfolding tuple_reader_new_def dlen offset_size_agreement by (simp add: Let_def)
  have offs: "?ends = map (tuple_off ?data ?z) [0..<0 + ?n]"
  proof (rule nth_equalityI)
    fix k assume k: "k < length ?ends"
    have "?ends ! k \<le> length ?body"
      using k struct_ends_le [OF al sizes_ok_length [OF sz]] nth_mem by blast
    then have "?ends ! k < 256 ^ ?z" using choose_offset_size_fits [OF small] by blast
    then show "?ends ! k = map (tuple_off ?data ?z) [0..<0 + ?n] ! k"
      using k len slice_framing_rev [OF len, of k ?body ?z]
      by (simp add: tuple_off_def dlen read_write_offset)
  qed (simp add: len)
  have "read_slices ?r ls = Ok (ss, ?r\<lparr>tr_pos := length ?body, tr_offset_index := tr_offset_index ?r + ?n\<rparr>)"
    using small offs by (intro read_slices_complete [OF sz al]) auto
  then show ?thesis
    unfolding data tuple_slices_def new by (simp add: tuple_reader_finish_def)
qed

lemma tuple_slices_fixed_complete:
  assumes sz: "sizes_ok ls ss" and al: "\<forall>l \<in> set ls. is_align (fst l)"
    and fixed: "\<forall>l \<in> set ls. snd l \<noteq> None" "length (struct_body [] (with_bytes ls ss)) \<le> k"
    and bound: "k < usize_bound"
  shows "tuple_slices (struct_bytes (Some k) (with_bytes ls ss)) (Some k) ls = Ok ss"
proof -
  let ?body = "struct_body [] (with_bytes ls ss)"
  let ?data = "?body @ replicate (k - length ?body) 0"
  let ?r = "\<lparr>tr_data = ?data, tr_framing_start = k, tr_z = offset_size_for k, tr_pos = 0,
                tr_offset_index = 0, tr_fixed = True\<rparr>"
  have data: "struct_bytes (Some k) (with_bytes ls ss) = ?data"
    using fixed by (simp add: struct_bytes_def Let_def resize_def)
  have dlen: "length ?data = k" using fixed by simp
  have n: "n_offsets_of ls = 0"
    using fixed(1) by (auto simp: n_offsets_of_def filter_empty_conv dest: in_set_takeD)
  then have "struct_ends [] (with_bytes ls ss) = []"
    using length_struct_ends [OF sizes_ok_length [OF sz]] by simp
  moreover have "ls \<noteq> [] \<Longrightarrow> snd (last ls) \<noteq> None" using fixed(1) by simp
  ultimately have "read_slices ?r ls =
      Ok (ss, ?r\<lparr>tr_pos := length ?body, tr_offset_index := tr_offset_index ?r + n_offsets_of ls\<rparr>)"
    using fixed(2) bound n by (intro read_slices_complete [OF sz al]) auto
  moreover have "tuple_reader_new ?data 0 (Some k) = Ok ?r"
    unfolding tuple_reader_new_def dlen by (simp add: Let_def)
  ultimately show ?thesis
    unfolding data tuple_slices_def n by (simp add: tuple_reader_finish_def check_padding_Ok)
qed


text \<open>The fixed size of a structure, from the layouts of its members.\<close>

definition struct_fixed :: "(nat \<times> nat option) list \<Rightarrow> nat option" where
  "struct_fixed ls =
     (if ls = [] then Some 1
      else map_option (\<lambda>s. align_up s (max_alignment (map fst ls))) (struct_size ls 0))"

lemma struct_size_body:
  "struct_size ls (length acc) = Some n \<Longrightarrow> sizes_ok ls ss \<Longrightarrow> \<forall>l \<in> set ls. is_align (fst l) \<Longrightarrow>
    length (struct_body acc (with_bytes ls ss)) = n \<and> (\<forall>l \<in> set ls. snd l \<noteq> None)"
proof (induction ls arbitrary: acc ss)
  case (Cons l ls)
  obtain al fs where l: "l = (al, fs)" by (cases l)
  obtain s ss1 where ss: "ss = s # ss1" using Cons.prems(2) by (auto simp: sizes_ok_def list_all2_Cons1)
  from Cons.prems(1) obtain f where f: "fs = Some f" and
    n: "struct_size ls (align_up (length acc) al + f) = Some n"
    by (auto simp: l split: option.splits)
  have "length s = f" "sizes_ok ls ss1" using Cons.prems(2) f by (auto simp: l ss sizes_ok_def)
  with Cons.IH [of "pad_to acc al @ s" ss1] Cons.prems(3) n f show ?case
    by (simp add: l ss)
qed simp

lemma struct_size_None_iff: "struct_size ls s = None \<longleftrightarrow> (\<exists>l \<in> set ls. snd l = None)"
  by (induction ls s rule: struct_size.induct) (auto split: option.splits)

lemma struct_fixed_None_iff: "struct_fixed ls = None \<longleftrightarrow> (\<exists>l \<in> set ls. snd l = None)"
  by (auto simp: struct_fixed_def struct_size_None_iff)

lemma length_struct_bytes_fixed: "length (struct_bytes (Some k) ms) = k"
  by (simp add: struct_bytes_def Let_def resize_def)

lemma struct_fixed_body:
  assumes al: "\<forall>l \<in> set ls. is_align (fst l)" and ok: "sizes_ok ls ss" and k: "struct_fixed ls = Some k"
  shows "length (struct_body [] (with_bytes ls ss)) \<le> k"
proof (cases "ls = []")
  case False
  then obtain n where n: "struct_size ls 0 = Some n" "k = align_up n (max_alignment (map fst ls))"
    using k by (auto simp: struct_fixed_def)
  moreover have "is_align (max_alignment (map fst ls))"
    using al by (intro is_align_max_alignment) simp
  ultimately show ?thesis
    using struct_size_body [of ls "[]" n ss] ok al by (simp add: align_up_ge)
qed simp

lemma tuple_slices_iff:
  assumes al: "\<forall>l \<in> set ls. is_align (fst l)" and bound: "length data < usize_bound"
  shows "tuple_slices data (struct_fixed ls) ls = Ok ss \<longleftrightarrow>
    sizes_ok ls ss \<and> data = struct_bytes (struct_fixed ls) (with_bytes ls ss)"
proof
  assume "tuple_slices data (struct_fixed ls) ls = Ok ss"
  moreover have "struct_fixed ls \<noteq> None \<Longrightarrow> n_offsets_of ls = 0"
    by (auto simp: n_offsets_of_def filter_empty_conv struct_fixed_None_iff dest: in_set_takeD)
  ultimately show "sizes_ok ls ss \<and> data = struct_bytes (struct_fixed ls) (with_bytes ls ss)"
    using al tuple_slices_sound by blast
next
  assume ok: "sizes_ok ls ss \<and> data = struct_bytes (struct_fixed ls) (with_bytes ls ss)"
  show "tuple_slices data (struct_fixed ls) ls = Ok ss"
  proof (cases "struct_fixed ls")
    case None
    then show ?thesis using ok al bound tuple_slices_var_complete by simp
  next
    case (Some k)
    then have "length (struct_body [] (with_bytes ls ss)) \<le> k"
      using struct_fixed_body ok al by blast
    moreover have "k < usize_bound" using ok bound Some by (simp add: length_struct_bytes_fixed)
    moreover have "\<forall>l \<in> set ls. snd l \<noteq> None" using Some struct_fixed_None_iff [of ls] by auto
    ultimately show ?thesis using ok al Some tuple_slices_fixed_complete by simp
  qed
qed

subsection \<open>The bytes of an array\<close>

text \<open>
  \<open>array_body\<close> appends the elements of an array of variable-size elements, each padded to
  the element alignment; \<open>array_ends\<close> lists their end offsets.
\<close>

fun array_body :: "nat \<Rightarrow> bytes \<Rightarrow> bytes list \<Rightarrow> bytes" where
  "array_body al acc [] = acc"
| "array_body al acc (s # ss) = array_body al (pad_to acc al @ s) ss"

fun array_ends :: "nat \<Rightarrow> bytes \<Rightarrow> bytes list \<Rightarrow> nat list" where
  "array_ends al acc [] = []"
| "array_ends al acc (s # ss) = length (pad_to acc al @ s) # array_ends al (pad_to acc al @ s) ss"

definition array_bytes :: "nat \<Rightarrow> bool \<Rightarrow> bytes list \<Rightarrow> bytes" where
  "array_bytes al fixed ss =
     (if fixed then concat ss
      else let body = array_body al [] ss in
        body @ framing (choose_offset_size (length body) (length ss)) (array_ends al [] ss))"

lemma length_array_ends [simp]: "length (array_ends al acc ss) = length ss"
  by (induction ss arbitrary: acc) auto

lemma array_ends_Nil_iff [simp]: "array_ends al acc ss = [] \<longleftrightarrow> ss = []"
  by (cases ss) auto

lemma prefix_array_body: "is_align al \<Longrightarrow> prefix acc (array_body al acc ss)"
proof (induction ss arbitrary: acc)
  case (Cons s ss)
  have "prefix acc (pad_to acc al @ s)"
    using Cons.prems prefix_pad_to [of al acc] by (auto simp: prefix_def)
  then show ?case using Cons prefix_order.trans by fastforce
qed simp

lemma array_body_append:
  "is_align al \<Longrightarrow> al dvd length buf \<Longrightarrow> array_body al (buf @ acc) ss = buf @ array_body al acc ss"
  by (induction ss arbitrary: acc) (auto simp: pad_to_append)

lemma array_ends_le:
  "is_align al \<Longrightarrow> e \<in> set (array_ends al acc ss) \<Longrightarrow> e \<le> length (array_body al acc ss)"
proof (induction ss arbitrary: acc)
  case (Cons s ss)
  then show ?case using prefix_length_le [OF prefix_array_body [of al "pad_to acc al @ s" ss]] by auto
qed simp

lemma last_array_ends: "ss \<noteq> [] \<Longrightarrow> last (array_ends al acc ss) = length (array_body al acc ss)"
proof (induction ss arbitrary: acc)
  case (Cons s ss)
  then show ?case by (cases "ss = []") auto
qed simp

subsection \<open>The array writer\<close>

lemma write_fixed_elems_eq:
  assumes "\<forall>i \<in> set is. pos_indep al (\<lambda>out. w out i) \<and> (\<forall>bs. w [] i = Ok bs \<longrightarrow> al dvd length bs)"
    and "al dvd length out"
  shows "write_fixed_elems out w is = map_ok (\<lambda>ss. out @ concat ss) (try_map (w []) is)"
  using assms
proof (induction "is" arbitrary: out)
  case (Cons i "is")
  have w: "w out i = map_ok (\<lambda>bs. out @ bs) (w [] i)"
    using pos_indepD [of al "\<lambda>out. w out i" out] Cons.prems by simp
  show ?case
  proof (cases "w [] i")
    case (Ok bs)
    then have "al dvd length (out @ bs)" using Cons.prems by simp
    then show ?thesis
      using Cons.IH [of "out @ bs"] Cons.prems(1) Ok
      by (cases "try_map (w []) is") (simp_all add: w)
  qed (simp add: w)
qed simp

lemma write_var_elems_eq:
  assumes "\<forall>i \<in> set is. pos_indep al (\<lambda>out. w out i)" and "is_align al" and "al dvd length buf"
  shows "write_var_elems (buf @ acc) (length buf) al w ends is =
    map_ok (\<lambda>ss. (buf @ array_body al acc ss, ends @ array_ends al acc ss)) (try_map (w []) is)"
  using assms
proof (induction "is" arbitrary: acc ends)
  case (Cons i "is")
  let ?out = "buf @ pad_to acc al"
  have "al dvd length ?out" using Cons.prems by (auto simp: align_up_dvd)
  then have w: "w ?out i = map_ok (\<lambda>bs. ?out @ bs) (w [] i)"
    using pos_indepD [of al "\<lambda>out. w out i" ?out] Cons.prems by simp
  show ?case
  proof (cases "w [] i")
    case (Ok bs)
    then show ?thesis
      using Cons.IH [of "pad_to acc al @ bs"] Cons.prems w
      by (cases "try_map (w []) is") (simp_all add: pad_to_append)
  qed (use Cons.prems w in \<open>simp add: pad_to_append\<close>)
qed simp

lemma write_array_eq:
  assumes al: "is_align al" "al dvd length out" and w: "\<forall>i < n. pos_indep al (\<lambda>out. w out i)"
    and fixed: "elem_fixed \<Longrightarrow> \<forall>i < n. \<forall>bs. w [] i = Ok bs \<longrightarrow> al dvd length bs"
  shows "write_array out al elem_fixed n w =
    map_ok (\<lambda>ss. out @ array_bytes al elem_fixed ss) (try_map (w []) [0..<n])"
proof (cases elem_fixed)
  case True
  then show ?thesis
    using write_fixed_elems_eq [of "[0..<n]" al w out] assms
    by (simp add: write_array_def array_bytes_def)
next
  case False
  have eq: "write_var_elems out (length out) al w [] [0..<n] =
      map_ok (\<lambda>ss. (out @ array_body al [] ss, array_ends al [] ss)) (try_map (w []) [0..<n])"
    using write_var_elems_eq [of "[0..<n]" al w out "[]" "[]"] assms by simp
  show ?thesis
    using False by (cases "try_map (w []) [0..<n]")
      (auto simp: write_array_def eq array_bytes_def Let_def fold_write_offset)
qed


subsection \<open>The array reader accepts exactly the array bytes\<close>

lemma read_elems_slices:
  "read_elems f r = Ok xs \<longleftrightarrow> (\<exists>ss. read_elems Ok r = Ok ss \<and> list_all2 (\<lambda>s x. f s = Ok x) ss xs)"
proof (induction f r arbitrary: xs rule: read_elems.induct)
  case (1 f r)
  show ?case
  proof (cases "next_slice r")
    case None
    then show ?thesis by (auto simp: read_elems.simps [of _ r])
  next
    case (Some p)
    obtain s r' where p: "p = (s, r')" by (cases p)
    show ?thesis
    proof (cases s)
      case (Ok sl)
      then show ?thesis
        using 1 Some p
        by (fastforce simp: read_elems.simps [of _ r] result_simps list_all2_Cons1)
    qed (simp add: read_elems.simps [of _ r] Some p)
  qed
qed

definition array_slices ::
  "bytes \<Rightarrow> nat \<Rightarrow> nat option \<Rightarrow> (gv_error, bytes list) result" where
  "array_slices data al fs = andthen (array_reader_new data al fs) (read_elems Ok)"

lemma read_elems_fixed:
  assumes "ar_elem_size r = Some sz" and "ar_i r \<le> ar_n r" 
  shows "read_elems Ok r = Ok (map (\<lambda>k. slice (ar_data r) (k * sz) (k * sz + sz)) [ar_i r..<ar_n r])"
  using assms
proof (induction "ar_n r - ar_i r" arbitrary: r)
  case 0
  then show ?case by (simp add: read_elems.simps next_slice_def)
next
  case (Suc n)
  let ?r = "r\<lparr>ar_i := Suc (ar_i r)\<rparr>"
  have "read_elems Ok ?r = Ok (map (\<lambda>k. slice (ar_data ?r) (k * sz) (k * sz + sz)) [ar_i ?r..<ar_n ?r])"
    using Suc by (intro Suc.hyps) auto
  then show ?case
    using Suc by (subst read_elems.simps) (simp add: next_slice_def Let_def upt_conv_Cons)
qed

lemma concat_slices:
  "n * sz = length data \<Longrightarrow> concat (map (\<lambda>k. slice data (k * sz) (k * sz + sz)) [0..<n]) = data"
proof -
  assume n: "n * sz = length data"
  have "m \<le> n \<Longrightarrow> concat (map (\<lambda>k. slice data (k * sz) (k * sz + sz)) [0..<m]) = take (m * sz) data" for m
  proof (induction m)
    case (Suc m)
    then have "concat (map (\<lambda>k. slice data (k * sz) (k * sz + sz)) [0..<Suc m]) =
        take (m * sz) data @ slice data (m * sz) (m * sz + sz)" by simp
    then show ?case using take_slice [of "m * sz" "m * sz + sz" data] by (simp add: add.commute)
  qed simp
  from this [of n] n show ?thesis by simp
qed

lemma slices_concat:
  "\<forall>s \<in> set ss. length s = sz \<Longrightarrow> k < length ss \<Longrightarrow>
    slice (concat ss) (k * sz) (k * sz + sz) = ss ! k"
proof (induction ss arbitrary: k)
  case (Cons s ss)
  show ?case
  proof (cases k)
    case 0
    then show ?thesis using Cons.prems by (simp add: slice_def)
  next
    case (Suc j)
    then show ?thesis using Cons.IH [of j] Cons.prems by (simp add: slice_def)
  qed
qed simp

lemma length_concat_const: "\<forall>s \<in> set ss. length s = k \<Longrightarrow> length (concat ss) = length ss * k"
  by (induction ss) auto

lemma array_slices_fixed_iff:
  assumes "0 < k"
  shows "array_slices data al (Some k) = Ok ss \<longleftrightarrow>
    (\<forall>s \<in> set ss. length s = k) \<and> data = concat ss"
proof -
  let ?n = "length data div k"
  have "array_slices data al (Some k) =
      (if k dvd length data then Ok (map (\<lambda>i. slice data (i * k) (i * k + k)) [0..<?n])
       else Err (NotNormal ''array size is not a multiple of the element size''))"
    by (auto simp: array_slices_def array_reader_new_def Let_def read_elems_fixed)
  moreover have "map (\<lambda>i. slice data (i * k) (i * k + k)) [0..<?n] = ss \<longleftrightarrow>
      (\<forall>s \<in> set ss. length s = k) \<and> data = concat ss" if "k dvd length data"
  proof -
    have n: "?n * k = length data" using that by simp
    have len: "length (slice data (i * k) (i * k + k)) = k" if "i < ?n" for i
    proof -
      have "Suc i * k \<le> ?n * k" using that by (intro mult_le_mono1) simp
      then show ?thesis unfolding n by simp
    qed
    show ?thesis
    proof
      assume "map (\<lambda>i. slice data (i * k) (i * k + k)) [0..<?n] = ss"
      then show "(\<forall>s \<in> set ss. length s = k) \<and> data = concat ss"
        using concat_slices [OF n] len by auto
    next
      assume a: "(\<forall>s \<in> set ss. length s = k) \<and> data = concat ss"
      then have "length data = length ss * k" by (simp add: length_concat_const)
      then show "map (\<lambda>i. slice data (i * k) (i * k + k)) [0..<?n] = ss"
        using assms a slices_concat [of ss k] by (intro nth_equalityI) auto
    qed
  qed
  moreover have "k dvd length data" if "(\<forall>s \<in> set ss. length s = k) \<and> data = concat ss"
    using that length_concat_const [of ss k] by auto
  ultimately show ?thesis by auto
qed


text \<open>The end offset that an array reader finds for the \<open>k\<close>-th element.\<close>

definition array_off :: "bytes \<Rightarrow> nat \<Rightarrow> nat \<Rightarrow> nat \<Rightarrow> nat" where
  "array_off data data_end z k =
     read_offset (slice data (data_end + k * z) (data_end + k * z + z)) z"

lemma read_elems_var_sound:
  assumes "read_elems Ok r = Ok ss" and "ar_elem_size r = None" and "is_align (ar_elem_alignment r)"
    and "ar_pos r \<le> ar_data_end r" and "ar_data_end r \<le> length (ar_data r)"
  shows "array_ends (ar_elem_alignment r) (take (ar_pos r) (ar_data r)) ss =
      map (array_off (ar_data r) (ar_data_end r) (ar_z r)) [ar_i r..<ar_n r]
    \<and> (\<exists>p \<le> ar_data_end r. take p (ar_data r) =
        array_body (ar_elem_alignment r) (take (ar_pos r) (ar_data r)) ss)"
  using assms
proof (induction "ar_n r - ar_i r" arbitrary: r ss)
  case 0
  then have "ss = []" by (subst (asm) read_elems.simps) (simp add: next_slice_def)
  then show ?case using 0 by auto
next
  case (Suc n)
  let ?al = "ar_elem_alignment r"
  let ?start = "align_up (ar_pos r) ?al"
  let ?e = "array_off (ar_data r) (ar_data_end r) (ar_z r) (ar_i r)"
  let ?r = "r\<lparr>ar_i := ar_i r + 1, ar_pos := ?e\<rparr>"
  let ?s = "slice (ar_data r) ?start ?e"
  have lt: "ar_i r < ar_n r" using Suc.hyps(2) by linarith
  have ns: "next_slice r =
      (if ?start > ?e \<or> ?e > ar_data_end r
       then Some (Err (NotNormal ''array element offsets are out of order''), r\<lparr>ar_i := ar_n r\<rparr>)
       else case check_padding (slice (ar_data r) (ar_pos r) ?start) of
              Err e \<Rightarrow> Some (Err e, r\<lparr>ar_i := ar_n r\<rparr>)
            | Ok _ \<Rightarrow> Some (Ok ?s, ?r))"
    using lt Suc.prems(2) by (simp add: next_slice_def array_off_def Let_def split: result.split)
  from Suc.prems(1) obtain ss' where
    e: "?start \<le> ?e" "?e \<le> ar_data_end r" and
    pad: "check_padding (slice (ar_data r) (ar_pos r) ?start) = Ok ()" and
    rest: "read_elems Ok ?r = Ok ss'" and ss: "ss = ?s # ss'"
    by (subst (asm) read_elems.simps) (auto simp: ns result_simps split: if_splits result.splits)
  have te: "take ?e (ar_data r) = pad_to (take (ar_pos r) (ar_data r)) ?al @ ?s"
    using e pad Suc.prems by (intro take_pad_slice) auto
  have "array_ends ?al (take ?e (ar_data r)) ss' =
      map (array_off (ar_data r) (ar_data_end r) (ar_z r)) [Suc (ar_i r)..<ar_n r]
    \<and> (\<exists>p \<le> ar_data_end r. take p (ar_data r) = array_body ?al (take ?e (ar_data r)) ss')"
    using Suc.hyps(1) [OF _ rest] Suc.hyps(2) Suc.prems e by simp
  moreover have "length (pad_to (take (ar_pos r) (ar_data r)) ?al @ ?s) = ?e"
    unfolding te [symmetric] using e Suc.prems by simp
  moreover have "[ar_i r..<ar_n r] = ar_i r # [Suc (ar_i r)..<ar_n r]"
    using lt by (simp add: upt_conv_Cons)
  ultimately show ?case by (simp add: ss flip: te)
qed

lemma array_slices_var_sound:
  assumes al: "is_align al" and ok: "array_slices data al None = Ok ss"
  shows "data = array_bytes al False ss"
proof (cases "data = []")
  case True
  then have "ss = []"
    using ok by (simp add: array_slices_def array_reader_new_def)
      (subst (asm) read_elems.simps, simp add: next_slice_def)
  then show ?thesis using True by (simp add: array_bytes_def)
next
  case False
  let ?z = "offset_size_for (length data)"
  let ?m = "read_offset (drop (length data - ?z) data) ?z"
  let ?n = "(length data - ?m) div ?z"
  let ?r = "\<lparr>ar_data = data, ar_elem_alignment = al, ar_elem_size = None,
               ar_z = ?z, ar_data_end = ?m, ar_n = ?n, ar_i = 0, ar_pos = 0\<rparr>"
  have new: "array_reader_new data al None = Ok ?r" and
    le: "?z \<le> length data" "?m \<le> length data - ?z" and
    dv: "?z dvd length data - ?m" and z: "choose_offset_size ?m ?n = ?z"
    using ok False
    by (auto simp: array_slices_def array_reader_new_def Let_def result_simps split: if_splits)
  have elems: "read_elems Ok ?r = Ok ss" using ok new by (simp add: array_slices_def)
  have mle: "?m \<le> length data" using le by linarith
  from read_elems_var_sound [OF elems] al mle obtain p where
    ends: "array_ends al [] ss = map (array_off data ?m ?z) [0..<?n]" and
    p: "p \<le> ?m" "take p data = array_body al [] ss"
    by auto
  have zp: "0 < ?z" using offset_size_for_cases [of "length data"] by auto
  have nz: "?m + ?n * ?z = length data" using dv le by simp
  have "?z \<le> length data - ?m" using le by linarith
  then have n: "0 < ?n" using zp by (simp add: div_greater_zero_iff)
  have len: "length ss = ?n" using arg_cong [OF ends, of length] by simp
  have "last (array_ends al [] ss) = array_off data ?m ?z (?n - 1)"
    using n by (simp add: ends last_map)
  also have "\<dots> = ?m"
  proof -
    have "?n * ?z = (?n - 1) * ?z + ?z" using n by (cases ?n) auto
    then have "?m + (?n - 1) * ?z = length data - ?z" "?m + (?n - 1) * ?z + ?z = length data"
      using nz by linarith+
    then show ?thesis by (simp add: array_off_def slice_def)
  qed
  finally have "last (array_ends al [] ss) = ?m" .
  moreover have "0 < length ss" using n len by linarith
  ultimately have "length (array_body al [] ss) = ?m" using last_array_ends [of ss al "[]"] by auto
  then have body: "array_body al [] ss = take ?m data"
    using p mle by (metis length_take min.absorb2 order_trans)
  have "drop ?m data = framing ?z (map (array_off data ?m ?z) [0..<?n])"
    unfolding array_off_def using nz by (intro framing_of_chunks) auto
  then show ?thesis
    using append_take_drop_id [of ?m data] z mle len
    by (simp add: array_bytes_def Let_def body ends)
qed


lemma read_elems_var_complete:
  assumes "ar_elem_size r = None" and "is_align (ar_elem_alignment r)" and "ar_pos r = length acc"
    and "prefix (array_body (ar_elem_alignment r) acc ss) (ar_data r)"
    and "length (array_body (ar_elem_alignment r) acc ss) \<le> ar_data_end r"
    and "array_ends (ar_elem_alignment r) acc ss =
      map (array_off (ar_data r) (ar_data_end r) (ar_z r)) [ar_i r..<ar_n r]"
  shows "read_elems Ok r = Ok ss"
  using assms
proof (induction ss arbitrary: r acc)
  case Nil
  then have "ar_n r \<le> ar_i r" by auto
  then show ?case by (subst read_elems.simps) (simp add: next_slice_def)
next
  case (Cons s ss)
  let ?al = "ar_elem_alignment r"
  let ?start = "align_up (length acc) ?al"
  let ?acc = "pad_to acc ?al @ s"
  let ?r = "r\<lparr>ar_i := ar_i r + 1, ar_pos := length ?acc\<rparr>"
  have lt: "ar_i r < ar_n r" using Cons.prems(6) by (cases "ar_i r < ar_n r") auto
  then have upt: "[ar_i r..<ar_n r] = ar_i r # [Suc (ar_i r)..<ar_n r]" by (simp add: upt_conv_Cons)
  have off: "array_off (ar_data r) (ar_data_end r) (ar_z r) (ar_i r) = length ?acc"
    using Cons.prems(6) upt by simp
  have pre: "prefix ?acc (array_body ?al ?acc ss)" using Cons.prems(2) by (rule prefix_array_body)
  then obtain t where t: "ar_data r = pad_to acc ?al @ s @ t"
    using Cons.prems(4) by (auto simp: prefix_def)
  have "length ?acc \<le> ar_data_end r"
    using prefix_length_le [OF pre] Cons.prems(5) by simp
  moreover have "?start + length s = length ?acc" using Cons.prems(2) by simp
  moreover have "slice (ar_data r) (length acc) ?start = replicate (?start - length acc) 0"
    using Cons.prems(2) align_up_ge [of ?al "length acc"] by (simp add: t slice_def pad_to_eq)
  moreover have "slice (ar_data r) ?start (?start + length s) = s"
    using Cons.prems(2) by (simp add: t slice_def)
  ultimately have "next_slice r = Some (Ok s, ?r)"
    using lt off Cons.prems(1,3) by (simp add: next_slice_def Let_def array_off_def)
  moreover have "read_elems Ok ?r = Ok ss"
    using Cons.prems upt by (intro Cons.IH [of _ ?acc]) auto
  ultimately show ?case by (subst read_elems.simps) simp
qed

lemma array_reader_new_var:
  assumes "offset_size_for (length data) = z" and "read_offset (drop (length data - z) data) z = m"
    and "length data = m + n * z" and "0 < n" and "0 < z" and "choose_offset_size m n = z"
  shows "array_reader_new data al None = Ok
    \<lparr>ar_data = data, ar_elem_alignment = al, ar_elem_size = None,
     ar_z = z, ar_data_end = m, ar_n = n, ar_i = 0, ar_pos = 0\<rparr>"
proof -
  have "z \<le> n * z" using assms(4) by simp
  then have "z \<le> length data" "m \<le> length data - z" using assms(3) by linarith+
  moreover have "length data - m = n * z" using assms(3) by linarith
  moreover have "data \<noteq> []" using assms(3-5) by auto
  ultimately show ?thesis using assms(1,2,5,6) by (simp add: array_reader_new_def Let_def)
qed

lemma array_slices_var_complete:
  assumes al: "is_align al" and bound: "length (array_bytes al False ss) < usize_bound"
  shows "array_slices (array_bytes al False ss) al None = Ok ss"
proof (cases "ss = []")
  case True
  then show ?thesis
    by (simp add: array_bytes_def array_slices_def array_reader_new_def)
      (subst read_elems.simps, simp add: next_slice_def)
next
  case False
  let ?body = "array_body al [] ss" and ?ends = "array_ends al [] ss"
  let ?z = "choose_offset_size (length ?body) (length ss)"
  let ?data = "?body @ framing ?z ?ends"
  let ?r = "\<lparr>ar_data = ?data, ar_elem_alignment = al, ar_elem_size = None,
               ar_z = ?z, ar_data_end = length ?body, ar_n = length ss, ar_i = 0, ar_pos = 0\<rparr>"
  have data: "array_bytes al False ss = ?data" by (simp add: array_bytes_def Let_def)
  have len: "length ?data = length ?body + length ss * ?z" by simp
  have small: "length ?body + length ss * ?z < usize_bound" using bound unfolding data len .
  have z: "offset_size_for (length ?data) = ?z" unfolding len by (rule offset_size_agreement)
  have zp: "0 < ?z" using choose_offset_size_cases [of "length ?body" "length ss"] by auto
  have off: "array_off ?data (length ?body) ?z k = ?ends ! k" if "k < length ss" for k
  proof -
    have "?ends ! k \<le> length ?body" using that array_ends_le [OF al] nth_mem by fastforce
    then have "?ends ! k < 256 ^ ?z" using choose_offset_size_fits [OF small] by blast
    then show ?thesis using that slice_framing [of k ?ends ?body ?z]
      by (simp add: array_off_def read_write_offset)
  qed
  have "length ss * ?z = (length ss - 1) * ?z + ?z" using False by (cases ss) auto
  then have "length ?data - ?z = length ?body + (length ss - 1) * ?z" unfolding len by linarith
  then have m: "read_offset (drop (length ?data - ?z) ?data) ?z = length ?body"
    using off [of "length ss - 1"] False last_array_ends [of ss al "[]"]
    by (simp add: array_off_def slice_def last_conv_nth)
  have "array_reader_new ?data al None = Ok ?r"
    using False zp by (intro array_reader_new_var [OF z m len]) auto
  moreover have "?ends = map (array_off ?data (length ?body) ?z) [0..<length ss]"
    by (rule nth_equalityI) (simp_all add: off)
  then have "read_elems Ok ?r = Ok ss"
    using al by (intro read_elems_var_complete [of _ "[]"]) simp_all
  ultimately show ?thesis by (simp add: data array_slices_def)
qed

lemma array_slices_iff:
  assumes "is_align al" and "\<And>k. fs = Some k \<Longrightarrow> 0 < k" and "length data < usize_bound"
  shows "array_slices data al fs = Ok ss \<longleftrightarrow>
    (\<forall>s \<in> set ss. \<forall>k. fs = Some k \<longrightarrow> length s = k) \<and> data = array_bytes al (fs \<noteq> None) ss"
proof (cases fs)
  case None
  then show ?thesis
    using assms array_slices_var_sound [of al data ss] array_slices_var_complete [of al ss] by auto
next
  case (Some k)
  then show ?thesis
    using array_slices_fixed_iff [of k data al ss] assms(2) by (simp add: array_bytes_def)
qed

subsection \<open>Properties\<close>

text \<open>C28: the writer chooses the width of the framing offsets from the body length and the number
  of offsets, and the reader derives it from the total length alone. Both agree.\<close>

theorem offset_width_agrees:
  "offset_size_for (m + n * choose_offset_size m n) = choose_offset_size m n"
  by (rule offset_size_agreement)

text \<open>C26: reading the members of a structure with a \<open>TupleReader\<close> and closing it succeeds with
  given member slices exactly when the bytes are what the \<open>TupleWriter\<close> puts out for these
  slices: aligned members, zero padding, and reversed offsets of the least width.\<close>

theorem tuple_reader_accepts_writer_output:
  assumes "\<forall>l \<in> set ls. is_align (fst l)" and "length data < usize_bound"
  shows "tuple_slices data (struct_fixed ls) ls = Ok ss \<longleftrightarrow>
    sizes_ok ls ss \<and>
    tuple_encode (struct_fixed ls) (map2 (\<lambda>(al, fs) s. (al, fs, \<lambda>out. Ok (out @ s))) ls ss) [] = Ok data"
proof (cases "length ls = length ss")
  case True
  let ?ms = "map2 (\<lambda>(al, fs) s. (al, fs, \<lambda>out. Ok (out @ s))) ls ss"
  have "field_layouts ?ms = ls"
    using True by (induction ls ss rule: list_induct2) auto
  moreover have "run_fields ?ms = Ok ss"
    using True by (induction ls ss rule: list_induct2) auto
  moreover have "\<forall>(al, fs, wr) \<in> set ?ms. is_align al \<and> al dvd length [] \<and> pos_indep al wr"
    using assms(1) by (fastforce simp: pos_indep_def dest: set_zip_leftD)
  ultimately have "tuple_encode (struct_fixed ls) ?ms [] = Ok (struct_bytes (struct_fixed ls) (with_bytes ls ss))"
    by (subst tuple_encode_eq) auto
  then show ?thesis using tuple_slices_iff [OF assms] by auto
next
  case False
  then show ?thesis using tuple_slices_iff [OF assms] sizes_ok_length by blast
qed

theorem tuple_reader_accepts_writer_output_witness:
  "tuple_slices [97, 0, 0, 0, 7, 0, 0, 0, 1] None [(1, None), (4, Some 4)] = Ok [[97], [7, 0, 0, 0]]"
proof -
  let ?ls = "[(1, None), (4, Some 4)] :: (nat \<times> nat option) list"
  have "struct_fixed ?ls = None" by code_simp
  moreover have "sizes_ok ?ls [[97], [7, 0, 0, 0]]" by (simp add: sizes_ok_def)
  moreover have "tuple_encode None (map2 (\<lambda>(al, fs) s. (al, fs, \<lambda>out. Ok (out @ s))) ?ls [[97], [7, 0, 0, 0]]) [] =
      Ok [97, 0, 0, 0, 7, 0, 0, 0, 1]"
    by code_simp
  ultimately show ?thesis
    using tuple_reader_accepts_writer_output [of ?ls "[97, 0, 0, 0, 7, 0, 0, 0, 1]" "[[97], [7, 0, 0, 0]]"]
    by (simp add: is_align_def)
qed

text \<open>C27: draining an \<open>ArrayReader\<close> succeeds with given element slices exactly when the bytes
  are what \<open>write_array\<close> puts out for these slices; for fixed-size elements each slice has the
  element size.\<close>

theorem array_reader_accepts_writer_output:
  assumes "is_align al" and "\<And>k. fs = Some k \<Longrightarrow> 0 < k \<and> al dvd k" and "length data < usize_bound"
  shows "array_slices data al fs = Ok ss \<longleftrightarrow>
    (\<forall>s \<in> set ss. \<forall>k. fs = Some k \<longrightarrow> length s = k) \<and>
    write_array [] al (fs \<noteq> None) (length ss) (\<lambda>out i. Ok (out @ ss ! i)) = Ok data"
proof (cases "\<forall>s \<in> set ss. \<forall>k. fs = Some k \<longrightarrow> length s = k")
  case True
  have "try_map (\<lambda>i. Ok (ss ! i)) [0..<length ss] = (Ok ss :: (gv_error, bytes list) result)"
    by (simp add: result_simps list_all2_conv_all_nth)
  moreover have "write_array [] al (fs \<noteq> None) (length ss) (\<lambda>out i. Ok (out @ ss ! i)) =
    map_ok (\<lambda>ss. [] @ array_bytes al (fs \<noteq> None) ss) (try_map (\<lambda>i. Ok ([] @ ss ! i)) [0..<length ss])"
    by (rule write_array_eq) (use assms True in \<open>auto simp: pos_indep_def\<close>)
  ultimately show ?thesis
    using True array_slices_iff [OF assms(1) _ assms(3), of fs ss] assms(2) by auto
qed (use array_slices_iff [OF assms(1) _ assms(3), of fs ss] assms(2) in auto)

theorem array_reader_accepts_writer_output_witness:
  "array_slices [97, 98, 99, 1, 3] 1 None = Ok [[97], [98, 99]]"
proof -
  have "write_array [] 1 False (length [[97 :: u8], [98, 99]]) (\<lambda>out i. Ok (out @ [[97], [98, 99]] ! i)) = Ok [97, 98, 99, 1, 3]"
    by code_simp
  then show ?thesis
    using array_reader_accepts_writer_output [of 1 None "[97, 98, 99, 1, 3]" "[[97], [98, 99]]"]
    by (simp add: is_align_def)
qed

end
