(* ===== verification/Gv_Leaf.thy ===== *)
theory Gv_Leaf
  imports Gv_Framing
begin

section \<open>The leaf encoders and decoders of GVariant\<close>

text \<open>
  The scalar, string and byte-array impls of \<open>GvEncode\<close> and \<open>GvDecode\<close> of
  \<^verbatim>\<open>crates/ostrya-gvariant/src/codec.rs\<close>. The dynamic codec and the typed codec both
  call them. An encoder takes the value and the output buffer and returns the grown
  buffer. A \<open>str\<close> is its UTF-8 bytes; that they are UTF-8 is what the Rust type
  guarantees, and the theorems state it as \<open>utf8_valid\<close>.

  The lemmas give, for each leaf, the appended bytes and the exact set of byte strings
  that decode, as one equivalence between decode and encode.
\<close>

definition exact :: "nat \<Rightarrow> bytes \<Rightarrow> (gv_error, bytes) result" where
  "exact n data = (if length data = n then Ok data else Err (NotNormal ''scalar has the wrong size''))"

definition bool_encode :: "bool \<Rightarrow> bytes \<Rightarrow> (gv_error, bytes) result" where
  "bool_encode b out = Ok (out @ [of_bool b])"

definition bool_decode :: "bytes \<Rightarrow> (gv_error, bool) result" where
  "bool_decode data =
     andthen (exact 1 data) (\<lambda>d.
       if d ! 0 = 0 then Ok False
       else if d ! 0 = 1 then Ok True
       else Err (NotNormal ''boolean is not 0 or 1''))"

definition u8_encode :: "u8 \<Rightarrow> bytes \<Rightarrow> (gv_error, bytes) result" where
  "u8_encode b out = Ok (out @ [b])"

definition u8_decode :: "bytes \<Rightarrow> (gv_error, u8) result" where
  "u8_decode data = andthen (exact 1 data) (\<lambda>d. Ok (d ! 0))"

definition u32_encode :: "u32 \<Rightarrow> bytes \<Rightarrow> (gv_error, bytes) result" where
  "u32_encode x out = Ok (out @ to_le_bytes x)"

definition u32_decode :: "bytes \<Rightarrow> (gv_error, u32) result" where
  "u32_decode data = andthen (exact 4 data) (\<lambda>d. Ok (from_le_bytes d))"

definition u64_encode :: "u64 \<Rightarrow> bytes \<Rightarrow> (gv_error, bytes) result" where
  "u64_encode x out = Ok (out @ to_le_bytes x)"

definition u64_decode :: "bytes \<Rightarrow> (gv_error, u64) result" where
  "u64_decode data = andthen (exact 8 data) (\<lambda>d. Ok (from_le_bytes d))"

definition str_encode :: "bytes \<Rightarrow> bytes \<Rightarrow> (gv_error, bytes) result" where
  "str_encode s out =
     (if 0 \<in> set s then Err (InvalidValue ''string contains an interior NUL byte'')
      else Ok (out @ s @ [0]))"

definition str_decode :: "bytes \<Rightarrow> (gv_error, bytes) result" where
  "str_decode data =
     (case split_last data of
        Some (z, content) \<Rightarrow>
          if z \<noteq> 0 then Err (NotNormal ''string is not NUL-terminated'')
          else if 0 \<in> set content then Err (NotNormal ''string contains an interior NUL byte'')
          else if utf8_valid content then Ok content
          else Err (NotNormal ''string is not valid UTF-8'')
      | None \<Rightarrow> Err (NotNormal ''string is not NUL-terminated''))"

definition bytes_encode :: "bytes \<Rightarrow> bytes \<Rightarrow> (gv_error, bytes) result" where
  "bytes_encode b out = Ok (out @ b)"

definition bytes_decode :: "bytes \<Rightarrow> (gv_error, bytes) result" where
  "bytes_decode data = Ok data"

named_theorems leaf_encode
named_theorems leaf_decode

lemma exact_Ok [result_simps]: "exact n data = Ok d \<longleftrightarrow> d = data \<and> length data = n"
  by (auto simp: exact_def)

lemma from_le_bytes_eq_iff:
  assumes "8 dvd LENGTH('a::len)"
  shows "length data = LENGTH('a) div 8 \<and> from_le_bytes data = (x :: 'a word) \<longleftrightarrow> data = to_le_bytes x"
  using to_from_le_bytes [of data, where 'a = 'a] from_to_le_bytes [of x] assms by auto

lemma bool_decode_Ok [leaf_decode]: "bool_decode data = Ok b \<longleftrightarrow> data = [of_bool b]"
  by (cases b) (auto simp: bool_decode_def result_simps length_Suc_conv split: if_splits)

lemma u8_decode_Ok [leaf_decode]: "u8_decode data = Ok b \<longleftrightarrow> data = [b]"
  by (auto simp: u8_decode_def result_simps length_Suc_conv)

lemma u32_decode_Ok [leaf_decode]: "u32_decode data = Ok x \<longleftrightarrow> data = to_le_bytes x"
  by (auto simp: u32_decode_def result_simps to_from_le_bytes from_to_le_bytes)

lemma u64_decode_Ok [leaf_decode]: "u64_decode data = Ok x \<longleftrightarrow> data = to_le_bytes x"
  by (auto simp: u64_decode_def result_simps to_from_le_bytes from_to_le_bytes)

lemma str_decode_Ok [leaf_decode]:
  "str_decode data = Ok s \<longleftrightarrow> data = s @ [0] \<and> 0 \<notin> set s \<and> utf8_valid s"
  by (auto simp: str_decode_def split_last_Some split_last_None split: option.splits if_splits)

lemma bytes_decode_Ok [leaf_decode]: "bytes_decode data = Ok b \<longleftrightarrow> data = b"
  by (auto simp: bytes_decode_def)

end
