(* ===== verification/Gv_Value.thy ===== *)
theory Gv_Value
  imports Gv_Leaf
begin

section \<open>Dynamic GVariant values: serializer, parser, validator\<close>

text \<open>
  The model of \<^verbatim>\<open>value.rs\<close>, \<^verbatim>\<open>ser.rs\<close>, \<^verbatim>\<open>de.rs\<close> and \<^verbatim>\<open>dict.rs\<close> of
  \<^verbatim>\<open>crates/ostrya-gvariant\<close>. A signed integer and a double are their bit patterns.
  \<open>serialize\<close>, \<open>parse\<close> and \<open>check\<close> recurse through their helpers; a helper takes the
  recursive call at the next depth as an argument. Each recursive call increments the
  depth, which the functions bound by 128, so the recursion ends.

  The main lemma \<open>parse_iff\<close> states that \<open>parse\<close> accepts a byte string exactly if it is
  what \<open>serialize\<close> writes for the value that \<open>parse\<close> returns.
\<close>

datatype gvalue =
    VBool bool
  | VByte u8
  | VI16 u16
  | VU16 u16
  | VI32 u32
  | VU32 u32
  | VI64 u64
  | VU64 u64
  | VDouble u64
  | VStr bytes
  | VBytes bytes
  | VMaybe "gvalue option"
  | VArray "gvalue list"
  | VTuple "gvalue list"
  | VVariant "gty \<times> gvalue"

definition variant :: "gty \<Rightarrow> gvalue \<Rightarrow> gvalue" where
  "variant ty v = VVariant (ty, v)"

fun kind :: "gvalue \<Rightarrow> string" where
  "kind (VBool _) = ''bool''"
| "kind (VByte _) = ''byte''"
| "kind (VI16 _) = ''i16''"
| "kind (VU16 _) = ''u16''"
| "kind (VI32 _) = ''i32''"
| "kind (VU32 _) = ''u32''"
| "kind (VI64 _) = ''i64''"
| "kind (VU64 _) = ''u64''"
| "kind (VDouble _) = ''double''"
| "kind (VStr _) = ''string''"
| "kind (VBytes _) = ''byte array''"
| "kind (VMaybe _) = ''maybe''"
| "kind (VArray _) = ''array''"
| "kind (VTuple _) = ''tuple''"
| "kind (VVariant _) = ''variant''"

fun as_bool :: "gvalue \<Rightarrow> bool option" where
  "as_bool (VBool b) = Some b"
| "as_bool _ = None"

fun as_byte :: "gvalue \<Rightarrow> u8 option" where
  "as_byte (VByte b) = Some b"
| "as_byte _ = None"

fun as_u32 :: "gvalue \<Rightarrow> u32 option" where
  "as_u32 (VU32 x) = Some x"
| "as_u32 _ = None"

fun as_u64 :: "gvalue \<Rightarrow> u64 option" where
  "as_u64 (VU64 x) = Some x"
| "as_u64 _ = None"

fun as_str :: "gvalue \<Rightarrow> bytes option" where
  "as_str (VStr s) = Some s"
| "as_str _ = None"

fun value_as_bytes :: "gvalue \<Rightarrow> bytes option" where
  "value_as_bytes (VBytes b) = Some b"
| "value_as_bytes _ = None"

fun as_array :: "gvalue \<Rightarrow> gvalue list option" where
  "as_array (VArray items) = Some items"
| "as_array _ = None"

text \<open>\<open>collect\<close> into an \<open>Option<Vec>\<close>: one missing string gives \<open>None\<close> for the array.\<close>

definition as_strv :: "gvalue \<Rightarrow> bytes list option" where
  "as_strv v = Option.bind (as_array v) (\<lambda>items. those (map as_str items))"

fun as_tuple :: "gvalue \<Rightarrow> gvalue list option" where
  "as_tuple (VTuple items) = Some items"
| "as_tuple _ = None"

fun as_variant :: "gvalue \<Rightarrow> (gty \<times> gvalue) option" where
  "as_variant (VVariant p) = Some p"
| "as_variant _ = None"

fun byteswapped :: "gvalue \<Rightarrow> gvalue" where
  "byteswapped (VI16 x) = VI16 (swap_bytes x)"
| "byteswapped (VU16 x) = VU16 (swap_bytes x)"
| "byteswapped (VI32 x) = VI32 (swap_bytes x)"
| "byteswapped (VU32 x) = VU32 (swap_bytes x)"
| "byteswapped (VI64 x) = VI64 (swap_bytes x)"
| "byteswapped (VU64 x) = VU64 (swap_bytes x)"
| "byteswapped (VDouble bits) = VDouble (swap_bytes bits)"
| "byteswapped (VMaybe inner) = VMaybe (map_option byteswapped inner)"
| "byteswapped (VArray items) = VArray (map byteswapped items)"
| "byteswapped (VTuple items) = VTuple (map byteswapped items)"
| "byteswapped (VVariant (ty, child)) = variant ty (byteswapped child)"
| "byteswapped (VBool b) = VBool b"
| "byteswapped (VByte b) = VByte b"
| "byteswapped (VStr s) = VStr s"
| "byteswapped (VBytes b) = VBytes b"

fun dict_find :: "gvalue list \<Rightarrow> bytes \<Rightarrow> gvalue option" where
  "dict_find [] key = None"
| "dict_find (entry # entries) key =
     (case as_tuple entry of
        None \<Rightarrow> dict_find entries key
      | Some members \<Rightarrow>
          (case members of
             [k, v] \<Rightarrow> if as_str k = Some key then Some v else dict_find entries key
           | _ \<Rightarrow> dict_find entries key))"

definition dict_get :: "gvalue \<Rightarrow> bytes \<Rightarrow> gvalue option" where
  "dict_get v key = Option.bind (as_array v) (\<lambda>entries. dict_find entries key)"

subsection \<open>The serializer\<close>

type_synonym ser_rec = "bytes \<Rightarrow> gty \<Rightarrow> gvalue \<Rightarrow> (gv_error, bytes) result"

definition serialize_maybe ::
  "ser_rec \<Rightarrow> bytes \<Rightarrow> gty \<Rightarrow> gvalue option \<Rightarrow> (gv_error, bytes) result" where
  "serialize_maybe ser buf elem inner =
     (case inner of
        None \<Rightarrow> Ok buf
      | Some child \<Rightarrow>
          andthen (ser buf elem child) (\<lambda>buf. Ok (if fixed_size elem = None then buf @ [0] else buf)))"

definition serialize_array ::
  "ser_rec \<Rightarrow> bytes \<Rightarrow> gty \<Rightarrow> gvalue list \<Rightarrow> (gv_error, bytes) result" where
  "serialize_array ser buf elem items =
     write_array buf (gty_alignment elem) (fixed_size elem \<noteq> None) (length items)
       (\<lambda>buf i. ser buf elem (items ! i))"

definition serialize_struct ::
  "ser_rec \<Rightarrow> bytes \<Rightarrow> gty \<Rightarrow> gty list \<Rightarrow> gvalue list \<Rightarrow> (gv_error, bytes) result" where
  "serialize_struct ser buf whole members items =
     (if length items \<noteq> length members
      then Err (TypeMismatch (signature whole) ''tuple of a different arity'')
      else if members = [] then Ok (buf @ [0])
      else
        andthen
          (write_fields (tuple_writer_new buf)
            (map2 (\<lambda>m item. (gty_alignment m, fixed_size m, \<lambda>buf. ser buf m item)) members items))
          (\<lambda>w. Ok (tuple_writer_finish w (fixed_size whole))))"

definition serialize_variant ::
  "ser_rec \<Rightarrow> bytes \<Rightarrow> gty \<Rightarrow> gvalue \<Rightarrow> (gv_error, bytes) result" where
  "serialize_variant ser buf child_ty child =
     andthen (ser buf child_ty child) (\<lambda>buf. Ok (buf @ [0] @ signature child_ty))"

definition type_mismatch :: "gty \<Rightarrow> gvalue \<Rightarrow> (gv_error, bytes) result" where
  "type_mismatch ty value = Err (TypeMismatch (signature ty) (kind value))"

function serialize :: "bytes \<Rightarrow> gty \<Rightarrow> gvalue \<Rightarrow> nat \<Rightarrow> (gv_error, bytes) result" where
  "serialize buf ty value depth =
     (if depth > MAX_VALUE_DEPTH then Err DepthExceeded
      else
        let ser = (\<lambda>buf ty value. serialize buf ty value (depth + 1)) in
        case (ty, value) of
          (TBool, VBool b) \<Rightarrow> bool_encode b buf
        | (TByte, VByte b) \<Rightarrow> u8_encode b buf
        | (TI16, VI16 x) \<Rightarrow> Ok (buf @ to_le_bytes x)
        | (TU16, VU16 x) \<Rightarrow> Ok (buf @ to_le_bytes x)
        | (TI32, VI32 x) \<Rightarrow> Ok (buf @ to_le_bytes x)
        | (THandle, VI32 x) \<Rightarrow> Ok (buf @ to_le_bytes x)
        | (TU32, VU32 x) \<Rightarrow> u32_encode x buf
        | (TI64, VI64 x) \<Rightarrow> Ok (buf @ to_le_bytes x)
        | (TU64, VU64 x) \<Rightarrow> u64_encode x buf
        | (TDouble, VDouble bits) \<Rightarrow> Ok (buf @ to_le_bytes bits)
        | (TStr, VStr s) \<Rightarrow> str_encode s buf
        | (TObjectPath, VStr s) \<Rightarrow> str_encode s buf
        | (TSignature, VStr s) \<Rightarrow> str_encode s buf
        | (TMaybe elem, VMaybe inner) \<Rightarrow> serialize_maybe ser buf elem inner
        | (TArray elem, VBytes b) \<Rightarrow>
            if elem = TByte then bytes_encode b buf else type_mismatch ty value
        | (TArray elem, VArray items) \<Rightarrow>
            if elem \<noteq> TByte then serialize_array ser buf elem items else type_mismatch ty value
        | (TTuple members, VTuple items) \<Rightarrow> serialize_struct ser buf ty members items
        | (TDictEntry key val, VTuple items) \<Rightarrow> serialize_struct ser buf ty [key, val] items
        | (TVariant, VVariant (child_ty, child)) \<Rightarrow> serialize_variant ser buf child_ty child
        | _ \<Rightarrow> type_mismatch ty value)"
  by pat_completeness auto
termination
  by (relation "measure (\<lambda>(buf, ty, value, depth). Suc MAX_VALUE_DEPTH - depth)") auto

declare serialize.simps [simp del]

definition to_bytes :: "gty \<Rightarrow> gvalue \<Rightarrow> (gv_error, bytes) result" where
  "to_bytes ty value = serialize [] ty value 0"

subsection \<open>The parser\<close>

text \<open>\<open>split_variant\<close>: the child bytes, the signature bytes and the child type.\<close>

definition split_variant :: "bytes \<Rightarrow> (gv_error, bytes \<times> bytes \<times> gty) result" where
  "split_variant data =
     (case rposition (\<lambda>b. b = 0) data of
        None \<Rightarrow> Err (NotNormal ''variant lacks a type separator'')
      | Some sep \<Rightarrow>
          let sig = drop (sep + 1) data in
          if \<not> utf8_valid sig then Err (NotNormal ''variant type signature is not UTF-8'')
          else
            andthen (map_err (\<lambda>_. NotNormal ''variant type signature is invalid'') (gty_parse sig))
              (\<lambda>ty. Ok (take sep data, sig, ty)))"

type_synonym 'a de_rec = "gty \<Rightarrow> bytes \<Rightarrow> (gv_error, 'a) result"

text \<open>The child bytes of a \<open>Just\<close>, shared by \<open>parse_maybe\<close> and the maybe arm of \<open>check\<close>.\<close>

definition maybe_child :: "gty \<Rightarrow> bytes \<Rightarrow> (gv_error, bytes) result" where
  "maybe_child elem data =
     (if fixed_size elem \<noteq> None then Ok data
      else case split_last data of
        Some (z, rest) \<Rightarrow>
          if z = 0 then Ok rest else Err (NotNormal ''maybe lacks its terminating zero byte'')
      | None \<Rightarrow> Err (NotNormal ''maybe lacks its terminating zero byte''))"

definition parse_maybe :: "gvalue de_rec \<Rightarrow> gty \<Rightarrow> bytes \<Rightarrow> (gv_error, gvalue) result" where
  "parse_maybe prs elem data =
     (if data = [] then Ok (VMaybe None)
      else andthen (maybe_child elem data) (\<lambda>child. map_ok (\<lambda>v. VMaybe (Some v)) (prs elem child)))"

definition parse_array :: "gvalue de_rec \<Rightarrow> gty \<Rightarrow> bytes \<Rightarrow> (gv_error, gvalue) result" where
  "parse_array prs elem data =
     andthen (array_reader_new data (gty_alignment elem) (fixed_size elem)) (\<lambda>reader.
       map_ok VArray (read_elems (prs elem) reader))"

abbreviation gty_lay :: "gty \<Rightarrow> nat \<times> nat option" where
  "gty_lay ty \<equiv> (gty_alignment ty, fixed_size ty)"

definition parse_struct ::
  "gvalue de_rec \<Rightarrow> gty \<Rightarrow> gty list \<Rightarrow> bytes \<Rightarrow> (gv_error, gvalue) result" where
  "parse_struct prs whole members data =
     (if members = [] then
        if data \<noteq> [0] then Err (NotNormal ''empty tuple is not a single zero byte'')
        else Ok (VTuple [])
      else
        andthen (tuple_reader_new data (n_offsets_of (map gty_lay members)) (fixed_size whole)) (\<lambda>reader.
          andthen (read_fields gty_lay prs reader members) (\<lambda>(items, reader).
            andthen (tuple_reader_finish reader) (\<lambda>_. Ok (VTuple items)))))"

definition parse_variant :: "gvalue de_rec \<Rightarrow> bytes \<Rightarrow> (gv_error, gvalue) result" where
  "parse_variant prs data =
     andthen (split_variant data) (\<lambda>(child, _, child_ty).
       andthen (prs child_ty child) (\<lambda>value. Ok (variant child_ty value)))"

function parse :: "gty \<Rightarrow> bytes \<Rightarrow> nat \<Rightarrow> (gv_error, gvalue) result" where
  "parse ty data depth =
     (if depth > MAX_VALUE_DEPTH then Err DepthExceeded
      else
        let prs = (\<lambda>ty data. parse ty data (depth + 1)) in
        case ty of
          TBool \<Rightarrow> map_ok VBool (bool_decode data)
        | TByte \<Rightarrow> map_ok VByte (u8_decode data)
        | TI16 \<Rightarrow> map_ok (\<lambda>d. VI16 (from_le_bytes d)) (exact 2 data)
        | TU16 \<Rightarrow> map_ok (\<lambda>d. VU16 (from_le_bytes d)) (exact 2 data)
        | TI32 \<Rightarrow> map_ok (\<lambda>d. VI32 (from_le_bytes d)) (exact 4 data)
        | THandle \<Rightarrow> map_ok (\<lambda>d. VI32 (from_le_bytes d)) (exact 4 data)
        | TU32 \<Rightarrow> map_ok VU32 (u32_decode data)
        | TI64 \<Rightarrow> map_ok (\<lambda>d. VI64 (from_le_bytes d)) (exact 8 data)
        | TU64 \<Rightarrow> map_ok VU64 (u64_decode data)
        | TDouble \<Rightarrow> map_ok (\<lambda>d. VDouble (from_le_bytes d)) (exact 8 data)
        | TStr \<Rightarrow> map_ok VStr (str_decode data)
        | TObjectPath \<Rightarrow> map_ok VStr (str_decode data)
        | TSignature \<Rightarrow> map_ok VStr (str_decode data)
        | TMaybe elem \<Rightarrow> parse_maybe prs elem data
        | TArray elem \<Rightarrow> if elem = TByte then Ok (VBytes data) else parse_array prs elem data
        | TTuple members \<Rightarrow> parse_struct prs ty members data
        | TDictEntry key value \<Rightarrow> parse_struct prs ty [key, value] data
        | TVariant \<Rightarrow> parse_variant prs data)"
  by pat_completeness auto
termination
  by (relation "measure (\<lambda>(ty, data, depth). Suc MAX_VALUE_DEPTH - depth)") auto

declare parse.simps [simp del]

definition from_bytes :: "gty \<Rightarrow> bytes \<Rightarrow> (gv_error, gvalue) result" where
  "from_bytes ty data = parse ty data 0"

text \<open>
  The loop of \<open>tuple_field_from_bytes\<close> over the members from index \<open>i\<close> on; \<open>field\<close> is the
  variable of the source. The index names a member, so \<open>field\<close> is set at the end.
\<close>

fun tuple_field_loop ::
  "nat \<Rightarrow> tuple_reader \<Rightarrow> nat \<Rightarrow> gvalue option \<Rightarrow> gty list \<Rightarrow>
    (gv_error, gvalue option \<times> tuple_reader) result" where
  "tuple_field_loop index reader i field [] = Ok (field, reader)"
| "tuple_field_loop index reader i field (member_ty # members) =
     andthen (tuple_field reader (gty_alignment member_ty) (fixed_size member_ty) (members = []))
       (\<lambda>(slice, reader).
         andthen (if i = index then map_ok Some (parse member_ty slice 1) else Ok field) (\<lambda>field.
           tuple_field_loop index reader (i + 1) field members))"

definition tuple_field_from_bytes :: "gty \<Rightarrow> bytes \<Rightarrow> nat \<Rightarrow> (gv_error, gvalue) result" where
  "tuple_field_from_bytes ty data index =
     (case ty of
        TTuple members \<Rightarrow>
          if index \<ge> length members
          then Err (NotNormal ''the tuple holds no member of that index'')
          else
            andthen (tuple_reader_new data (n_offsets_of (map gty_lay members)) (fixed_size ty)) (\<lambda>reader.
              andthen (tuple_field_loop index reader 0 None members) (\<lambda>(field, reader).
                andthen (tuple_reader_finish reader) (\<lambda>_. Ok (the field))))
      | _ \<Rightarrow> Err (NotNormal ''the type is not a tuple''))"

subsection \<open>The validator\<close>

definition check_struct :: "unit de_rec \<Rightarrow> gty \<Rightarrow> gty list \<Rightarrow> bytes \<Rightarrow> (gv_error, unit) result" where
  "check_struct chk whole members data =
     (if members = [] then
        if data \<noteq> [0] then Err (NotNormal ''empty tuple is not a single zero byte'') else Ok ()
      else
        andthen (tuple_reader_new data (n_offsets_of (map gty_lay members)) (fixed_size whole)) (\<lambda>reader.
          andthen (read_fields gty_lay chk reader members) (\<lambda>(_, reader). tuple_reader_finish reader)))"

function check :: "gty \<Rightarrow> bytes \<Rightarrow> nat \<Rightarrow> (gv_error, unit) result" where
  "check ty data depth =
     (if depth > MAX_VALUE_DEPTH then Err DepthExceeded
      else
        let chk = (\<lambda>ty data. check ty data (depth + 1)) in
        case ty of
          TBool \<Rightarrow> map_ok (\<lambda>_. ()) (bool_decode data)
        | TByte \<Rightarrow> map_ok (\<lambda>_. ()) (u8_decode data)
        | TI16 \<Rightarrow> map_ok (\<lambda>_. ()) (exact 2 data)
        | TU16 \<Rightarrow> map_ok (\<lambda>_. ()) (exact 2 data)
        | TI32 \<Rightarrow> map_ok (\<lambda>_. ()) (exact 4 data)
        | THandle \<Rightarrow> map_ok (\<lambda>_. ()) (exact 4 data)
        | TU32 \<Rightarrow> map_ok (\<lambda>_. ()) (exact 4 data)
        | TI64 \<Rightarrow> map_ok (\<lambda>_. ()) (exact 8 data)
        | TU64 \<Rightarrow> map_ok (\<lambda>_. ()) (exact 8 data)
        | TDouble \<Rightarrow> map_ok (\<lambda>_. ()) (exact 8 data)
        | TStr \<Rightarrow> map_ok (\<lambda>_. ()) (str_decode data)
        | TObjectPath \<Rightarrow> map_ok (\<lambda>_. ()) (str_decode data)
        | TSignature \<Rightarrow> map_ok (\<lambda>_. ()) (str_decode data)
        | TMaybe elem \<Rightarrow>
            if data = [] then Ok ()
            else andthen (maybe_child elem data) (\<lambda>child. chk elem child)
        | TArray elem \<Rightarrow>
            if elem = TByte then Ok ()
            else andthen (array_reader_new data (gty_alignment elem) (fixed_size elem)) (\<lambda>reader.
                   map_ok (\<lambda>_. ()) (read_elems (chk elem) reader))
        | TTuple members \<Rightarrow> check_struct chk ty members data
        | TDictEntry key value \<Rightarrow> check_struct chk ty [key, value] data
        | TVariant \<Rightarrow> andthen (split_variant data) (\<lambda>(child, _, child_ty). chk child_ty child))"
  by pat_completeness auto
termination
  by (relation "measure (\<lambda>(ty, data, depth). Suc MAX_VALUE_DEPTH - depth)") auto

declare check.simps [simp del]

definition validate :: "gty \<Rightarrow> bytes \<Rightarrow> (gv_error, unit) result" where
  "validate ty data = check ty data 0"

subsection \<open>The dict builder\<close>

record dict_builder =
  entries :: "gvalue list"

definition dict_new :: dict_builder where
  "dict_new = \<lparr>entries = []\<rparr>"

definition dict_insert :: "dict_builder \<Rightarrow> bytes \<Rightarrow> gty \<Rightarrow> gvalue \<Rightarrow> dict_builder" where
  "dict_insert b key ty value =
     b\<lparr>entries := entries b @ [VTuple [VStr key, variant ty value]]\<rparr>"

definition insert_str :: "dict_builder \<Rightarrow> bytes \<Rightarrow> bytes \<Rightarrow> dict_builder" where
  "insert_str b key value = dict_insert b key TStr (VStr value)"

definition insert_u64 :: "dict_builder \<Rightarrow> bytes \<Rightarrow> u64 \<Rightarrow> dict_builder" where
  "insert_u64 b key value = dict_insert b key TU64 (VU64 value)"

definition insert_bool :: "dict_builder \<Rightarrow> bytes \<Rightarrow> bool \<Rightarrow> dict_builder" where
  "insert_bool b key value = dict_insert b key TBool (VBool value)"

definition insert_strv :: "dict_builder \<Rightarrow> bytes \<Rightarrow> bytes list \<Rightarrow> dict_builder" where
  "insert_strv b key values = dict_insert b key (TArray TStr) (VArray (map VStr values))"

definition insert_bytes :: "dict_builder \<Rightarrow> bytes \<Rightarrow> bytes \<Rightarrow> dict_builder" where
  "insert_bytes b key value = dict_insert b key (TArray TByte) (VBytes value)"

definition build :: "dict_builder \<Rightarrow> gvalue" where
  "build b = VArray (entries b)"

subsection \<open>The serializer writes position-independent bytes\<close>

text \<open>Facts on the layout of a type.\<close>

lemma is_align_gty [simp]: "is_align (gty_alignment ty)"
  using lay_ok_gty [of ty] by (simp add: lay_ok_def gty_alignment_def)

lemma fixed_size_pos: "fixed_size ty = Some k \<Longrightarrow> 0 < k"
  using lay_ok_gty [of ty] by (simp add: lay_ok_def fixed_size_def)

lemma fixed_size_dvd: "fixed_size ty = Some k \<Longrightarrow> gty_alignment ty dvd k"
  using lay_ok_gty [of ty] by (simp add: lay_ok_def fixed_size_def gty_alignment_def)

lemma gty_lay_of_struct: "map lay_pair (map gty_layout ms) = map gty_lay ms"
  by (simp add: gty_alignment_def fixed_size_def)

lemma struct_layout:
  "lay_alignment (of_struct (map gty_layout ms)) = max_alignment (map gty_alignment ms)"
  "lay_fixed (of_struct (map gty_layout ms)) = struct_fixed (map gty_lay ms)"
  unfolding of_struct_alignment of_struct_fixed struct_fixed_def gty_lay_of_struct
  by (simp_all add: comp_def gty_alignment_def [abs_def])

text \<open>
  A writer of values at some depth: it appends the same bytes at every aligned position,
  and the bytes of a fixed-size type have that size. The helpers of \<open>serialize\<close> call it
  for the members of a container.
\<close>

locale value_writer =
  fixes ser :: ser_rec
  assumes ser_pos: "pos_indep (gty_alignment ty) (\<lambda>buf. ser buf ty v)"
    and ser_fixed: "ser [] ty v = Ok bs \<Longrightarrow> fixed_size ty = Some k \<Longrightarrow> length bs = k"
begin

lemma maybe_pos: "pos_indep (gty_alignment elem) (\<lambda>buf. serialize_maybe ser buf elem inner)"
proof -
  have "serialize_maybe ser out elem inner = map_ok (\<lambda>bs. out @ bs) (serialize_maybe ser [] elem inner)"
    if "gty_alignment elem dvd length out" for out
    using pos_indepD [OF ser_pos that, of "the inner"]
    by (cases inner; cases "ser [] elem (the inner)") (simp_all add: serialize_maybe_def)
  then show ?thesis unfolding pos_indep_def by blast
qed

lemma array_eq:
  assumes "gty_alignment elem dvd length buf"
  shows "serialize_array ser buf elem items =
    map_ok (\<lambda>ss. buf @ array_bytes (gty_alignment elem) (fixed_size elem \<noteq> None) ss)
      (try_map (ser [] elem) items)"
proof -
  have dv: "gty_alignment elem dvd length bs"
    if "fixed_size elem \<noteq> None" "ser [] elem v = Ok bs" for v bs
    using that ser_fixed fixed_size_dvd by auto
  have "try_map (\<lambda>i. ser [] elem (items ! i)) [0..<length items] = try_map (ser [] elem) items"
    using try_map_map [of "ser [] elem" "\<lambda>i. items ! i" "[0..<length items]"] by (simp add: map_nth)
  then show ?thesis
    unfolding serialize_array_def using ser_pos dv assms by (subst write_array_eq) auto
qed

lemma struct_eq:
  assumes "length items = length members" and "members \<noteq> []"
    and "max_alignment (map gty_alignment members) dvd length buf"
  shows "serialize_struct ser buf whole members items =
    map_ok (\<lambda>ss. buf @ struct_bytes (fixed_size whole) (with_bytes (map gty_lay members) ss))
      (try_map (\<lambda>(m, x). ser [] m x) (zip members items))"
proof -
  let ?ms = "map2 (\<lambda>m item. (gty_alignment m, fixed_size m, \<lambda>buf. ser buf m item)) members items"
  have "gty_alignment m dvd length buf" if "m \<in> set members" for m
    using that assms(3) max_alignment_dvd [of "map gty_alignment members" "gty_alignment m"] dvd_trans by auto
  then have al: "\<forall>(al, fs, wr) \<in> set ?ms. is_align al \<and> al dvd length buf \<and> pos_indep al wr"
    using ser_pos by (auto dest: set_zip_leftD)
  have "field_layouts ?ms = map gty_lay (map fst (zip members items))"
    by (simp add: split_beta comp_def)
  also have "\<dots> = map gty_lay members" using assms(1) by simp
  finally have lay: "field_layouts ?ms = map gty_lay members" .
  have run: "run_fields ?ms = try_map (\<lambda>(m, x). ser [] m x) (zip members items)"
    by (simp add: try_map_map comp_def case_prod_unfold)
  show ?thesis
    unfolding lay [symmetric] run [symmetric] tuple_encode_eq [OF al, symmetric]
    using assms(1,2) by (simp add: serialize_struct_def tuple_encode_def andthen_Ok_map)
qed

end


lemma pos_indep_append [intro]: "pos_indep al (\<lambda>out. Ok (out @ bs))"
  by (simp add: pos_indep_def)

lemma pos_indep_Err [intro]: "pos_indep al (\<lambda>out. Err e)"
  by (simp add: pos_indep_def)

lemma pos_indep_mono: "pos_indep a wr \<Longrightarrow> a dvd b \<Longrightarrow> pos_indep b wr"
  unfolding pos_indep_def by (meson dvd_trans)

lemma pos_indepI: "(\<And>out. al dvd length out \<Longrightarrow> wr out = map_ok (\<lambda>bs. out @ bs) m) \<Longrightarrow> pos_indep al wr"
proof -
  assume a: "\<And>out. al dvd length out \<Longrightarrow> wr out = map_ok (\<lambda>bs. out @ bs) m"
  have "wr [] = m" using a [of "[]"] by simp
  then show ?thesis unfolding pos_indep_def using a by blast
qed

lemma pos_indep_if:
  "(c \<Longrightarrow> pos_indep al f) \<Longrightarrow> (\<not> c \<Longrightarrow> pos_indep al g) \<Longrightarrow> pos_indep al (\<lambda>buf. if c then f buf else g buf)"
  by (cases c) simp_all

lemma leaf_pos_indep [intro]:
  "pos_indep al (bool_encode b)" "pos_indep al (u8_encode y)" "pos_indep al (u32_encode u)"
  "pos_indep al (u64_encode t)" "pos_indep al (str_encode s)" "pos_indep al (bytes_encode bs)"
  by (auto simp: pos_indep_def bool_encode_def u8_encode_def u32_encode_def u64_encode_def
      str_encode_def bytes_encode_def)

context value_writer
begin

lemma maybe_fixed_None: "fixed_size (TMaybe elem) = None" "gty_alignment (TMaybe elem) = gty_alignment elem"
  by (simp_all add: fixed_size_def gty_alignment_def layout_variable_def layout_new_def)

lemma array_pos: "pos_indep (gty_alignment (TArray elem)) (\<lambda>buf. serialize_array ser buf elem items)"
  by (rule pos_indepI [where m = "map_ok (array_bytes (gty_alignment elem) (fixed_size elem \<noteq> None))
        (try_map (ser [] elem) items)"])
    (simp add: array_eq gty_alignment_def layout_variable_def layout_new_def)

lemma struct_pos:
  assumes "gty_layout whole = of_struct (map gty_layout members)"
  shows "pos_indep (gty_alignment whole) (\<lambda>buf. serialize_struct ser buf whole members items)"
proof (cases "length items = length members \<and> members \<noteq> []")
  case True
  have "gty_alignment whole = max_alignment (map gty_alignment members)"
    using assms struct_layout(1) by (simp add: gty_alignment_def)
  then show ?thesis
    using True by (intro pos_indepI [where m = "map_ok (\<lambda>ss. struct_bytes (fixed_size whole)
        (with_bytes (map gty_lay members) ss)) (try_map (\<lambda>(m, x). ser [] m x) (zip members items))"])
      (simp add: struct_eq)
qed (auto simp: serialize_struct_def pos_indep_def)

lemma struct_fixed_len:
  assumes "gty_layout whole = of_struct (map gty_layout members)"
    and "serialize_struct ser [] whole members items = Ok bs" and "fixed_size whole = Some k"
  shows "length bs = k"
proof (cases "members = []")
  case True
  then show ?thesis
    using assms struct_layout(2) [of "[]"]
    by (auto simp: serialize_struct_def fixed_size_def struct_fixed_def split: if_splits)
next
  case False
  then have len: "length items = length members"
    using assms(2) by (auto simp: serialize_struct_def split: if_splits)
  show ?thesis
    using assms(2,3) struct_eq [OF len False, of "[]" whole]
    by (auto simp: result_simps length_struct_bytes_fixed)
qed

lemma variant_pos: "pos_indep 8 (\<lambda>buf. serialize_variant ser buf ty v)"
proof (rule pos_indepI [where m = "map_ok (\<lambda>bs. bs @ [0] @ signature ty) (ser [] ty v)"])
  fix out :: bytes assume "8 dvd length out"
  moreover have "gty_alignment ty dvd 8" using is_align_gty [of ty] by (auto simp: is_align_def)
  ultimately have "ser out ty v = map_ok (\<lambda>bs. out @ bs) (ser [] ty v)"
    using pos_indepD [OF ser_pos] dvd_trans by blast
  then show "serialize_variant ser out ty v =
      map_ok (\<lambda>bs. out @ bs) (map_ok (\<lambda>bs. bs @ [0] @ signature ty) (ser [] ty v))"
    by (cases "ser [] ty v") (simp_all add: serialize_variant_def)
qed

end

lemma gty_alignment_simps [simp]:
  "gty_alignment TVariant = 8" "gty_alignment (TArray t) = gty_alignment t"
  "gty_alignment (TMaybe t) = gty_alignment t"
  by (simp_all add: gty_alignment_def layout_variable_def layout_new_def)

lemma fixed_size_simps [simp]:
  "fixed_size TBool = Some 1" "fixed_size TByte = Some 1" "fixed_size TI16 = Some 2" "fixed_size TU16 = Some 2"
  "fixed_size TI32 = Some 4" "fixed_size TU32 = Some 4" "fixed_size THandle = Some 4" "fixed_size TI64 = Some 8"
  "fixed_size TU64 = Some 8" "fixed_size TDouble = Some 8" "fixed_size TStr = None" "fixed_size TObjectPath = None"
  "fixed_size TSignature = None" "fixed_size TVariant = None" "fixed_size (TArray t) = None"
  "fixed_size (TMaybe t) = None"
  by (simp_all add: fixed_size_def layout_scalar_def layout_variable_def layout_new_def)

lemma type_mismatch_simps [simp]:
  "type_mismatch ty v \<noteq> Ok bs" "pos_indep al (\<lambda>buf. type_mismatch ty v)"
  by (auto simp: type_mismatch_def)

lemma serialize_deep: "depth > MAX_VALUE_DEPTH \<Longrightarrow> serialize buf ty v depth = Err DepthExceeded"
  by (simp add: serialize.simps)

lemma gty_layout_DictEntry: "gty_layout (TDictEntry k v) = of_struct (map gty_layout [k, v])"
  by simp

lemma gty_layout_Tuple: "gty_layout (TTuple ms) = of_struct (map gty_layout ms)"
  by simp

lemma serialize_writer_step:
  assumes w: "value_writer (\<lambda>buf ty v. serialize buf ty v (Suc depth))" and d: "depth \<le> MAX_VALUE_DEPTH"
  shows "value_writer (\<lambda>buf ty v. serialize buf ty v depth)"
proof
  fix ty v
  note pos = value_writer.maybe_pos [OF w] value_writer.array_pos [OF w, simplified]
    value_writer.struct_pos [OF w gty_layout_Tuple] value_writer.struct_pos [OF w gty_layout_DictEntry]
    value_writer.variant_pos [OF w]
  show "pos_indep (gty_alignment ty) (\<lambda>buf. serialize buf ty v depth)"
    by (subst serialize.simps) (cases ty; cases v; use d in \<open>auto simp: pos leaf_pos_indep intro!: pos_indep_if\<close>)
next
  fix ty v bs k
  assume "serialize [] ty v depth = Ok bs" "fixed_size ty = Some k"
  then show "length bs = k"
    using d value_writer.struct_fixed_len [OF w gty_layout_Tuple]
      value_writer.struct_fixed_len [OF w gty_layout_DictEntry]
    by (subst (asm) serialize.simps)
      (cases ty; cases v; auto simp: bool_encode_def u8_encode_def u32_encode_def u64_encode_def)
qed

lemma serialize_writer: "value_writer (\<lambda>buf ty v. serialize buf ty v depth)"
proof (induction "Suc MAX_VALUE_DEPTH - depth" arbitrary: depth)
  case 0
  then have "depth > MAX_VALUE_DEPTH" by simp
  then show ?case by unfold_locales (simp_all add: serialize_deep pos_indep_Err)
next
  case (Suc n)
  then have d: "depth \<le> MAX_VALUE_DEPTH" "n = Suc MAX_VALUE_DEPTH - Suc depth" by linarith+
  show ?case by (rule serialize_writer_step [OF Suc.hyps(1) [OF d(2)] d(1)])
qed

interpretation vw: value_writer "\<lambda>buf ty v. serialize buf ty v depth" for depth
  by (rule serialize_writer)

subsection \<open>The parser accepts exactly the serialized values\<close>

text \<open>
  The values that the Rust types and a type signature can express: every string is UTF-8,
  and the child type of every variant parses back from its signature.
\<close>

fun value_ok :: "gvalue \<Rightarrow> bool" where
  "value_ok (VStr s) \<longleftrightarrow> utf8_valid s"
| "value_ok (VMaybe inner) \<longleftrightarrow> (case inner of None \<Rightarrow> True | Some v \<Rightarrow> value_ok v)"
| "value_ok (VArray items) \<longleftrightarrow> (\<forall>v \<in> set items. value_ok v)"
| "value_ok (VTuple items) \<longleftrightarrow> (\<forall>v \<in> set items. value_ok v)"
| "value_ok (VVariant (ty, v)) \<longleftrightarrow> sig_ok 0 ty \<and> value_ok v"
| "value_ok _ \<longleftrightarrow> True"

lemma length_array_body: "is_align al \<Longrightarrow> s \<in> set ss \<Longrightarrow> length s \<le> length (array_body al acc ss)"
proof (induction ss arbitrary: acc)
  case (Cons t ss)
  then show ?case
    using prefix_length_le [OF prefix_array_body [of al "pad_to acc al @ t" ss]] by auto
qed simp

lemma length_array_bytes: "is_align al \<Longrightarrow> s \<in> set ss \<Longrightarrow> length s \<le> length (array_bytes al fx ss)"
  using length_array_body [of al s ss "[]"]
  by (auto simp: array_bytes_def Let_def length_concat intro: member_le_sum_list trans_le_add1)

lemma length_struct_body:
  "\<forall>l \<in> set ls. is_align (fst l) \<Longrightarrow> length ls = length ss \<Longrightarrow> s \<in> set ss \<Longrightarrow>
    length s \<le> length (struct_body acc (with_bytes ls ss))"
proof (induction ls ss arbitrary: acc rule: list_induct2')
  case (4 l ls t ss)
  obtain al fs where l: "l = (al, fs)" by (cases l)
  show ?case
    using 4 prefix_length_le [OF prefix_struct_body [of ls ss "pad_to acc al @ t"]] by (auto simp: l)
qed auto

lemma struct_body_le:
  assumes "\<forall>l \<in> set ls. is_align (fst l)" and "sizes_ok ls ss"
  shows "length (struct_body [] (with_bytes ls ss)) \<le> length (struct_bytes (struct_fixed ls) (with_bytes ls ss))"
proof (cases "struct_fixed ls")
  case None
  then show ?thesis by (simp add: struct_bytes_def Let_def)
next
  case (Some k)
  then show ?thesis using struct_fixed_body [OF assms] by (simp add: length_struct_bytes_fixed)
qed

lemma list_all2_cong_flip:
  "(\<And>s x. s \<in> set ss \<Longrightarrow> P s x \<longleftrightarrow> Q x \<and> R x s) \<Longrightarrow>
    list_all2 P ss xs \<longleftrightarrow> (\<forall>x \<in> set xs. Q x) \<and> list_all2 R xs ss"
proof (induction ss arbitrary: xs)
  case (Cons s ss)
  then show ?case by (cases xs) auto
qed auto

lemma list_all2_in_right: "list_all2 P xs ys \<Longrightarrow> y \<in> set ys \<Longrightarrow> \<exists>x \<in> set xs. P x y"
  by (induction xs ys rule: list_all2_induct) auto

lemma list_all2_zip_flip:
  "(\<And>m s x. s \<in> set ss \<Longrightarrow> P m s x \<longleftrightarrow> Q x \<and> R m x s) \<Longrightarrow>
    (length ss = length ms \<and> list_all2 (\<lambda>(m, s) x. P m s x) (zip ms ss) xs) \<longleftrightarrow>
    (length xs = length ms \<and> (\<forall>x \<in> set xs. Q x) \<and> list_all2 (\<lambda>(m, x) s. R m x s) (zip ms xs) ss)"
proof (induction ms arbitrary: ss xs)
  case (Cons m ms)
  show ?case
  proof (cases ss; cases xs)
    fix s ss' x xs' assume eq: "ss = s # ss'" "xs = x # xs'"
    show ?thesis using Cons.IH [of ss' xs'] Cons.prems [of s] Cons.prems by (auto simp: eq)
  qed auto
qed auto

lemma set_signature: "b \<in> set (signature ty) \<Longrightarrow> b \<noteq> 0 \<and> b < 0x80"
proof (induction ty)
  case (TTuple ms)
  then show ?case by (auto simp: lit_def)
qed (auto simp: lit_def)

lemma utf8_signature: "utf8_valid (signature ty)"
  by (rule utf8_valid_ascii) (use set_signature in blast)

lemma split_variant_Ok:
  "split_variant data = Ok (child, sig, ty) \<longleftrightarrow>
     sig = signature ty \<and> sig_ok 0 ty \<and> data = child @ [0] @ signature ty"
proof
  assume "split_variant data = Ok (child, sig, ty)"
  then obtain sep where sep: "sep < length data" "data ! sep = 0" and
    r: "child = take sep data" "sig = drop (Suc sep) data" "drop (Suc sep) data = signature ty" "sig_ok 0 ty"
    by (auto simp: split_variant_def result_simps Let_def rposition_Some gty_parse_iff
        split: option.splits if_splits)
  show "sig = signature ty \<and> sig_ok 0 ty \<and> data = child @ [0] @ signature ty"
    using r id_take_nth_drop [OF sep(1)] sep(2) by simp
next
  assume a: "sig = signature ty \<and> sig_ok 0 ty \<and> data = child @ [0] @ signature ty"
  have "rposition (\<lambda>b. b = 0) (child @ 0 # signature ty) = Some (length child)"
    using set_signature by (intro rposition_append_sep) auto
  then show "split_variant data = Ok (child, sig, ty)"
    using a utf8_signature gty_parse_signature by (simp add: split_variant_def)
qed

text \<open>
  A reader and a writer of values at some depth that agree: the reader accepts exactly
  what the writer writes. The helpers of \<open>parse\<close> and \<open>serialize\<close> keep this contract.
\<close>

locale value_codec = value_writer ser for ser +
  fixes prs :: "gvalue de_rec"
  assumes prs_iff: "length data < usize_bound \<Longrightarrow>
    prs ty data = Ok v \<longleftrightarrow> value_ok v \<and> ser [] ty v = Ok data"
begin

lemma maybe_iff:
  assumes "length data < usize_bound"
  shows "parse_maybe prs elem data = Ok (VMaybe inner) \<longleftrightarrow>
    value_ok (VMaybe inner) \<and> serialize_maybe ser [] elem inner = Ok data"
proof (cases inner)
  case None
  then show ?thesis by (auto simp: parse_maybe_def serialize_maybe_def result_simps)
next
  case (Some child)
  show ?thesis
  proof (cases "fixed_size elem")
    case None
    have "prs elem bs = Ok child \<longleftrightarrow> value_ok child \<and> ser [] elem child = Ok bs" if "data = bs @ [0]" for bs
      using prs_iff [of bs] assms that by simp
    then show ?thesis
      using Some None
      by (auto simp: parse_maybe_def serialize_maybe_def maybe_child_def result_simps split: option.splits if_splits)
  next
    case (Some k)
    then have "ser [] elem child = Ok data \<Longrightarrow> data \<noteq> []"
      using ser_fixed fixed_size_pos by fastforce
    then show ?thesis
      using Some \<open>inner = Some child\<close> prs_iff [OF assms, of elem child]
      by (auto simp: parse_maybe_def serialize_maybe_def maybe_child_def result_simps)
  qed
qed

lemma array_iff:
  assumes "length data < usize_bound"
  shows "parse_array prs elem data = Ok (VArray items) \<longleftrightarrow>
    value_ok (VArray items) \<and> serialize_array ser [] elem items = Ok data"
proof -
  let ?al = "gty_alignment elem" and ?fs = "fixed_size elem"
  have "parse_array prs elem data = Ok (VArray items) \<longleftrightarrow>
      (\<exists>ss. array_slices data ?al ?fs = Ok ss \<and> list_all2 (\<lambda>s x. prs elem s = Ok x) ss items)"
    by (auto simp: parse_array_def array_slices_def result_simps read_elems_slices [of "prs elem"])
  also have "\<dots> \<longleftrightarrow> (\<exists>ss. (\<forall>s \<in> set ss. \<forall>k. ?fs = Some k \<longrightarrow> length s = k) \<and>
      data = array_bytes ?al (?fs \<noteq> None) ss \<and> list_all2 (\<lambda>s x. prs elem s = Ok x) ss items)"
    using array_slices_iff [of ?al ?fs data] fixed_size_pos assms by auto
  also have "\<dots> \<longleftrightarrow> (\<exists>ss. data = array_bytes ?al (?fs \<noteq> None) ss \<and>
      (\<forall>v \<in> set items. value_ok v) \<and> list_all2 (\<lambda>x s. ser [] elem x = Ok s) items ss)"
  proof (rule iff_exI)
    fix ss
    have "list_all2 (\<lambda>s x. prs elem s = Ok x) ss items \<longleftrightarrow>
        (\<forall>v \<in> set items. value_ok v) \<and> list_all2 (\<lambda>x s. ser [] elem x = Ok s) items ss"
      if "data = array_bytes ?al (?fs \<noteq> None) ss"
    proof (rule list_all2_cong_flip)
      fix s x assume "s \<in> set ss"
      then have "length s < usize_bound"
        using length_array_bytes [of ?al s ss "?fs \<noteq> None"] assms that by (simp add: le_less_trans)
      then show "prs elem s = Ok x \<longleftrightarrow> value_ok x \<and> ser [] elem x = Ok s" by (rule prs_iff)
    qed
    moreover have "length s = k"
      if "list_all2 (\<lambda>x s. ser [] elem x = Ok s) items ss" "s \<in> set ss" "?fs = Some k" for s k
      using that ser_fixed by (blast dest: list_all2_in_right)
    ultimately show "(\<forall>s \<in> set ss. \<forall>k. ?fs = Some k \<longrightarrow> length s = k) \<and>
      data = array_bytes ?al (?fs \<noteq> None) ss \<and> list_all2 (\<lambda>s x. prs elem s = Ok x) ss items \<longleftrightarrow>
      data = array_bytes ?al (?fs \<noteq> None) ss \<and>
      (\<forall>v \<in> set items. value_ok v) \<and> list_all2 (\<lambda>x s. ser [] elem x = Ok s) items ss" by blast
  qed
  also have "\<dots> \<longleftrightarrow> value_ok (VArray items) \<and> serialize_array ser [] elem items = Ok data"
    by (auto simp: array_eq result_simps)
  finally show ?thesis .
qed

lemma variant_iff:
  assumes "length data < usize_bound"
  shows "parse_variant prs data = Ok (VVariant (ty, child)) \<longleftrightarrow>
    value_ok (VVariant (ty, child)) \<and> serialize_variant ser [] ty child = Ok data"
proof -
  have "prs ty bs = Ok child \<longleftrightarrow> value_ok child \<and> ser [] ty child = Ok bs"
    if "data = bs @ [0] @ signature ty" for bs
    using prs_iff [of bs] assms that by simp
  then show ?thesis
    by (auto simp: parse_variant_def serialize_variant_def variant_def result_simps split_variant_Ok)
qed

end


context value_codec
begin

lemma struct_iff:
  assumes whole: "gty_layout whole = of_struct (map gty_layout members)" and len: "length data < usize_bound"
  shows "parse_struct prs whole members data = Ok (VTuple items) \<longleftrightarrow>
    value_ok (VTuple items) \<and> serialize_struct ser [] whole members items = Ok data"
proof (cases "members = []")
  case True
  then show ?thesis by (auto simp: parse_struct_def serialize_struct_def)
next
  case False
  let ?ls = "map gty_lay members"
  have fs: "fixed_size whole = struct_fixed ?ls" using whole struct_layout(2) by (simp add: fixed_size_def)
  have al: "\<forall>l \<in> set ?ls. is_align (fst l)" by simp
  have "parse_struct prs whole members data = Ok (VTuple items) \<longleftrightarrow>
      (\<exists>ss. tuple_slices data (struct_fixed ?ls) ?ls = Ok ss \<and>
        list_all2 (\<lambda>(m, s) x. prs m s = Ok x) (zip members ss) items)"
    using False
    by (auto simp: parse_struct_def tuple_slices_def result_simps read_fields_slices [of gty_lay prs] fs; blast)
  also have "\<dots> \<longleftrightarrow> (\<exists>ss. sizes_ok ?ls ss \<and> data = struct_bytes (struct_fixed ?ls) (with_bytes ?ls ss) \<and>
        list_all2 (\<lambda>(m, s) x. prs m s = Ok x) (zip members ss) items)"
    using tuple_slices_iff [OF al len] by auto
  also have "\<dots> \<longleftrightarrow> (\<exists>ss. data = struct_bytes (struct_fixed ?ls) (with_bytes ?ls ss) \<and>
      length items = length members \<and> (\<forall>v \<in> set items. value_ok v) \<and>
      list_all2 (\<lambda>(m, x) s. ser [] m x = Ok s) (zip members items) ss)"
  proof (rule iff_exI)
    fix ss
    have "(length ss = length members \<and> list_all2 (\<lambda>(m, s) x. prs m s = Ok x) (zip members ss) items) \<longleftrightarrow>
        (length items = length members \<and> (\<forall>v \<in> set items. value_ok v) \<and>
          list_all2 (\<lambda>(m, x) s. ser [] m x = Ok s) (zip members items) ss)"
      if "data = struct_bytes (struct_fixed ?ls) (with_bytes ?ls ss)" "sizes_ok ?ls ss"
    proof (rule list_all2_zip_flip)
      fix m s x assume "s \<in> set ss"
      then have "length s \<le> length data"
        using length_struct_body [OF al sizes_ok_length [OF that(2)], of s "[]"] struct_body_le [OF al that(2)] that(1)
        by simp
      then show "prs m s = Ok x \<longleftrightarrow> value_ok x \<and> ser [] m x = Ok s" using len by (intro prs_iff) simp
    qed
    moreover have "sizes_ok ?ls ss"
      if "length items = length members" "list_all2 (\<lambda>(m, x) s. ser [] m x = Ok s) (zip members items) ss"
      using that ser_fixed by (auto simp: sizes_ok_def list_all2_conv_all_nth)
    moreover have "length ss = length members" if "sizes_ok ?ls ss" using sizes_ok_length [OF that] by simp
    ultimately show "(sizes_ok ?ls ss \<and> data = struct_bytes (struct_fixed ?ls) (with_bytes ?ls ss) \<and>
        list_all2 (\<lambda>(m, s) x. prs m s = Ok x) (zip members ss) items) \<longleftrightarrow>
      (data = struct_bytes (struct_fixed ?ls) (with_bytes ?ls ss) \<and>
      length items = length members \<and> (\<forall>v \<in> set items. value_ok v) \<and>
      list_all2 (\<lambda>(m, x) s. ser [] m x = Ok s) (zip members items) ss)"
      by argo
  qed
  also have "\<dots> \<longleftrightarrow> value_ok (VTuple items) \<and> serialize_struct ser [] whole members items = Ok data"
  proof (cases "length items = length members")
    case True
    then show ?thesis by (auto simp: struct_eq [OF True False] fs result_simps case_prod_unfold)
  qed (simp add: serialize_struct_def)
  finally show ?thesis .
qed

end


lemma parse_shape:
  "parse_maybe prs elem data = Ok v \<Longrightarrow> \<exists>inner. v = VMaybe inner"
  "parse_array prs elem data = Ok v \<Longrightarrow> \<exists>items. v = VArray items"
  "parse_struct prs whole members data = Ok v \<Longrightarrow> \<exists>items. v = VTuple items"
  "parse_variant prs data = Ok v \<Longrightarrow> \<exists>ty child. v = VVariant (ty, child)"
  by (auto simp: parse_maybe_def parse_array_def parse_struct_def parse_variant_def variant_def
      result_simps split: if_splits)

lemmas leaf_defs = bool_encode_def u8_encode_def u32_encode_def u64_encode_def bytes_encode_def str_encode_def

lemma parse_codec_step:
  assumes c: "value_codec (\<lambda>buf ty v. serialize buf ty v (Suc depth)) (\<lambda>ty data. parse ty data (Suc depth))"
    and d: "depth \<le> MAX_VALUE_DEPTH" and len: "length data < usize_bound"
  shows "parse ty data depth = Ok v \<longleftrightarrow> value_ok v \<and> serialize [] ty v depth = Ok data"
proof -
  note iff = value_codec.maybe_iff [OF c len] value_codec.array_iff [OF c len] value_codec.variant_iff [OF c len]
    value_codec.struct_iff [OF c gty_layout_Tuple len] value_codec.struct_iff [OF c gty_layout_DictEntry len]
  show ?thesis
    unfolding parse.simps [of ty data depth] serialize.simps [of "[]" ty v depth]
    by (cases ty; cases v)
      (use d in \<open>auto simp: iff leaf_decode leaf_defs to_from_le_bytes from_to_le_bytes result_simps dest: parse_shape\<close>)
qed


lemma parse_deep: "depth > MAX_VALUE_DEPTH \<Longrightarrow> parse ty data depth = Err DepthExceeded"
  by (simp add: parse.simps)

lemma parse_codec: "value_codec (\<lambda>buf ty v. serialize buf ty v depth) (\<lambda>ty data. parse ty data depth)"
proof (induction "Suc MAX_VALUE_DEPTH - depth" arbitrary: depth)
  case 0
  then have "depth > MAX_VALUE_DEPTH" by simp
  then show ?case by unfold_locales (simp add: serialize_deep parse_deep)
next
  case (Suc n)
  then have d: "depth \<le> MAX_VALUE_DEPTH" "n = Suc MAX_VALUE_DEPTH - Suc depth" by linarith+
  show ?case by unfold_locales (rule parse_codec_step [OF Suc.hyps(1) [OF d(2)] d(1)])
qed

interpretation vc: value_codec "\<lambda>buf ty v. serialize buf ty v depth" "\<lambda>ty data. parse ty data depth" for depth
  by (rule parse_codec)

lemmas parse_iff = vc.prs_iff

lemma from_bytes_iff:
  "length data < usize_bound \<Longrightarrow> from_bytes ty data = Ok v \<longleftrightarrow> value_ok v \<and> to_bytes ty v = Ok data"
  by (simp add: from_bytes_def to_bytes_def parse_iff)

text \<open>\<open>check\<close> returns what \<open>parse\<close> returns, without the value, errors included.\<close>

lemma read_elems_map_ok: "read_elems (\<lambda>s. map_ok g (f s)) r = map_ok (map g) (read_elems f r)"
proof (induction f r rule: read_elems.induct)
  case (1 f r)
  show ?case
  proof (cases "next_slice r")
    case None
    then show ?thesis by (simp add: read_elems.simps [of _ r])
  next
    case (Some p)
    obtain s r' where p: "p = (s, r')" by (cases p)
    show ?thesis
    proof (cases s)
      case (Ok sl)
      then show ?thesis
        using 1 Some p
        by (cases "f sl"; cases "read_elems f r'") (simp_all add: read_elems.simps [of _ r])
    qed (simp add: read_elems.simps [of _ r] Some p)
  qed
qed

lemma read_fields_map_ok:
  "read_fields lay (\<lambda>m s. map_ok g (f m s)) r ms = map_ok (\<lambda>(xs, r). (map g xs, r)) (read_fields lay f r ms)"
proof (induction ms arbitrary: r)
  case (Cons m ms)
  show ?case
    by (cases "tuple_field r (fst (lay m)) (snd (lay m)) (ms = [])")
      (auto simp: Cons andthen_map_ok map_ok_andthen intro!: andthen_cong)
qed simp

subsection \<open>The validator, single members, byte swapping and dicts\<close>

lemma check_struct_eq:
  assumes "\<And>ty data. chk ty data = map_ok (\<lambda>_. ()) (prs ty data)"
  shows "check_struct chk whole members data = map_ok (\<lambda>_. ()) (parse_struct prs whole members data)"
proof -
  have chk: "chk = (\<lambda>ty data. map_ok (\<lambda>_. ()) (prs ty data))" using assms by auto
  show ?thesis
    by (auto simp: chk check_struct_def parse_struct_def read_fields_map_ok andthen_map_ok map_ok_andthen
        case_prod_unfold intro!: andthen_cong)
qed

lemma check_step:
  assumes IH: "\<And>ty data. check ty data (Suc depth) = map_ok (\<lambda>_. ()) (parse ty data (Suc depth))"
  shows "check ty data depth = map_ok (\<lambda>_. ()) (parse ty data depth)"
proof -
  note st = check_struct_eq [where chk = "\<lambda>ty data. map_ok (\<lambda>_. ()) (parse ty data (Suc depth))", OF refl]
  have fn: "(\<lambda>data. check elem data (Suc depth)) = (\<lambda>data. map_ok (\<lambda>_. ()) (parse elem data (Suc depth)))" for elem
    using IH by auto
  show ?thesis
    unfolding check.simps [of ty data depth] parse.simps [of ty data depth]
    by (cases ty)
      (simp_all add: Let_def st fn IH u32_decode_def u64_decode_def andthen_Ok_map parse_maybe_def parse_array_def
        parse_variant_def map_ok_andthen andthen_map_ok read_elems_map_ok case_prod_unfold)
qed

lemma check_eq: "check ty data depth = map_ok (\<lambda>_. ()) (parse ty data depth)"
proof (induction "Suc MAX_VALUE_DEPTH - depth" arbitrary: depth ty data)
  case 0
  then show ?case by (simp add: check.simps parse.simps)
next
  case (Suc n)
  then have d: "n = Suc MAX_VALUE_DEPTH - Suc depth" by linarith
  show ?case by (rule check_step) (rule Suc.hyps(1) [OF d])
qed

lemma tuple_field_loop_past:
  "read_fields gty_lay f r ms = Ok (xs, r') \<Longrightarrow> index < i \<Longrightarrow>
    tuple_field_loop index r i fld ms = Ok (fld, r')"
  by (induction ms arbitrary: r i xs) (auto simp: result_simps)

lemma tuple_field_loop_eq:
  assumes "read_fields gty_lay (\<lambda>m s. parse m s 1) r ms = Ok (xs, r')" and "i \<le> index"
  shows "tuple_field_loop index r i fld ms =
    Ok (if index < i + length ms then Some (xs ! (index - i)) else fld, r')"
  using assms
proof (induction ms arbitrary: r i fld xs)
  case (Cons m ms)
  from Cons.prems(1) obtain s r1 x xs1 where
    f: "tuple_field r (gty_alignment m) (fixed_size m) (ms = []) = Ok (s, r1)" and
    x: "parse m s 1 = Ok x" and rest: "read_fields gty_lay (\<lambda>m s. parse m s 1) r1 ms = Ok (xs1, r')" and
    xs: "xs = x # xs1"
    by (auto simp: result_simps)
  show ?case
  proof (cases "i = index")
    case True
    have "tuple_field_loop index r1 (Suc i) fld' ms = Ok (fld', r')" if "fld' = Some x" for fld'
      using tuple_field_loop_past [OF rest] True by simp
    then show ?thesis using True f x xs by simp
  next
    case False
    then have "Suc i \<le> index" using Cons.prems(2) by simp
    from Cons.IH [OF rest this] False Cons.prems(2) show ?thesis by (simp add: f xs nth_Cons')
  qed
qed simp


lemma tuple_field_from_bytes_eq:
  assumes "from_bytes (TTuple ms) data = Ok (VTuple vs)" and "i < length ms"
  shows "tuple_field_from_bytes (TTuple ms) data i = Ok (vs ! i)"
proof -
  have "parse_struct (\<lambda>ty data. parse ty data 1) (TTuple ms) ms data = Ok (VTuple vs)"
    using assms(1) by (simp add: from_bytes_def parse.simps [of "TTuple ms"] MAX_VALUE_DEPTH_def)
  then show ?thesis
    using assms(2)
    by (auto simp: parse_struct_def tuple_field_from_bytes_def result_simps tuple_field_loop_eq split: if_splits)
qed

lemma byteswapped_twice: "byteswapped (byteswapped v) = v"
proof (induction v)
  case (VMaybe inner)
  then show ?case by (cases inner) auto
next
  case (VArray items)
  then show ?case by (simp add: map_idI)
next
  case (VTuple items)
  then show ?case by (simp add: map_idI)
next
  case (VVariant p)
  then show ?case by (cases p) (simp add: variant_def)
qed (simp_all add: swap_bytes_swap_bytes)

lemma dict_find_append: "dict_find (xs @ ys) key =
    (case dict_find xs key of None \<Rightarrow> dict_find ys key | Some v \<Rightarrow> Some v)"
  by (induction xs) (auto split: option.splits list.splits)

lemma dict_get_build_insert:
  "dict_get (build (dict_insert b key ty v)) k =
     (case dict_get (build b) k of
        Some w \<Rightarrow> Some w
      | None \<Rightarrow> if k = key then Some (variant ty v) else None)"
  by (auto simp: dict_get_def build_def dict_insert_def dict_find_append split: option.splits)

subsection \<open>A value that serializes deep in a tree serializes at the top\<close>

definition res_le :: "('e, 'a) result \<Rightarrow> ('e, 'a) result \<Rightarrow> bool" where
  "res_le m m' \<longleftrightarrow> (\<forall>x. m = Ok x \<longrightarrow> m' = Ok x)"

lemma res_leI: "(\<And>x. m = Ok x \<Longrightarrow> m' = Ok x) \<Longrightarrow> res_le m m'"
  by (simp add: res_le_def)

lemma res_leD: "res_le m m' \<Longrightarrow> m = Ok x \<Longrightarrow> m' = Ok x"
  by (simp add: res_le_def)

lemma res_le_refl [simp]: "res_le m m"
  by (simp add: res_le_def)

lemma res_le_andthen: "res_le m m' \<Longrightarrow> (\<And>x. res_le (f x) (f' x)) \<Longrightarrow> res_le (andthen m f) (andthen m' f')"
  by (auto simp: res_le_def andthen_Ok)

lemma write_fixed_elems_mono:
  "(\<And>out i. res_le (w out i) (w' out i)) \<Longrightarrow> res_le (write_fixed_elems out w is) (write_fixed_elems out w' is)"
  by (induction "is" arbitrary: out) (auto intro!: res_le_andthen)

lemma write_var_elems_mono:
  "(\<And>out i. res_le (w out i) (w' out i)) \<Longrightarrow>
     res_le (write_var_elems out start al w ends is) (write_var_elems out start al w' ends is)"
  by (induction "is" arbitrary: out ends) (auto intro!: res_le_andthen)

lemma write_fields_mono:
  assumes "list_all2 (\<lambda>(al, fs, wr) (al', fs', wr'). al' = al \<and> fs' = fs \<and> (\<forall>out. res_le (wr out) (wr' out))) ms ms'"
  shows "res_le (write_fields w ms) (write_fields w ms')"
  using assms
proof (induction ms arbitrary: ms' w)
  case (Cons m ms)
  obtain al fs wr wr' ts where m: "m = (al, fs, wr)" "ms' = (al, fs, wr') # ts" "\<forall>out. res_le (wr out) (wr' out)"
    "list_all2 (\<lambda>(al, fs, wr) (al', fs', wr'). al' = al \<and> fs' = fs \<and> (\<forall>out. res_le (wr out) (wr' out))) ms ts"
    using Cons.prems by (auto simp: list_all2_Cons1)
  then have "(ms = []) = (ts = [])" by (auto dest: list_all2_lengthD)
  then show ?case
    using m Cons.IH [OF m(4)] by (auto simp: field_dyn_def intro!: res_le_andthen)
qed simp

lemma serialize_step_mono:
  assumes "\<And>buf ty v. res_le (serialize buf ty v (Suc (Suc d))) (serialize buf ty v (Suc d))"
  shows "res_le (serialize buf ty v (Suc d)) (serialize buf ty v d)"
proof (cases "Suc d > MAX_VALUE_DEPTH")
  case True
  then show ?thesis by (simp add: serialize_deep res_le_def)
next
  case False
  have "res_le (serialize_struct (\<lambda>buf ty v. serialize buf ty v (Suc (Suc d))) buf whole ms vs)
      (serialize_struct (\<lambda>buf ty v. serialize buf ty v (Suc d)) buf whole ms vs)" for whole ms vs
    unfolding serialize_struct_def using assms
    by (auto intro!: res_le_andthen write_fields_mono simp: list_all2_map1 list_all2_map2 list_all2_same)
  moreover have "res_le (serialize_array (\<lambda>buf ty v. serialize buf ty v (Suc (Suc d))) buf t vs)
      (serialize_array (\<lambda>buf ty v. serialize buf ty v (Suc d)) buf t vs)" for t vs
    unfolding serialize_array_def write_array_def Let_def using assms
    by (auto intro!: res_le_andthen write_fixed_elems_mono write_var_elems_mono)
  moreover have "res_le (serialize_maybe (\<lambda>buf ty v. serialize buf ty v (Suc (Suc d))) buf t mv)
      (serialize_maybe (\<lambda>buf ty v. serialize buf ty v (Suc d)) buf t mv)" for t mv
    unfolding serialize_maybe_def using assms by (auto intro!: res_le_andthen split: option.splits)
  moreover have "res_le (serialize_variant (\<lambda>buf ty v. serialize buf ty v (Suc (Suc d))) buf t w)
      (serialize_variant (\<lambda>buf ty v. serialize buf ty v (Suc d)) buf t w)" for t w
    unfolding serialize_variant_def using assms by (auto intro!: res_le_andthen)
  ultimately show ?thesis
    using False unfolding serialize.simps [of buf ty v d] serialize.simps [of buf ty v "Suc d"]
    by (cases ty; cases v) (auto simp: Let_def split: prod.splits)
qed

lemma serialize_mono_Suc: "res_le (serialize buf ty v (Suc d)) (serialize buf ty v d)"
proof (induction "Suc MAX_VALUE_DEPTH - d" arbitrary: d buf ty v)
  case 0
  then show ?case by (simp add: serialize_deep res_le_def)
next
  case (Suc n)
  then have d: "n = Suc MAX_VALUE_DEPTH - Suc d" by linarith
  show ?case by (rule serialize_step_mono) (rule Suc.hyps(1) [OF d])
qed

lemma serialize_mono: "serialize buf ty v d = Ok b \<Longrightarrow> d' \<le> d \<Longrightarrow> serialize buf ty v d' = Ok b"
proof (induction "d - d'" arbitrary: d')
  case (Suc n)
  then have "serialize buf ty v (Suc d') = Ok b" by simp
  then show ?case by (rule res_leD [OF serialize_mono_Suc])
qed simp

subsection \<open>Properties\<close>

lemma sample_to_bytes:
  "to_bytes (TTuple [TStr, TU32]) (VTuple [VStr [97], VU32 7]) = Ok [97, 0, 0, 0, 7, 0, 0, 0, 2]"
proof -
  have "andthen (andthen (field_dyn (tuple_writer_new []) (gty_alignment TStr) None False (str_encode [97]))
      (\<lambda>w. field_dyn w (gty_alignment TU32) (Some 4) True (u32_encode 7)))
    (\<lambda>w. Ok (tuple_writer_finish w (fixed_size (TTuple [TStr, TU32])))) = Ok [97, 0, 0, 0, 7, 0, 0, 0, 2]"
    by code_simp
  then show ?thesis
    by (simp add: to_bytes_def serialize.simps [of _ "TTuple _"] serialize.simps [of _ "TStr"]
        serialize.simps [of _ "TU32"] MAX_VALUE_DEPTH_def serialize_struct_def)
qed

lemma serialize_unparsable_variant: "to_bytes TVariant (VVariant (TArray (TDictEntry TVariant TVariant), VArray [])) = Ok (0 # lit ''a{vv}'')"
proof -
  have "fixed_size (TDictEntry TVariant TVariant) = None" by code_simp
  then show ?thesis
  by (simp add: to_bytes_def serialize.simps [of _ TVariant] serialize.simps [of _ "TArray _"] MAX_VALUE_DEPTH_def
      serialize_variant_def serialize_array_def write_array_def)
qed

lemma parse_unparsable_variant: "from_bytes TVariant (0 # lit ''a{vv}'') = Err (NotNormal (''variant type signature is invalid''))"
proof -
  have "split_variant (0 # lit ''a{vv}'') = Err (NotNormal (''variant type signature is invalid''))" by code_simp
  then show ?thesis by (simp add: from_bytes_def parse.simps [of TVariant] parse_variant_def MAX_VALUE_DEPTH_def)
qed

text \<open>C4: deserialization is canonical and inverts serialization. \<open>from_bytes\<close> accepts bytes with a
  value exactly when the value is one a parser can return and \<open>to_bytes\<close> serializes it to the same
  bytes. So each value has one serialized form, and every value \<open>from_bytes\<close> returns serializes
  back to its input.\<close>

theorem from_bytes_canonical:
  assumes "length data < usize_bound"
  shows "from_bytes ty data = Ok v \<longleftrightarrow> value_ok v \<and> to_bytes ty v = Ok data"
  using assms by (rule from_bytes_iff)

theorem from_bytes_canonical_witness:
  "from_bytes (TTuple [TStr, TU32]) [97, 0, 0, 0, 7, 0, 0, 0, 2] = Ok (VTuple [VStr [97], VU32 7])"
proof -
  have "value_ok (VTuple [VStr [97], VU32 7])" by code_simp
  then show ?thesis
    using from_bytes_canonical [of "[97, 0, 0, 0, 7, 0, 0, 0, 2]" "TTuple [TStr, TU32]" "VTuple [VStr [97], VU32 7]"]
    by (simp add: sample_to_bytes)
qed

text \<open>C21: \<open>validate\<close> accepts exactly the bytes \<open>from_bytes\<close> accepts and rejects with the same
  error.\<close>

theorem validate_is_from_bytes: "validate ty data = map_ok (\<lambda>_. ()) (from_bytes ty data)"
  by (simp add: validate_def from_bytes_def check_eq)

text \<open>Reading one member of a tuple with \<open>tuple_field_from_bytes\<close> gives the member that
  \<open>from_bytes\<close> gives, on bytes that \<open>from_bytes\<close> accepts.\<close>

theorem tuple_field_is_member:
  assumes "from_bytes (TTuple ms) data = Ok (VTuple vs)" and "i < length ms"
  shows "tuple_field_from_bytes (TTuple ms) data i = Ok (vs ! i)"
  using assms by (rule tuple_field_from_bytes_eq)

theorem tuple_field_is_member_witness:
  "tuple_field_from_bytes (TTuple [TStr, TU32]) [97, 0, 0, 0, 7, 0, 0, 0, 2] 1 = Ok (VU32 7)"
proof -
  have "from_bytes (TTuple [TStr, TU32]) [97, 0, 0, 0, 7, 0, 0, 0, 2] = Ok (VTuple [VStr [97], VU32 7])"
    by (simp add: from_bytes_iff sample_to_bytes)
  from tuple_field_is_member [OF this, of 1] show ?thesis by simp
qed

text \<open>C29: serialization accepts a variant whose child type \<open>Type::parse\<close> refuses, so
  \<open>from_bytes\<close> does not accept each value that \<open>to_bytes\<close> accepts: an array of dict entries with a
  variant as key serializes, and its bytes are rejected.\<close>

theorem to_bytes_beyond_from_bytes:
  "\<exists>v data. to_bytes TVariant v = Ok data \<and>
     from_bytes TVariant data = Err (NotNormal ''variant type signature is invalid'')"
  using serialize_unparsable_variant parse_unparsable_variant by blast

text \<open>\<open>byteswapped\<close> is an involution.\<close>

theorem byteswapped_involution: "byteswapped (byteswapped v) = v"
  by (rule byteswapped_twice)

text \<open>Looking up a key in a dictionary after an insert gives the first entry of that key: an
  entry from before, otherwise the variant just inserted.\<close>

theorem dict_lookup_after_insert:
  "dict_get (build (dict_insert b key ty v)) k =
     (case dict_get (build b) k of
        Some w \<Rightarrow> Some w
      | None \<Rightarrow> if k = key then Some (variant ty v) else None)"
  by (rule dict_get_build_insert)

end
