(* ===== verification/Gv_Codec.thy ===== *)
theory Gv_Codec
  imports Gv_Value
begin

section \<open>The typed GVariant codec\<close>

text \<open>
  The traits \<open>GvType\<close>, \<open>GvEncode\<close> and \<open>GvDecode\<close> of
  \<^verbatim>\<open>crates/ostrya-gvariant/src/codec.rs\<close> and the impls that the object types use: scalars,
  strings, byte arrays, \<open>ArrayIter\<close>, \<open>Slice\<close>, variants, and tuples. An impl of \<open>GvEncode\<close> is an
  \<open>encoder\<close> record, an impl of \<open>GvDecode\<close> is a \<open>decoder\<close> record; both carry the constants
  \<open>ALIGNMENT\<close> and \<open>FIXED_SIZE\<close>. The macro \<open>impl_tuple!\<close> becomes a chain of members over nested
  pairs that ends in the last member. An \<open>ArrayIter\<close> is its \<open>array_reader\<close>; draining it is
  \<open>read_elems\<close>.

  The locales \<open>gv_encode\<close> and \<open>gv_decode\<close> state the contract of the traits; \<open>gv_codec\<close>
  relates an encoder and a decoder of the same type: the decoder accepts exactly what the
  encoder writes.
\<close>

record 'a encoder =
  e_alignment :: nat
  e_fixed :: "nat option"
  encode :: "'a \<Rightarrow> bytes \<Rightarrow> (gv_error, bytes) result"

record 'a decoder =
  d_alignment :: nat
  d_fixed :: "nat option"
  decode :: "bytes \<Rightarrow> (gv_error, 'a) result"

definition encode_to_vec :: "'a encoder \<Rightarrow> 'a \<Rightarrow> (gv_error, bytes) result" where
  "encode_to_vec e v = encode e v []"

abbreviation e_lay :: "'a encoder \<Rightarrow> nat \<times> nat option" where
  "e_lay e \<equiv> (e_alignment e, e_fixed e)"

abbreviation d_lay :: "'a decoder \<Rightarrow> nat \<times> nat option" where
  "d_lay d \<equiv> (d_alignment d, d_fixed d)"

subsection \<open>Leaves\<close>

definition bool_enc :: "bool encoder" where
  "bool_enc = \<lparr>e_alignment = 1, e_fixed = Some 1, encode = bool_encode\<rparr>"

definition bool_dec :: "bool decoder" where
  "bool_dec = \<lparr>d_alignment = 1, d_fixed = Some 1, decode = bool_decode\<rparr>"

definition u8_enc :: "u8 encoder" where
  "u8_enc = \<lparr>e_alignment = 1, e_fixed = Some 1, encode = u8_encode\<rparr>"

definition u8_dec :: "u8 decoder" where
  "u8_dec = \<lparr>d_alignment = 1, d_fixed = Some 1, decode = u8_decode\<rparr>"

definition u32_enc :: "u32 encoder" where
  "u32_enc = \<lparr>e_alignment = 4, e_fixed = Some 4, encode = u32_encode\<rparr>"

definition u32_dec :: "u32 decoder" where
  "u32_dec = \<lparr>d_alignment = 4, d_fixed = Some 4, decode = u32_decode\<rparr>"

definition u64_enc :: "u64 encoder" where
  "u64_enc = \<lparr>e_alignment = 8, e_fixed = Some 8, encode = u64_encode\<rparr>"

definition u64_dec :: "u64 decoder" where
  "u64_dec = \<lparr>d_alignment = 8, d_fixed = Some 8, decode = u64_decode\<rparr>"

definition str_enc :: "bytes encoder" where
  "str_enc = \<lparr>e_alignment = 1, e_fixed = None, encode = str_encode\<rparr>"

definition str_dec :: "bytes decoder" where
  "str_dec = \<lparr>d_alignment = 1, d_fixed = None, decode = str_decode\<rparr>"

text \<open>\<open>String\<close> writes the same bytes as \<open>&str\<close>.\<close>

definition string_enc :: "bytes encoder" where
  "string_enc = \<lparr>e_alignment = 1, e_fixed = None, encode = (\<lambda>s out. str_encode s out)\<rparr>"

definition bytes_enc :: "bytes encoder" where
  "bytes_enc = \<lparr>e_alignment = 1, e_fixed = None, encode = bytes_encode\<rparr>"

definition bytes_dec :: "bytes decoder" where
  "bytes_dec = \<lparr>d_alignment = 1, d_fixed = None, decode = bytes_decode\<rparr>"

subsection \<open>Arrays\<close>

definition array_iter_dec :: "'a decoder \<Rightarrow> array_reader decoder" where
  "array_iter_dec d = \<lparr>d_alignment = d_alignment d, d_fixed = None,
     decode = (\<lambda>data. array_reader_new data (d_alignment d) (d_fixed d))\<rparr>"

definition array_iter_enc :: "'a decoder \<Rightarrow> array_reader encoder" where
  "array_iter_enc d = \<lparr>e_alignment = d_alignment d, e_fixed = None,
     encode = (\<lambda>r out. Ok (out @ ar_data r))\<rparr>"

text \<open>\<open>ArrayIter::next\<close>, and the collection of all items that stops at the first error.\<close>

definition array_iter_next ::
  "'a decoder \<Rightarrow> array_reader \<Rightarrow> ((gv_error, 'a) result \<times> array_reader) option" where
  "array_iter_next d r =
     (case next_slice r of
        None \<Rightarrow> None
      | Some (Ok sl, r) \<Rightarrow> Some (decode d sl, r)
      | Some (Err e, r) \<Rightarrow> Some (Err e, r))"

definition array_iter_collect :: "'a decoder \<Rightarrow> array_reader \<Rightarrow> (gv_error, 'a list) result" where
  "array_iter_collect d r = read_elems (decode d) r"

definition slice_enc :: "'a encoder \<Rightarrow> 'a list encoder" where
  "slice_enc e = \<lparr>e_alignment = e_alignment e, e_fixed = None,
     encode = (\<lambda>xs out. write_array out (e_alignment e) (e_fixed e \<noteq> None) (length xs)
       (\<lambda>out i. encode e (xs ! i) out))\<rparr>"

subsection \<open>Variants\<close>

record variant_view =
  vv_ty :: gty
  vv_child :: bytes
  vv_signature :: bytes
  vv_value :: gvalue

definition variant_dec :: "variant_view decoder" where
  "variant_dec = \<lparr>d_alignment = 8, d_fixed = None,
     decode = (\<lambda>data.
       andthen (split_variant data) (\<lambda>(child, sig, ty).
         andthen (from_bytes ty child) (\<lambda>value.
           Ok \<lparr>vv_ty = ty, vv_child = child, vv_signature = sig, vv_value = value\<rparr>)))\<rparr>"

definition variant_enc :: "variant_view encoder" where
  "variant_enc = \<lparr>e_alignment = 8, e_fixed = None,
     encode = (\<lambda>v out. Ok (out @ vv_child v @ [0] @ vv_signature v))\<rparr>"

record variant_bytes =
  vb_child :: bytes
  vb_signature :: bytes

definition variant_bytes_enc :: "variant_bytes encoder" where
  "variant_bytes_enc = \<lparr>e_alignment = 8, e_fixed = None,
     encode = (\<lambda>v out. Ok (out @ vb_child v @ [0] @ vb_signature v))\<rparr>"

definition variant_bytes_dec :: "variant_bytes decoder" where
  "variant_bytes_dec = \<lparr>d_alignment = 8, d_fixed = None,
     decode = (\<lambda>data.
       case rposition (\<lambda>b. b = 0) data of
         None \<Rightarrow> Err (NotNormal ''variant lacks a type separator'')
       | Some sep \<Rightarrow>
           if utf8_valid (drop (sep + 1) data)
           then Ok \<lparr>vb_child = take sep data, vb_signature = drop (sep + 1) data\<rparr>
           else Err (NotNormal ''variant type signature is not UTF-8''))\<rparr>"

subsection \<open>Tuples\<close>

fun max_align_from :: "nat \<Rightarrow> nat list \<Rightarrow> nat" where
  "max_align_from m [] = m"
| "max_align_from m (a # as) = max_align_from (if a > m then a else m) as"

definition max_align :: "nat list \<Rightarrow> nat" where
  "max_align aligns = max_align_from 1 aligns"

fun struct_fixed_size_from :: "nat \<Rightarrow> (nat \<times> nat option) list \<Rightarrow> nat option" where
  "struct_fixed_size_from sz [] = Some sz"
| "struct_fixed_size_from sz ((al, fixed) # ms) =
     (case fixed of
        Some f \<Rightarrow> struct_fixed_size_from (align_up sz al + f) ms
      | None \<Rightarrow> None)"

definition struct_fixed_size :: "(nat \<times> nat option) list \<Rightarrow> nat \<Rightarrow> nat option" where
  "struct_fixed_size members whole_align =
     (if members = [] then Some 1
      else map_option (\<lambda>sz. align_up sz whole_align) (struct_fixed_size_from 0 members))"

text \<open>
  The members of a tuple type: for the encoder the layouts and the list of member writers
  of a value, for the decoder the layouts and the reads in order. A tuple
  \<open>(A, B, C)\<close> is \<open>member A (member B (last_member C))\<close>.
\<close>

record 'a enc_body =
  eb_lays :: "(nat \<times> nat option) list"
  eb_fields :: "'a \<Rightarrow> (nat \<times> nat option \<times> (bytes \<Rightarrow> (gv_error, bytes) result)) list"

definition enc_last :: "'a encoder \<Rightarrow> 'a enc_body" where
  "enc_last e = \<lparr>eb_lays = [e_lay e], eb_fields = (\<lambda>x. [(e_alignment e, e_fixed e, encode e x)])\<rparr>"

definition enc_member :: "'a encoder \<Rightarrow> 'b enc_body \<Rightarrow> ('a \<times> 'b) enc_body" where
  "enc_member e b = \<lparr>eb_lays = e_lay e # eb_lays b,
     eb_fields = (\<lambda>(x, y). (e_alignment e, e_fixed e, encode e x) # eb_fields b y)\<rparr>"

definition tuple_enc :: "'a enc_body \<Rightarrow> 'a encoder" where
  "tuple_enc b =
     (let al = max_align (map fst (eb_lays b)); fs = struct_fixed_size (eb_lays b) al in
      \<lparr>e_alignment = al, e_fixed = fs,
       encode = (\<lambda>v out.
         andthen (write_fields (tuple_writer_new out) (eb_fields b v)) (\<lambda>w.
           Ok (tuple_writer_finish w fs)))\<rparr>)"

record 'a dec_body =
  db_lays :: "(nat \<times> nat option) list"
  db_read :: "tuple_reader \<Rightarrow> (gv_error, 'a \<times> tuple_reader) result"

definition dec_last :: "'a decoder \<Rightarrow> 'a dec_body" where
  "dec_last d = \<lparr>db_lays = [d_lay d],
     db_read = (\<lambda>r. andthen (tuple_field r (d_alignment d) (d_fixed d) True) (\<lambda>(s, r).
       andthen (decode d s) (\<lambda>x. Ok (x, r))))\<rparr>"

definition dec_member :: "'a decoder \<Rightarrow> 'b dec_body \<Rightarrow> ('a \<times> 'b) dec_body" where
  "dec_member d b = \<lparr>db_lays = d_lay d # db_lays b,
     db_read = (\<lambda>r. andthen (tuple_field r (d_alignment d) (d_fixed d) False) (\<lambda>(s, r).
       andthen (decode d s) (\<lambda>x.
         andthen (db_read b r) (\<lambda>(y, r). Ok ((x, y), r)))))\<rparr>"

definition tuple_dec :: "'a dec_body \<Rightarrow> 'a decoder" where
  "tuple_dec b =
     (let al = max_align (map fst (db_lays b)); fs = struct_fixed_size (db_lays b) al in
      \<lparr>d_alignment = al, d_fixed = fs,
       decode = (\<lambda>data.
         andthen (tuple_reader_new data (n_offsets_of (db_lays b)) fs) (\<lambda>r.
           andthen (db_read b r) (\<lambda>(v, r).
             andthen (tuple_reader_finish r) (\<lambda>_. Ok v))))\<rparr>)"

subsection \<open>The contracts of the codec traits\<close>

lemma max_align_from_eq: "max_align_from m as = fold max as m"
  by (induction m as rule: max_align_from.induct) (auto simp: max_def intro!: arg_cong [where f = "fold max _"])

lemma max_align_eq: "max_align as = max_alignment as"
  by (simp add: max_align_def max_alignment_def max_align_from_eq)

lemma struct_fixed_size_from_eq: "struct_fixed_size_from sz ms = struct_size ms sz"
  by (induction sz ms rule: struct_fixed_size_from.induct) (auto split: option.splits)

text \<open>The constant \<open>FIXED_SIZE\<close> of a tuple impl is the fixed size of the structure.\<close>

lemma struct_fixed_size_eq: "struct_fixed_size ms (max_align (map fst ms)) = struct_fixed ms"
  by (simp add: struct_fixed_size_def struct_fixed_def max_align_eq struct_fixed_size_from_eq)

definition lay_good :: "nat \<times> nat option \<Rightarrow> bool" where
  "lay_good l \<longleftrightarrow> is_align (fst l) \<and> (\<forall>k. snd l = Some k \<longrightarrow> 0 < k \<and> fst l dvd k)"

lemma lay_good_struct:
  assumes "\<forall>l \<in> set ls. lay_good l"
  shows "lay_good (max_alignment (map fst ls), struct_fixed ls)"
proof -
  define ms where "ms = map (\<lambda>(al, fs). layout_new fs al) ls"
  have ls: "ls = map lay_pair ms" by (simp add: ms_def layout_new_def comp_def case_prod_unfold)
  have "\<forall>m \<in> set ms. lay_ok m" using assms by (auto simp: ms_def lay_good_def lay_ok_def layout_new_def)
  from lay_ok_of_struct [OF this] show ?thesis
    unfolding lay_ok_def of_struct_alignment of_struct_fixed
    by (simp add: lay_good_def struct_fixed_def ls comp_def max_alignment_def)
qed

text \<open>The contract of \<open>GvEncode\<close>.\<close>

locale gv_encode =
  fixes e :: "'a encoder"
  assumes e_good: "lay_good (e_lay e)"
    and e_pos: "pos_indep (e_alignment e) (encode e v)"
    and e_len: "encode e v [] = Ok bs \<Longrightarrow> e_fixed e = Some k \<Longrightarrow> length bs = k"
begin

lemma e_align: "is_align (e_alignment e)"
  using e_good by (simp add: lay_good_def)

lemma e_append: "e_alignment e dvd length out \<Longrightarrow> encode e v out = map_ok (\<lambda>bs. out @ bs) (encode e v [])"
  by (rule pos_indepD [OF e_pos])

lemma slice_eq:
  assumes "e_alignment e dvd length out"
  shows "encode (slice_enc e) xs out =
    map_ok (\<lambda>ss. out @ array_bytes (e_alignment e) (e_fixed e \<noteq> None) ss)
      (try_map (\<lambda>x. encode e x []) xs)"
proof -
  have dv: "e_alignment e dvd length bs" if "e_fixed e \<noteq> None" "encode e v [] = Ok bs" for v bs
    using that e_len e_good by (auto simp: lay_good_def)
  have "try_map (\<lambda>i. encode e (xs ! i) []) [0..<length xs] = try_map (\<lambda>x. encode e x []) xs"
    using try_map_map [of "\<lambda>x. encode e x []" "\<lambda>i. xs ! i" "[0..<length xs]"] by (simp add: map_nth)
  then show ?thesis
    unfolding slice_enc_def using e_pos e_align dv assms by (simp, subst write_array_eq) auto
qed

lemma gv_encode_slice: "gv_encode (slice_enc e)"
proof
  show "lay_good (e_lay (slice_enc e))" using e_align by (simp add: slice_enc_def lay_good_def)
  show "pos_indep (e_alignment (slice_enc e)) (encode (slice_enc e) xs)" for xs
  proof (rule pos_indepI [where m = "map_ok (array_bytes (e_alignment e) (e_fixed e \<noteq> None))
          (try_map (\<lambda>x. encode e x []) xs)"])
    fix out :: bytes assume "e_alignment (slice_enc e) dvd length out"
    then have "e_alignment e dvd length out" by (simp add: slice_enc_def)
    then show "encode (slice_enc e) xs out = map_ok (\<lambda>bs. out @ bs)
        (map_ok (array_bytes (e_alignment e) (e_fixed e \<noteq> None)) (try_map (\<lambda>x. encode e x []) xs))"
      by (simp add: slice_eq)
  qed
qed (simp add: slice_enc_def)

end


text \<open>The contract of \<open>GvDecode\<close>, and of a type that implements both traits.\<close>

locale gv_decode =
  fixes d :: "'a decoder"
  assumes d_good: "lay_good (d_lay d)"
begin

lemma collect_slices:
  "(\<exists>r. decode (array_iter_dec d) data = Ok r \<and> array_iter_collect d r = Ok xs) \<longleftrightarrow>
    (\<exists>ss. array_slices data (d_alignment d) (d_fixed d) = Ok ss \<and>
       list_all2 (\<lambda>s x. decode d s = Ok x) ss xs)"
  unfolding array_iter_dec_def array_iter_collect_def array_slices_def
  by (auto simp: result_simps read_elems_slices [of "decode d"])

end

locale gv_codec = gv_encode e + gv_decode d for e :: "'a encoder" and d :: "'a decoder" +
  fixes ok :: "'a \<Rightarrow> bool"
  assumes same_lay: "d_lay d = e_lay e"
    and dec_iff: "length data < usize_bound \<Longrightarrow> decode d data = Ok v \<longleftrightarrow> ok v \<and> encode e v [] = Ok data"
begin

lemma collect_iff:
  assumes "length data < usize_bound"
  shows "(\<exists>r. decode (array_iter_dec d) data = Ok r \<and> array_iter_collect d r = Ok xs) \<longleftrightarrow>
    (\<forall>x \<in> set xs. ok x) \<and> encode (slice_enc e) xs [] = Ok data"
proof -
  let ?al = "e_alignment e" and ?fs = "e_fixed e"
  have lay: "d_alignment d = ?al" "d_fixed d = ?fs" using same_lay by auto
  have "(\<exists>ss. array_slices data ?al ?fs = Ok ss \<and> list_all2 (\<lambda>s x. decode d s = Ok x) ss xs) \<longleftrightarrow>
      (\<exists>ss. (\<forall>s \<in> set ss. \<forall>k. ?fs = Some k \<longrightarrow> length s = k) \<and>
      data = array_bytes ?al (?fs \<noteq> None) ss \<and> list_all2 (\<lambda>s x. decode d s = Ok x) ss xs)"
    using array_slices_iff [of ?al ?fs data] e_good assms by (auto simp: lay_good_def)
  also have "\<dots> \<longleftrightarrow> (\<exists>ss. data = array_bytes ?al (?fs \<noteq> None) ss \<and>
      (\<forall>v \<in> set xs. ok v) \<and> list_all2 (\<lambda>x s. encode e x [] = Ok s) xs ss)"
  proof (rule iff_exI)
    fix ss
    have "list_all2 (\<lambda>s x. decode d s = Ok x) ss xs \<longleftrightarrow>
        (\<forall>v \<in> set xs. ok v) \<and> list_all2 (\<lambda>x s. encode e x [] = Ok s) xs ss"
      if "data = array_bytes ?al (?fs \<noteq> None) ss"
    proof (rule list_all2_cong_flip)
      fix s x assume "s \<in> set ss"
      then have "length s < usize_bound"
        using length_array_bytes [OF e_align, of s ss "?fs \<noteq> None"] assms that by (simp add: le_less_trans)
      then show "decode d s = Ok x \<longleftrightarrow> ok x \<and> encode e x [] = Ok s" by (rule dec_iff)
    qed
    moreover have "length s = k"
      if "list_all2 (\<lambda>x s. encode e x [] = Ok s) xs ss" "s \<in> set ss" "?fs = Some k" for s k
      using that e_len by (blast dest: list_all2_in_right)
    ultimately show "(\<forall>s \<in> set ss. \<forall>k. ?fs = Some k \<longrightarrow> length s = k) \<and>
      data = array_bytes ?al (?fs \<noteq> None) ss \<and> list_all2 (\<lambda>s x. decode d s = Ok x) ss xs \<longleftrightarrow>
      data = array_bytes ?al (?fs \<noteq> None) ss \<and>
      (\<forall>v \<in> set xs. ok v) \<and> list_all2 (\<lambda>x s. encode e x [] = Ok s) xs ss" by blast
  qed
  also have "\<dots> \<longleftrightarrow> (\<forall>x \<in> set xs. ok x) \<and> encode (slice_enc e) xs [] = Ok data"
    by (auto simp: slice_eq result_simps)
  finally show ?thesis unfolding collect_slices lay .
qed

lemma gv_codec_array_iter:
  "gv_codec (array_iter_enc d) (array_iter_dec d)
     (\<lambda>r. array_reader_new (ar_data r) (d_alignment d) (d_fixed d) = Ok r)"
proof
  show "pos_indep (e_alignment (array_iter_enc d)) (encode (array_iter_enc d) r)" for r
    by (simp add: array_iter_enc_def pos_indep_append)
  have "ar_data r = data" if "array_reader_new data al fs = Ok r" for data al fs r
    using that by (auto simp: array_reader_new_def Let_def split: if_splits option.splits)
  then show "length data < usize_bound \<Longrightarrow> decode (array_iter_dec d) data = Ok r \<longleftrightarrow>
      array_reader_new (ar_data r) (d_alignment d) (d_fixed d) = Ok r \<and>
      encode (array_iter_enc d) r [] = Ok data" for data r
    by (auto simp: array_iter_enc_def array_iter_dec_def)
qed (use d_good in \<open>auto simp: array_iter_enc_def array_iter_dec_def lay_good_def\<close>)

end


text \<open>The members of a tuple encoder.\<close>

locale enc_members =
  fixes b :: "'a enc_body"
  assumes eb_ne: "eb_lays b \<noteq> []"
    and eb_good: "\<forall>l \<in> set (eb_lays b). lay_good l"
    and eb_lay: "field_layouts (eb_fields b v) = eb_lays b"
    and eb_pos: "\<forall>(al, fs, wr) \<in> set (eb_fields b v). pos_indep al wr"
    and eb_len: "run_fields (eb_fields b v) = Ok ss \<Longrightarrow> sizes_ok (eb_lays b) ss"
begin

lemma tuple_enc_lay [simp]:
  "e_alignment (tuple_enc b) = max_alignment (map fst (eb_lays b))"
  "e_fixed (tuple_enc b) = struct_fixed (eb_lays b)"
  by (simp_all add: tuple_enc_def Let_def max_align_eq struct_fixed_size_eq [unfolded max_align_eq])

lemma tuple_enc_eq:
  assumes "max_alignment (map fst (eb_lays b)) dvd length out"
  shows "encode (tuple_enc b) v out =
    map_ok (\<lambda>ss. out @ struct_bytes (struct_fixed (eb_lays b)) (with_bytes (eb_lays b) ss))
      (run_fields (eb_fields b v))"
proof -
  have "al dvd length out" "is_align al" if "(al, fs, wr) \<in> set (eb_fields b v)" for al fs wr
  proof -
    have mem: "(al, fs) \<in> set (eb_lays b)" using that unfolding eb_lay [of v, symmetric] by force
    have "\<forall>a \<in> set (map fst (eb_lays b)). is_align a" using eb_good by (auto simp: lay_good_def)
    with mem show "is_align al" "al dvd length out"
      using max_alignment_dvd [of "map fst (eb_lays b)" al] assms dvd_trans by force+
  qed
  then have al: "\<forall>(al, fs, wr) \<in> set (eb_fields b v). is_align al \<and> al dvd length out \<and> pos_indep al wr"
    using eb_pos [of v] by auto
  have "encode (tuple_enc b) v out = tuple_encode (struct_fixed (eb_lays b)) (eb_fields b v) out"
    by (simp add: tuple_enc_def Let_def tuple_encode_def andthen_Ok_map struct_fixed_size_eq)
  then show ?thesis using tuple_encode_eq [OF al] by (simp add: eb_lay)
qed

lemma gv_encode_tuple: "gv_encode (tuple_enc b)"
proof
  show "lay_good (e_lay (tuple_enc b))" using lay_good_struct [OF eb_good] by simp
  show "pos_indep (e_alignment (tuple_enc b)) (encode (tuple_enc b) v)" for v
    by (rule pos_indepI [where m = "map_ok (\<lambda>ss. struct_bytes (struct_fixed (eb_lays b))
        (with_bytes (eb_lays b) ss)) (run_fields (eb_fields b v))"]) (simp add: tuple_enc_eq)
  show "encode (tuple_enc b) v [] = Ok bs \<Longrightarrow> e_fixed (tuple_enc b) = Some k \<Longrightarrow> length bs = k" for v bs k
    by (auto simp: tuple_enc_eq result_simps length_struct_bytes_fixed)
qed

end

lemma enc_members_last: "gv_encode e \<Longrightarrow> enc_members (enc_last e)"
  by (auto simp: enc_members_def enc_last_def gv_encode_def sizes_ok_def result_simps list_all2_Cons1)

lemma enc_members_member:
  fixes e :: "'a encoder" and b :: "'b enc_body"
  assumes e: "gv_encode e" and b: "enc_members b"
  shows "enc_members (enc_member e b)"
proof
  fix v :: "'a \<times> 'b" and ss
  obtain x y where v: "v = (x, y)" by (cases v)
  show "eb_lays (enc_member e b) \<noteq> []" by (simp add: enc_member_def)
  show "\<forall>l \<in> set (eb_lays (enc_member e b)). lay_good l"
    using gv_encode.e_good [OF e] enc_members.eb_good [OF b] by (simp add: enc_member_def)
  show "field_layouts (eb_fields (enc_member e b) v) = eb_lays (enc_member e b)"
    using enc_members.eb_lay [OF b] by (simp add: enc_member_def v)
  show "\<forall>(al, fs, wr) \<in> set (eb_fields (enc_member e b) v). pos_indep al wr"
    using enc_members.eb_pos [OF b] gv_encode.e_pos [OF e] by (simp add: enc_member_def v)
  show "run_fields (eb_fields (enc_member e b) v) = Ok ss \<Longrightarrow> sizes_ok (eb_lays (enc_member e b)) ss"
    using enc_members.eb_len [OF b, of y] gv_encode.e_len [OF e]
    by (auto simp: enc_member_def v result_simps sizes_ok_def list_all2_Cons1)
qed

text \<open>
  The members of a tuple decoder: \<open>parts ss v\<close> states that the member slices \<open>ss\<close> decode to
  \<open>v\<close>.
\<close>

locale dec_members =
  fixes b :: "'a dec_body" and parts :: "bytes list \<Rightarrow> 'a \<Rightarrow> bool"
  assumes db_ne: "db_lays b \<noteq> []"
    and db_good: "\<forall>l \<in> set (db_lays b). lay_good l"
    and db_iff: "db_read b r = Ok (v, r') \<longleftrightarrow> (\<exists>ss. read_slices r (db_lays b) = Ok (ss, r') \<and> parts ss v)"
begin

lemma tuple_dec_lay [simp]:
  "d_alignment (tuple_dec b) = max_alignment (map fst (db_lays b))"
  "d_fixed (tuple_dec b) = struct_fixed (db_lays b)"
  by (simp_all add: tuple_dec_def Let_def max_align_eq struct_fixed_size_eq [unfolded max_align_eq])

lemma tuple_dec_iff:
  assumes "length data < usize_bound"
  shows "decode (tuple_dec b) data = Ok v \<longleftrightarrow>
    (\<exists>ss. sizes_ok (db_lays b) ss \<and>
       data = struct_bytes (struct_fixed (db_lays b)) (with_bytes (db_lays b) ss) \<and> parts ss v)"
proof -
  have al: "\<forall>l \<in> set (db_lays b). is_align (fst l)" using db_good by (simp add: lay_good_def)
  have "decode (tuple_dec b) data = Ok v \<longleftrightarrow>
      (\<exists>ss. tuple_slices data (struct_fixed (db_lays b)) (db_lays b) = Ok ss \<and> parts ss v)"
    by (auto simp: tuple_dec_def tuple_slices_def Let_def struct_fixed_size_eq result_simps db_iff; blast)
  then show ?thesis using tuple_slices_iff [OF al assms] by auto
qed

lemma gv_decode_tuple: "gv_decode (tuple_dec b)"
  by unfold_locales (use lay_good_struct [OF db_good] in simp)

end

definition parts_last :: "'a decoder \<Rightarrow> bytes list \<Rightarrow> 'a \<Rightarrow> bool" where
  "parts_last d ss v \<longleftrightarrow> (\<exists>s. ss = [s] \<and> decode d s = Ok v)"

definition parts_member ::
  "'a decoder \<Rightarrow> (bytes list \<Rightarrow> 'b \<Rightarrow> bool) \<Rightarrow> bytes list \<Rightarrow> 'a \<times> 'b \<Rightarrow> bool" where
  "parts_member d p ss v \<longleftrightarrow> (\<exists>s ts. ss = s # ts \<and> decode d s = Ok (fst v) \<and> p ts (snd v))"

lemma dec_members_last: "gv_decode d \<Longrightarrow> dec_members (dec_last d) (parts_last d)"
  by (auto simp: dec_members_def dec_last_def gv_decode_def parts_last_def result_simps)

lemma dec_members_member:
  fixes d :: "'a decoder" and b :: "'b dec_body"
  assumes d: "gv_decode d" and b: "dec_members b p"
  shows "dec_members (dec_member d b) (parts_member d p)"
proof
  show "db_lays (dec_member d b) \<noteq> []" by (simp add: dec_member_def)
  show "\<forall>l \<in> set (db_lays (dec_member d b)). lay_good l"
    using gv_decode.d_good [OF d] dec_members.db_good [OF b] by (simp add: dec_member_def)
  fix r and v :: "'a \<times> 'b" and r'
  obtain x y where v: "v = (x, y)" by (cases v)
  show "db_read (dec_member d b) r = Ok (v, r') \<longleftrightarrow>
      (\<exists>ss. read_slices r (db_lays (dec_member d b)) = Ok (ss, r') \<and> parts_member d p ss v)"
    using dec_members.db_ne [OF b]
    by (fastforce simp: dec_member_def v parts_member_def result_simps dec_members.db_iff [OF b])
qed

text \<open>The members of a tuple type that implements both traits.\<close>

locale codec_members = enc_members eb + dec_members db parts
  for eb :: "'a enc_body" and db :: "'a dec_body" and parts +
  fixes ok :: "'a \<Rightarrow> bool"
  assumes same_lays: "db_lays db = eb_lays eb"
    and parts_iff: "\<forall>s \<in> set ss. length s < usize_bound \<Longrightarrow>
      parts ss v \<longleftrightarrow> ok v \<and> run_fields (eb_fields eb v) = Ok ss"
begin

lemma gv_codec_tuple: "gv_codec (tuple_enc eb) (tuple_dec db) ok"
proof -
  let ?ls = "eb_lays eb"
  have al: "\<forall>l \<in> set ?ls. is_align (fst l)" using eb_good by (simp add: lay_good_def)
  have iff: "decode (tuple_dec db) data = Ok v \<longleftrightarrow> ok v \<and> encode (tuple_enc eb) v [] = Ok data"
    if len: "length data < usize_bound" for data v
  proof -
    have "parts ss v \<longleftrightarrow> ok v \<and> run_fields (eb_fields eb v) = Ok ss"
      if "sizes_ok ?ls ss" "data = struct_bytes (struct_fixed ?ls) (with_bytes ?ls ss)" for ss
    proof (rule parts_iff, rule ballI)
      fix s assume "s \<in> set ss"
      then have "length s \<le> length data"
        using length_struct_body [OF al sizes_ok_length [OF that(1)], of s "[]"]
          struct_body_le [OF al that(1)] that(2) by simp
      then show "length s < usize_bound" using len by simp
    qed
    then show ?thesis
      using tuple_dec_iff [OF len, of v] tuple_enc_eq [of "[]" v] eb_len [of v]
      by (auto simp: same_lays result_simps)
  qed
  show ?thesis
    using gv_encode_tuple gv_decode_tuple iff
    by (simp add: gv_codec_def gv_codec_axioms_def same_lays)
qed

end


lemma codec_members_last:
  assumes "gv_codec e d okv"
  shows "codec_members (enc_last e) (dec_last d) (parts_last d) okv"
proof -
  have e: "gv_encode e" and d: "gv_decode d" using assms by (simp_all add: gv_codec_def)
  show ?thesis
    unfolding codec_members_def codec_members_axioms_def
    using enc_members_last [OF e] dec_members_last [OF d] gv_codec.same_lay [OF assms] gv_codec.dec_iff [OF assms]
    by (auto simp: enc_last_def dec_last_def parts_last_def result_simps list_all2_Cons1)
qed

lemma codec_members_member:
  assumes c: "gv_codec e d okv" and b: "codec_members eb db p okb"
  shows "codec_members (enc_member e eb) (dec_member d db) (parts_member d p) (\<lambda>(x, y). okv x \<and> okb y)"
proof -
  have e: "gv_encode e" and d: "gv_decode d" using c by (simp_all add: gv_codec_def)
  have eb: "enc_members eb" and db: "dec_members db p" using b by (simp_all add: codec_members_def)
  have "parts_member d p ss v \<longleftrightarrow>
      (case v of (x, y) \<Rightarrow> okv x \<and> okb y) \<and> run_fields (eb_fields (enc_member e eb) v) = Ok ss"
    if "\<forall>s \<in> set ss. length s < usize_bound" for ss v
    using that gv_codec.dec_iff [OF c] codec_members.parts_iff [OF b]
    by (cases v; cases ss) (auto simp: parts_member_def enc_member_def result_simps)
  then show ?thesis
    unfolding codec_members_def codec_members_axioms_def
    using enc_members_member [OF e eb] dec_members_member [OF d db] gv_codec.same_lay [OF c] codec_members.same_lays [OF b]
    by (auto simp: enc_member_def dec_member_def)
qed

lemma codec_tuple2:
  "gv_codec e1 d1 ok1 \<Longrightarrow> gv_codec e2 d2 ok2 \<Longrightarrow>
    gv_codec (tuple_enc (enc_member e1 (enc_last e2))) (tuple_dec (dec_member d1 (dec_last d2)))
      (\<lambda>(x, y). ok1 x \<and> ok2 y)"
  by (rule codec_members.gv_codec_tuple) (rule codec_members_member [OF _ codec_members_last])

lemma codec_tuple3:
  "gv_codec e1 d1 ok1 \<Longrightarrow> gv_codec e2 d2 ok2 \<Longrightarrow> gv_codec e3 d3 ok3 \<Longrightarrow>
    gv_codec (tuple_enc (enc_member e1 (enc_member e2 (enc_last e3))))
      (tuple_dec (dec_member d1 (dec_member d2 (dec_last d3))))
      (\<lambda>(x, y). ok1 x \<and> (case y of (y, z) \<Rightarrow> ok2 y \<and> ok3 z))"
  by (rule codec_members.gv_codec_tuple)
    (rule codec_members_member [OF _ codec_members_member [OF _ codec_members_last]])

subsection \<open>The impls keep the contracts\<close>

lemma lay_good_scalar: "k \<in> {1, 2, 4, 8} \<Longrightarrow> lay_good (k, Some k)" "k \<in> {1, 2, 4, 8} \<Longrightarrow> lay_good (k, None)"
  by (auto simp: lay_good_def is_align_def)

lemmas leaf_codec_simps = lay_good_scalar leaf_pos_indep leaf_decode leaf_defs

interpretation bool_c: gv_codec bool_enc bool_dec "\<lambda>_. True"
  by unfold_locales (auto simp: bool_enc_def bool_dec_def leaf_codec_simps)

interpretation u8_c: gv_codec u8_enc u8_dec "\<lambda>_. True"
  by unfold_locales (auto simp: u8_enc_def u8_dec_def leaf_codec_simps)

interpretation u32_c: gv_codec u32_enc u32_dec "\<lambda>_. True"
  by unfold_locales (auto simp: u32_enc_def u32_dec_def leaf_codec_simps)

interpretation u64_c: gv_codec u64_enc u64_dec "\<lambda>_. True"
  by unfold_locales (auto simp: u64_enc_def u64_dec_def leaf_codec_simps)

interpretation str_c: gv_codec str_enc str_dec utf8_valid
  by unfold_locales (auto simp: str_enc_def str_dec_def leaf_codec_simps)

interpretation bytes_c: gv_codec bytes_enc bytes_dec "\<lambda>_. True"
  by unfold_locales (auto simp: bytes_enc_def bytes_dec_def leaf_codec_simps)

interpretation variant_c: gv_codec variant_enc variant_dec
  "\<lambda>v. vv_signature v = signature (vv_ty v) \<and> sig_ok 0 (vv_ty v) \<and>
       from_bytes (vv_ty v) (vv_child v) = Ok (vv_value v)"
proof unfold_locales
  fix data :: bytes and v assume "length data < usize_bound"
  show "decode variant_dec data = Ok v \<longleftrightarrow>
      (vv_signature v = signature (vv_ty v) \<and> sig_ok 0 (vv_ty v) \<and>
       from_bytes (vv_ty v) (vv_child v) = Ok (vv_value v)) \<and> encode variant_enc v [] = Ok data"
    by (cases v) (auto simp: variant_dec_def variant_enc_def result_simps split_variant_Ok)
qed (auto simp: variant_enc_def variant_dec_def lay_good_scalar pos_indep_append)

interpretation variant_bytes_c: gv_codec variant_bytes_enc variant_bytes_dec
  "\<lambda>v. 0 \<notin> set (vb_signature v) \<and> utf8_valid (vb_signature v)"
proof unfold_locales
  fix data :: bytes and v assume "length data < usize_bound"
  have split: "data = take i data @ 0 # drop (Suc i) data" if "i < length data" "data ! i = 0" for i
    using id_take_nth_drop [OF that(1)] that(2) by simp
  show "decode variant_bytes_dec data = Ok v \<longleftrightarrow>
      (0 \<notin> set (vb_signature v) \<and> utf8_valid (vb_signature v)) \<and> encode variant_bytes_enc v [] = Ok data"
  proof
    assume "decode variant_bytes_dec data = Ok v"
    then show "(0 \<notin> set (vb_signature v) \<and> utf8_valid (vb_signature v)) \<and> encode variant_bytes_enc v [] = Ok data"
      using split by (auto simp: variant_bytes_dec_def variant_bytes_enc_def rposition_Some
          split: option.splits if_splits)
  next
    assume a: "(0 \<notin> set (vb_signature v) \<and> utf8_valid (vb_signature v)) \<and> encode variant_bytes_enc v [] = Ok data"
    then have "rposition (\<lambda>b. b = 0) data = Some (length (vb_child v))"
      by (auto simp: variant_bytes_enc_def intro!: rposition_append_sep)
    then show "decode variant_bytes_dec data = Ok v"
      using a by (auto simp: variant_bytes_dec_def variant_bytes_enc_def)
  qed
qed (auto simp: variant_bytes_enc_def variant_bytes_dec_def lay_good_scalar pos_indep_append)

interpretation string_e: gv_encode string_enc
  by unfold_locales (auto simp: string_enc_def leaf_codec_simps pos_indep_def)

subsection \<open>The typed encoder writes the bytes of the dynamic serializer\<close>

text \<open>
  \<open>typed_as e ty val h\<close>: the encoder \<open>e\<close> writes for \<open>v\<close> what \<open>serialize\<close> writes for the value
  \<open>val v\<close> of type \<open>ty\<close>, errors included. The value nests at most \<open>h\<close> levels deep, so the
  depth limit does not apply while \<open>h\<close> levels are left.
\<close>

locale typed_as = gv_encode e for e :: "'a encoder" +
  fixes ty :: gty and val :: "'a \<Rightarrow> gvalue" and h :: nat
  assumes ty_lay: "e_lay e = gty_lay ty"
    and ty_eq: "depth + h \<le> MAX_VALUE_DEPTH \<Longrightarrow> serialize [] ty (val v) depth = encode e v []"
begin

lemma to_bytes_eq: "h \<le> MAX_VALUE_DEPTH \<Longrightarrow> to_bytes ty (val v) = encode_to_vec e v"
  using ty_eq [of 0 v] by (simp add: to_bytes_def encode_to_vec_def)

lemma typed_as_slice:
  assumes "ty \<noteq> TByte"
  shows "typed_as (slice_enc e) (TArray ty) (\<lambda>xs. VArray (map val xs)) (Suc h)"
proof -
  have "serialize [] (TArray ty) (VArray (map val xs)) depth = encode (slice_enc e) xs []"
    if "depth + Suc h \<le> MAX_VALUE_DEPTH" for depth xs
  proof -
    have "try_map (\<lambda>v. serialize [] ty v (Suc depth)) (map val xs) = try_map (\<lambda>x. encode e x []) xs"
      using that ty_eq [of "Suc depth"] by (simp add: try_map_map)
    then show ?thesis
      using that assms ty_lay vw.array_eq [of ty "[]" "Suc depth" "map val xs"] slice_eq [of "[]" xs]
      by (simp add: serialize.simps [of "[]" "TArray ty"])
  qed
  then show ?thesis
    using gv_encode_slice ty_lay by (simp add: typed_as_def typed_as_axioms_def slice_enc_def)
qed

end

locale typed_members = enc_members b for b :: "'a enc_body" +
  fixes tys :: "gty list" and vals :: "'a \<Rightarrow> gvalue list" and h :: nat
  assumes tys_lay: "eb_lays b = map gty_lay tys"
    and vals_len: "length (vals v) = length tys"
    and vals_eq: "depth + h \<le> MAX_VALUE_DEPTH \<Longrightarrow>
      try_map (\<lambda>(m, x). serialize [] m x depth) (zip tys (vals v)) = run_fields (eb_fields b v)"
begin

lemma struct_eq_tuple:
  assumes "gty_layout whole = of_struct (map gty_layout tys)" and "depth + h \<le> MAX_VALUE_DEPTH"
  shows "serialize_struct (\<lambda>buf ty v. serialize buf ty v depth) [] whole tys (vals v) =
    encode (tuple_enc b) v []"
proof -
  have "tys \<noteq> []" using eb_ne tys_lay by auto
  moreover have "fixed_size whole = struct_fixed (map gty_lay tys)"
    using assms(1) struct_layout(2) by (simp add: fixed_size_def)
  ultimately show ?thesis
    using vals_len [of v] vals_eq [OF assms(2), of v] tuple_enc_eq [of "[]" v]
    by (subst vw.struct_eq) (simp_all add: tys_lay)
qed

lemma tuple_lay:
  "gty_layout whole = of_struct (map gty_layout tys) \<Longrightarrow> e_lay (tuple_enc b) = gty_lay whole"
  using struct_layout [of tys] by (simp add: tys_lay gty_alignment_def [abs_def] fixed_size_def comp_def)

lemma typed_as_tuple: "typed_as (tuple_enc b) (TTuple tys) (\<lambda>v. VTuple (vals v)) (Suc h)"
proof -
  have "serialize [] (TTuple tys) (VTuple (vals v)) depth = encode (tuple_enc b) v []"
    if "depth + Suc h \<le> MAX_VALUE_DEPTH" for depth v
    using that struct_eq_tuple [OF gty_layout_Tuple, of "Suc depth" v]
    by (simp add: serialize.simps [of "[]" "TTuple tys"])
  then show ?thesis
    using gv_encode_tuple tuple_lay [OF gty_layout_Tuple] by (simp add: typed_as_def typed_as_axioms_def)
qed

lemma typed_as_dict_entry:
  assumes "tys = [k, v]"
  shows "typed_as (tuple_enc b) (TDictEntry k v) (\<lambda>x. VTuple (vals x)) (Suc h)"
proof -
  have lay: "gty_layout (TDictEntry k v) = of_struct (map gty_layout tys)" using assms by simp
  have "serialize [] (TDictEntry k v) (VTuple (vals x)) depth = encode (tuple_enc b) x []"
    if "depth + Suc h \<le> MAX_VALUE_DEPTH" for depth x
    using that struct_eq_tuple [OF lay, of "Suc depth" x] assms
    by (simp add: serialize.simps [of "[]" "TDictEntry k v"])
  then show ?thesis
    using gv_encode_tuple tuple_lay [OF lay] by (simp add: typed_as_def typed_as_axioms_def)
qed

end

lemma typed_members_last: "typed_as e ty val h \<Longrightarrow> typed_members (enc_last e) [ty] (\<lambda>v. [val v]) h"
  using enc_members_last [of e]
  by (auto simp: typed_as_def typed_as_axioms_def typed_members_def typed_members_axioms_def enc_last_def)

lemma typed_members_member:
  assumes "typed_as e ty val h1" and "typed_members b tys vals h2" and "h1 \<le> h" and "h2 \<le> h"
  shows "typed_members (enc_member e b) (ty # tys) (\<lambda>(x, y). val x # vals y) h"
  using assms enc_members_member [of e b]
  by (auto simp: typed_as_def typed_as_axioms_def typed_members_def typed_members_axioms_def enc_member_def)

interpretation bool_t: typed_as bool_enc TBool VBool 0
  by unfold_locales
    (auto simp: bool_enc_def serialize.simps gty_alignment_def layout_scalar_def layout_new_def)

interpretation u8_t: typed_as u8_enc TByte VByte 0
  by unfold_locales
    (auto simp: u8_enc_def serialize.simps gty_alignment_def layout_scalar_def layout_new_def)

interpretation u32_t: typed_as u32_enc TU32 VU32 0
  by unfold_locales
    (auto simp: u32_enc_def serialize.simps gty_alignment_def layout_scalar_def layout_new_def)

interpretation u64_t: typed_as u64_enc TU64 VU64 0
  by unfold_locales
    (auto simp: u64_enc_def serialize.simps gty_alignment_def layout_scalar_def layout_new_def)

interpretation str_t: typed_as str_enc TStr VStr 0
  by unfold_locales
    (auto simp: str_enc_def serialize.simps gty_alignment_def layout_variable_def layout_new_def)

interpretation string_t: typed_as string_enc TStr VStr 0
  by unfold_locales
    (auto simp: string_enc_def serialize.simps gty_alignment_def layout_variable_def layout_new_def)

interpretation bytes_t: typed_as bytes_enc "TArray TByte" VBytes 0
  by unfold_locales
    (auto simp: bytes_enc_def serialize.simps gty_alignment_def layout_scalar_def layout_variable_def layout_new_def)

subsection \<open>Bytes of slices and pairs\<close>

lemma slice_enc_lay: "e_alignment (slice_enc e) = e_alignment e" "e_fixed (slice_enc e) = None"
  by (simp_all add: slice_enc_def)

lemma eb_simps:
  "eb_lays (enc_last e) = [e_lay e]" "eb_lays (enc_member e b) = e_lay e # eb_lays b"
  "run_fields (eb_fields (enc_last e) x) = andthen (encode e x []) (\<lambda>a. Ok [a])"
  "run_fields (eb_fields (enc_member e b) (x, y)) =
     andthen (encode e x []) (\<lambda>a. map_ok (Cons a) (run_fields (eb_fields b y)))"
  by (simp_all add: enc_last_def enc_member_def)

lemma tuple2_bytes:
  assumes "gv_encode e1" and "gv_encode e2" and "encode e1 x [] = Ok a" and "encode e2 y [] = Ok b"
  shows "encode (tuple_enc (enc_member e1 (enc_last e2))) (x, y) [] =
    Ok (struct_bytes (struct_fixed [e_lay e1, e_lay e2]) (with_bytes [e_lay e1, e_lay e2] [a, b]))"
  using enc_members.tuple_enc_eq [OF enc_members_member [OF assms(1) enc_members_last [OF assms(2)]], of "[]" "(x, y)"]
    assms(3,4) by (simp add: enc_member_def enc_last_def)

subsection \<open>Decoders that read through other decoders\<close>

text \<open>
  The objects decode in two steps: the typed decoder gives a view, and a check turns the view into the
  owned value. \<open>dec_via d p d'\<close> states that \<open>d'\<close> accepts what \<open>d\<close> followed by \<open>p\<close> accepts, with the
  same value. It passes through tuples, so the two-step parser of an object has the contract of a codec
  for the owned value.
\<close>

definition ok_opt :: "('e, 'a) result \<Rightarrow> 'a option" where
  "ok_opt m = (case m of Ok x \<Rightarrow> Some x | Err _ \<Rightarrow> None)"

lemma ok_opt_Some [result_simps]: "ok_opt m = Some x \<longleftrightarrow> m = Ok x"
  by (cases m) (simp_all add: ok_opt_def)

definition via_dec :: "'z decoder \<Rightarrow> ('z \<Rightarrow> 'y option) \<Rightarrow> 'y decoder" where
  "via_dec d p = \<lparr>d_alignment = d_alignment d, d_fixed = d_fixed d,
     decode = (\<lambda>s. andthen (decode d s) (\<lambda>z. ok_or (NotNormal '''') (p z)))\<rparr>"

definition dec_via :: "'z decoder \<Rightarrow> ('z \<Rightarrow> 'y option) \<Rightarrow> 'y decoder \<Rightarrow> bool" where
  "dec_via d p d' \<longleftrightarrow> d_lay d' = d_lay d \<and>
     (\<forall>s y. decode d' s = Ok y \<longleftrightarrow> (\<exists>z. decode d s = Ok z \<and> p z = Some y))"

definition body_via :: "'z dec_body \<Rightarrow> ('z \<Rightarrow> 'y option) \<Rightarrow> 'y dec_body \<Rightarrow> bool" where
  "body_via b p b' \<longleftrightarrow> db_lays b' = db_lays b \<and>
     (\<forall>r y r'. db_read b' r = Ok (y, r') \<longleftrightarrow> (\<exists>z. db_read b r = Ok (z, r') \<and> p z = Some y))"

definition both :: "('a \<Rightarrow> 'b option) \<Rightarrow> ('c \<Rightarrow> 'd option) \<Rightarrow> 'a \<times> 'c \<Rightarrow> ('b \<times> 'd) option" where
  "both p q = (\<lambda>(x, y). case p x of Some x' \<Rightarrow> map_option (Pair x') (q y) | None \<Rightarrow> None)"

lemma both_Some [result_simps]: "both p q z = Some w \<longleftrightarrow> p (fst z) = Some (fst w) \<and> q (snd z) = Some (snd w)"
  by (cases z; cases w) (auto simp: both_def split: option.splits)

lemma dec_viaD: "dec_via d p d' \<Longrightarrow> decode d' s = Ok y \<longleftrightarrow> (\<exists>z. decode d s = Ok z \<and> p z = Some y)"
  by (simp add: dec_via_def)

lemma dec_via_via_dec: "dec_via d p (via_dec d p)"
  by (auto simp: dec_via_def via_dec_def result_simps)

lemma dec_via_Some: "dec_via d Some d"
  by (simp add: dec_via_def)

lemma body_via_last: "dec_via d p d' \<Longrightarrow> body_via (dec_last d) p (dec_last d')"
  by (fastforce simp: dec_via_def body_via_def dec_last_def result_simps)

lemma body_via_member:
  "dec_via d p d' \<Longrightarrow> body_via b q b' \<Longrightarrow> body_via (dec_member d b) (both p q) (dec_member d' b')"
  by (fastforce simp: dec_via_def body_via_def dec_member_def result_simps)

lemma dec_via_tuple: "body_via b p b' \<Longrightarrow> dec_via (tuple_dec b) p (tuple_dec b')"
  by (fastforce simp: dec_via_def body_via_def tuple_dec_def Let_def result_simps)

text \<open>A codec for a type that is read through another one.\<close>

lemma gv_codec_via:
  assumes "gv_encode e" and "gv_decode d" and "d_lay d = e_lay e"
    and "\<And>data v. length data < usize_bound \<Longrightarrow>
      (\<exists>z. decode d data = Ok z \<and> p z = Some v) \<longleftrightarrow> okv v \<and> encode e v [] = Ok data"
  shows "gv_codec e (via_dec d p) okv"
  unfolding gv_codec_def gv_codec_axioms_def gv_decode_def
  using assms dec_viaD [OF dec_via_via_dec, of d p] by (auto simp: via_dec_def gv_decode_def)

end
