(* ===== verification/Core_Base.thy ===== *)
theory Core_Base
  imports Gv_Codec
begin

section \<open>The error type and the big-endian scalars of the object format\<close>

text \<open>
  \<^verbatim>\<open>crates/ostrya-core/src/error.rs\<close> and \<^verbatim>\<open>be.rs\<close>. The error of \<open>ostrya-core\<close> wraps
  the error of the GVariant codec; \<open>from_gv\<close> is the conversion that \<open>?\<close> applies. \<open>Be32\<close>
  and \<open>Be64\<close> are scalars that are big-endian inside the little-endian framing. The text of
  \<open>InvalidRefPattern\<close> is the quoted entry and the reason; the constructor keeps the two apart.
\<close>

datatype core_error =
    Gvariant gv_error
  | InvalidChecksum string
  | InvalidBase64 string
  | InvalidObjectType u32
  | InvalidVarint string
  | InvalidXattrs string
  | InvalidSizeEntry string
  | KeyFileError ustr
  | InvalidCommit string
  | InvalidDirTree string
  | InvalidDirMeta string
  | InvalidFileHeader string
  | InvalidRefPattern ustr string

text \<open>A message of an error of the crates above: a text, or a text that ends in the display of another error, which
  is kept apart.\<close>

datatype msg = Msg bytes | Msg_core bytes core_error | Msg_gv bytes gv_error

definition from_gv :: "(gv_error, 'a) result \<Rightarrow> (core_error, 'a) result" where
  "from_gv m = map_err Gvariant m"

lemma from_gv_Ok [result_simps]: "from_gv m = Ok x \<longleftrightarrow> m = Ok x"
  by (simp add: from_gv_def result_simps)

lemma from_gv_simps [simp]: "from_gv (Ok x) = Ok x" "from_gv (Err e) = Err (Gvariant e)"
  by (simp_all add: from_gv_def)

definition be32_enc :: "u32 encoder" where
  "be32_enc = \<lparr>e_alignment = 4, e_fixed = Some 4, encode = (\<lambda>x out. Ok (out @ to_be_bytes x))\<rparr>"

definition be32_dec :: "u32 decoder" where
  "be32_dec = \<lparr>d_alignment = 4, d_fixed = Some 4,
     decode = (\<lambda>data. if length data = 4 then Ok (from_be_bytes data)
                       else Err (NotNormal ''u32 has the wrong size''))\<rparr>"

definition be64_enc :: "u64 encoder" where
  "be64_enc = \<lparr>e_alignment = 8, e_fixed = Some 8, encode = (\<lambda>x out. Ok (out @ to_be_bytes x))\<rparr>"

definition be64_dec :: "u64 decoder" where
  "be64_dec = \<lparr>d_alignment = 8, d_fixed = Some 8,
     decode = (\<lambda>data. if length data = 8 then Ok (from_be_bytes data)
                       else Err (NotNormal ''u64 has the wrong size''))\<rparr>"

interpretation be32_c: gv_codec be32_enc be32_dec "\<lambda>_. True"
  by unfold_locales
    (auto simp: be32_enc_def be32_dec_def lay_good_scalar pos_indep_append from_to_be_bytes to_from_be_bytes)

interpretation be64_c: gv_codec be64_enc be64_dec "\<lambda>_. True"
  by unfold_locales
    (auto simp: be64_enc_def be64_dec_def lay_good_scalar pos_indep_append from_to_be_bytes to_from_be_bytes)

text \<open>On the wire a big-endian scalar is the byte-swapped little-endian scalar.\<close>

lemma to_be_bytes_swap: "8 dvd LENGTH('a::len) \<Longrightarrow> to_be_bytes (w :: 'a word) = to_le_bytes (swap_bytes w)"
  by (simp add: to_be_bytes_def swap_bytes_def to_from_le_bytes)

interpretation be32_t: typed_as be32_enc TU32 "\<lambda>x. VU32 (swap_bytes x)" 0
  by unfold_locales (auto simp: be32_enc_def serialize.simps gty_alignment_def layout_scalar_def
      layout_new_def u32_encode_def to_be_bytes_swap)

interpretation be64_t: typed_as be64_enc TU64 "\<lambda>x. VU64 (swap_bytes x)" 0
  by unfold_locales (auto simp: be64_enc_def serialize.simps gty_alignment_def layout_scalar_def
      layout_new_def u64_encode_def to_be_bytes_swap)

end
