(* ===== verification/Core_Base64.thy ===== *)
theory Core_Base64
  imports Core_Base
begin

section \<open>Base64\<close>

text \<open>
  \<^verbatim>\<open>crates/ostrya-core/src/base64.rs\<close>, and the base64 routines of
  \<^verbatim>\<open>checksum.rs\<close> that take the alphabet and the padding as parameters. A string is its bytes.
  The loops over chunks of three or four bytes are recursions on the list.

  The lemmas show that decoding inverts encoding for byte strings of any length, and that
  the strict decoder of a checksum accepts exactly the encodings of 32-byte strings.
\<close>

definition ALPHABET :: bytes where
  "ALPHABET = lit ''ABCDEFGHIJKLMNOPQRSTUVWXYZabcdefghijklmnopqrstuvwxyz0123456789+/''"

definition STD_ALPHABET :: bytes where
  "STD_ALPHABET = lit ''ABCDEFGHIJKLMNOPQRSTUVWXYZabcdefghijklmnopqrstuvwxyz0123456789+/''"

definition MOD_ALPHABET :: bytes where
  "MOD_ALPHABET = lit ''ABCDEFGHIJKLMNOPQRSTUVWXYZabcdefghijklmnopqrstuvwxyz0123456789+_''"

abbreviation pad_char :: u8 where
  "pad_char \<equiv> of_char CHR ''=''"

subsection \<open>base64.rs\<close>

fun b64_encode :: "bytes \<Rightarrow> bytes" where
  "b64_encode [] = []"
| "b64_encode [b0] =
     [ALPHABET ! unat (drop_bit 2 b0), ALPHABET ! unat (push_bit 4 (b0 AND 0x03)), pad_char, pad_char]"
| "b64_encode [b0, b1] =
     [ALPHABET ! unat (drop_bit 2 b0),
      ALPHABET ! unat (push_bit 4 (b0 AND 0x03) OR drop_bit 4 b1),
      ALPHABET ! unat (push_bit 2 (b1 AND 0x0f)),
      pad_char]"
| "b64_encode (b0 # b1 # b2 # rest) =
     ALPHABET ! unat (drop_bit 2 b0)
     # ALPHABET ! unat (push_bit 4 (b0 AND 0x03) OR drop_bit 4 b1)
     # ALPHABET ! unat (push_bit 2 (b1 AND 0x0f) OR drop_bit 6 b2)
     # ALPHABET ! unat (b2 AND 0x3f)
     # b64_encode rest"

definition b64_val :: "u8 \<Rightarrow> (core_error, u8) result" where
  "b64_val c =
     (if of_char CHR ''A'' \<le> c \<and> c \<le> of_char CHR ''Z'' then Ok (c - of_char CHR ''A'')
      else if of_char CHR ''a'' \<le> c \<and> c \<le> of_char CHR ''z'' then Ok (c - of_char CHR ''a'' + 26)
      else if of_char CHR ''0'' \<le> c \<and> c \<le> of_char CHR ''9'' then Ok (c - of_char CHR ''0'' + 52)
      else if c = of_char CHR ''+'' then Ok 62
      else if c = of_char CHR ''/'' then Ok 63
      else Err (InvalidBase64 ''invalid base64 character''))"

text \<open>The groups of four and the remainder; a remainder of one character is refused before.\<close>

fun b64_decode_groups :: "bytes \<Rightarrow> (core_error, bytes) result" where
  "b64_decode_groups (c0 # c1 # c2 # c3 # rest) =
     andthen (b64_val c0) (\<lambda>s0. andthen (b64_val c1) (\<lambda>s1.
     andthen (b64_val c2) (\<lambda>s2. andthen (b64_val c3) (\<lambda>s3.
       map_ok (\<lambda>out. (push_bit 2 s0 OR drop_bit 4 s1) # (push_bit 4 s1 OR drop_bit 2 s2)
                      # (push_bit 6 s2 OR s3) # out)
         (b64_decode_groups rest)))))"
| "b64_decode_groups [c0, c1, c2] =
     andthen (b64_val c0) (\<lambda>s0. andthen (b64_val c1) (\<lambda>s1. andthen (b64_val c2) (\<lambda>s2.
       Ok [push_bit 2 s0 OR drop_bit 4 s1, push_bit 4 s1 OR drop_bit 2 s2])))"
| "b64_decode_groups [c0, c1] =
     andthen (b64_val c0) (\<lambda>s0. andthen (b64_val c1) (\<lambda>s1. Ok [push_bit 2 s0 OR drop_bit 4 s1]))"
| "b64_decode_groups _ = Ok []"

definition b64_decode :: "bytes \<Rightarrow> (core_error, bytes) result" where
  "b64_decode s =
     (let bytes = trim_end_matches (\<lambda>c. c = pad_char) s in
      if length bytes mod 4 = 1 then Err (InvalidBase64 ''truncated base64 group'')
      else b64_decode_groups bytes)"

subsection \<open>The base64 routines of checksum.rs\<close>

fun base64_encode :: "bytes \<Rightarrow> bytes \<Rightarrow> bool \<Rightarrow> bytes" where
  "base64_encode [] alphabet pad = []"
| "base64_encode [b0] alphabet pad =
     [alphabet ! unat (drop_bit 2 b0), alphabet ! unat (push_bit 4 (b0 AND 0x03))] @
     (if pad then [pad_char, pad_char] else [])"
| "base64_encode [b0, b1] alphabet pad =
     [alphabet ! unat (drop_bit 2 b0),
      alphabet ! unat (push_bit 4 (b0 AND 0x03) OR drop_bit 4 b1),
      alphabet ! unat (push_bit 2 (b1 AND 0x0f))] @
     (if pad then [pad_char] else [])"
| "base64_encode (b0 # b1 # b2 # rest) alphabet pad =
     alphabet ! unat (drop_bit 2 b0)
     # alphabet ! unat (push_bit 4 (b0 AND 0x03) OR drop_bit 4 b1)
     # alphabet ! unat (push_bit 2 (b1 AND 0x0f) OR drop_bit 6 b2)
     # alphabet ! unat (b2 AND 0x3f)
     # base64_encode rest alphabet pad"

definition base64_val :: "u8 \<Rightarrow> bytes \<Rightarrow> (core_error, u8) result" where
  "base64_val c alphabet =
     (if of_char CHR ''A'' \<le> c \<and> c \<le> of_char CHR ''Z'' then Ok (c - of_char CHR ''A'')
      else if of_char CHR ''a'' \<le> c \<and> c \<le> of_char CHR ''z'' then Ok (c - of_char CHR ''a'' + 26)
      else if of_char CHR ''0'' \<le> c \<and> c \<le> of_char CHR ''9'' then Ok (c - of_char CHR ''0'' + 52)
      else if c = of_char CHR ''+'' then Ok 62
      else if c = alphabet ! 63 then Ok 63
      else Err (InvalidChecksum ''base64 has an invalid character''))"

text \<open>\<open>chunks_exact(4)\<close>: a partial chunk at the end is dropped.\<close>

fun base64_groups :: "bytes \<Rightarrow> bytes \<Rightarrow> (core_error, bytes) result" where
  "base64_groups (c0 # c1 # c2 # c3 # rest) alphabet =
     andthen (base64_val c0 alphabet) (\<lambda>s0. andthen (base64_val c1 alphabet) (\<lambda>s1.
     andthen (base64_val c2 alphabet) (\<lambda>s2. andthen (base64_val c3 alphabet) (\<lambda>s3.
       map_ok (\<lambda>out. (push_bit 2 s0 OR drop_bit 4 s1) # (push_bit 4 s1 OR drop_bit 2 s2)
                      # (push_bit 6 s2 OR s3) # out)
         (base64_groups rest alphabet)))))"
| "base64_groups _ alphabet = Ok []"

definition base64_decode_checksum :: "bytes \<Rightarrow> bytes \<Rightarrow> bool \<Rightarrow> (core_error, bytes) result" where
  "base64_decode_checksum s alphabet padded =
     (let expected = if padded then 44 else 43 in
      if length s \<noteq> expected then Err (InvalidChecksum ''base64 checksum has the wrong length'')
      else if padded \<and> s ! 43 \<noteq> pad_char then Err (InvalidChecksum ''base64 checksum is missing its pad'')
      else
        let data = take 43 s in
        andthen (base64_groups (take 40 data) alphabet) (\<lambda>out.
        andthen (base64_val (data ! 40) alphabet) (\<lambda>s0.
        andthen (base64_val (data ! 41) alphabet) (\<lambda>s1.
        andthen (base64_val (data ! 42) alphabet) (\<lambda>s2.
          if s2 AND 0x03 \<noteq> 0 then Err (InvalidChecksum ''base64 checksum has nonzero trailing bits'')
          else Ok (out @ [push_bit 2 s0 OR drop_bit 4 s1, push_bit 4 s1 OR drop_bit 2 s2]))))))"


subsection \<open>Sextets\<close>

lemma bit_u8_high: "8 \<le> n \<Longrightarrow> \<not> bit (b :: u8) n"
  using bit_imp_le_length [of b n] by auto

lemma u8_eq_bits:
  assumes "bit a 0 = bit b 0" "bit a 1 = bit b 1" "bit a 2 = bit b 2" "bit a 3 = bit b 3"
    "bit a 4 = bit b 4" "bit a 5 = bit b 5" "bit a 6 = bit b 6" "bit a 7 = bit b 7"
  shows "a = (b :: u8)"
proof (rule bit_word_eqI)
  fix n assume "n < LENGTH(8)"
  then have "n = 0 \<or> n = 1 \<or> n = 2 \<or> n = 3 \<or> n = 4 \<or> n = 5 \<or> n = 6 \<or> n = 7" by auto
  then show "bit a n = bit b n" using assms by blast
qed

lemma and_masks: "(x :: u8) AND 3 = take_bit 2 x" "x AND 15 = take_bit 4 x" "x AND 63 = take_bit 6 x"
  by (simp_all add: take_bit_eq_mask mask_numeral)

lemmas u8_bits = bit_or_iff bit_and_iff bit_push_bit_iff bit_drop_bit_eq bit_take_bit_iff bit_u8_high

lemma sextet_bits: "(s :: u8) < 64 \<longleftrightarrow> \<not> bit s 6 \<and> \<not> bit s 7"
proof -
  have "s < 64 \<longleftrightarrow> unat s < 2 ^ 6" by (simp add: word_less_nat_alt)
  also have "\<dots> \<longleftrightarrow> take_bit 6 (unat s) = unat s" by (simp add: take_bit_nat_eq_self_iff)
  also have "\<dots> \<longleftrightarrow> unat (take_bit 6 s) = unat s" by (simp only: unsigned_take_bit_eq)
  also have "\<dots> \<longleftrightarrow> take_bit 6 s = s" by (auto intro: unsigned_word_eqI)
  also have "\<dots> \<longleftrightarrow> \<not> bit s 6 \<and> \<not> bit s 7"
  proof
    assume "take_bit 6 s = s"
    then show "\<not> bit s 6 \<and> \<not> bit s 7" using bit_take_bit_iff [of 6 s 6] bit_take_bit_iff [of 6 s 7] by simp
  qed (auto intro!: u8_eq_bits simp: u8_bits)
  finally show ?thesis .
qed

lemmas sextet_simps = and_masks sextet_bits u8_bits

lemma enc_sextets:
  "drop_bit 2 b0 < (64 :: u8)" "push_bit 4 (b0 AND 3) OR drop_bit 4 b1 < (64 :: u8)" "push_bit 4 (b0 AND 3) < (64 :: u8)"
  "push_bit 2 (b1 AND 15) OR drop_bit 6 b2 < (64 :: u8)" "push_bit 2 (b1 AND 15) < (64 :: u8)" "b2 AND 63 < (64 :: u8)"
  by (simp_all add: sextet_simps)

lemma dec_enc_sextets:
  "push_bit 2 (drop_bit 2 b0) OR drop_bit 4 (push_bit 4 (b0 AND 3) OR drop_bit 4 b1) = (b0 :: u8)"
  "push_bit 2 (drop_bit 2 b0) OR drop_bit 4 (push_bit 4 (b0 AND 3)) = b0"
  "push_bit 4 (push_bit 4 (b0 AND 3) OR drop_bit 4 b1) OR drop_bit 2 (push_bit 2 (b1 AND 15) OR drop_bit 6 b2) = b1"
  "push_bit 4 (push_bit 4 (b0 AND 3) OR drop_bit 4 b1) OR drop_bit 2 (push_bit 2 (b1 AND 15)) = b1"
  "push_bit 6 (push_bit 2 (b1 AND 15) OR drop_bit 6 b2) OR (b2 AND 63) = b2"
  by (rule u8_eq_bits; simp add: sextet_simps)+

lemma enc_dec_sextets:
  assumes "(s0 :: u8) < 64" "(s1 :: u8) < 64" "(s2 :: u8) < 64" "(s3 :: u8) < 64"
  shows "drop_bit 2 (push_bit 2 s0 OR drop_bit 4 s1) = s0"
    and "push_bit 4 ((push_bit 2 s0 OR drop_bit 4 s1) AND 3) OR drop_bit 4 (push_bit 4 s1 OR drop_bit 2 s2) = s1"
    and "push_bit 2 ((push_bit 4 s1 OR drop_bit 2 s2) AND 15) OR drop_bit 6 (push_bit 6 s2 OR s3) = s2"
    and "(push_bit 6 s2 OR s3) AND 63 = s3"
  using assms by (auto intro!: u8_eq_bits simp: sextet_simps)

lemma enc_dec_last:
  "(s2 :: u8) < 64 \<Longrightarrow> s2 AND 3 = 0 \<Longrightarrow> push_bit 2 ((push_bit 4 s1 OR drop_bit 2 s2) AND 15) = s2"
proof -
  assume s: "s2 < 64" "s2 AND 3 = 0"
  have "\<not> bit s2 0" "\<not> bit s2 1"
    using arg_cong [OF s(2), of "\<lambda>x. bit x 0"] arg_cong [OF s(2), of "\<lambda>x. bit x 1"]
    by (simp_all add: and_masks bit_take_bit_iff)
  then show ?thesis using s(1) by (auto intro!: u8_eq_bits simp: sextet_simps)
qed

lemma last_trailing: "push_bit 2 (b1 AND 15) AND 3 = (0 :: u8)"
  by (rule u8_eq_bits) (simp_all add: sextet_simps)

text \<open>An alphabet and the map back from a character to its index.\<close>

locale base64_alphabet =
  fixes alphabet :: bytes and val :: "u8 \<Rightarrow> (core_error, u8) result"
  assumes val_iff: "val c = Ok i \<longleftrightarrow> i < 64 \<and> alphabet ! unat i = c"
    and pad_outside: "i < 64 \<Longrightarrow> alphabet ! unat i \<noteq> pad_char"
begin

lemma quad_iff:
  "(\<exists>s0 s1 s2 s3. val c0 = Ok s0 \<and> val c1 = Ok s1 \<and> val c2 = Ok s2 \<and> val c3 = Ok s3 \<and>
      b0 = (push_bit 2 s0 OR drop_bit 4 s1) \<and> b1 = (push_bit 4 s1 OR drop_bit 2 s2) \<and> b2 = (push_bit 6 s2 OR s3))
    \<longleftrightarrow>
    c0 = alphabet ! unat (drop_bit 2 b0) \<and>
    c1 = alphabet ! unat (push_bit 4 (b0 AND 3) OR drop_bit 4 b1) \<and>
    c2 = alphabet ! unat (push_bit 2 (b1 AND 15) OR drop_bit 6 b2) \<and>
    c3 = alphabet ! unat (b2 AND 63)" (is "?L \<longleftrightarrow> ?R")
proof
  assume ?L
  then obtain s0 s1 s2 s3 where
    s: "s0 < 64" "s1 < 64" "s2 < 64" "s3 < 64" and
    c: "c0 = alphabet ! unat s0" "c1 = alphabet ! unat s1" "c2 = alphabet ! unat s2" "c3 = alphabet ! unat s3" and
    b: "b0 = (push_bit 2 s0 OR drop_bit 4 s1)" "b1 = (push_bit 4 s1 OR drop_bit 2 s2)" "b2 = (push_bit 6 s2 OR s3)"
    by (auto simp: val_iff)
  show ?R unfolding b enc_dec_sextets [OF s] using c by simp
next
  assume ?R
  then show ?L
    using enc_sextets dec_enc_sextets
    by (intro exI [of _ "drop_bit 2 b0"] exI [of _ "push_bit 4 (b0 AND 3) OR drop_bit 4 b1"]
        exI [of _ "push_bit 2 (b1 AND 15) OR drop_bit 6 b2"] exI [of _ "b2 AND 63"])
      (simp add: val_iff)
qed

lemma triple_iff:
  "(\<exists>s0 s1 s2. val c0 = Ok s0 \<and> val c1 = Ok s1 \<and> val c2 = Ok s2 \<and> s2 AND 3 = 0 \<and>
      b0 = (push_bit 2 s0 OR drop_bit 4 s1) \<and> b1 = (push_bit 4 s1 OR drop_bit 2 s2))
    \<longleftrightarrow>
    c0 = alphabet ! unat (drop_bit 2 b0) \<and>
    c1 = alphabet ! unat (push_bit 4 (b0 AND 3) OR drop_bit 4 b1) \<and>
    c2 = alphabet ! unat (push_bit 2 (b1 AND 15))" (is "?L \<longleftrightarrow> ?R")
proof
  assume ?L
  then obtain s0 s1 s2 where
    s: "s0 < 64" "s1 < 64" "s2 < 64" "s2 AND 3 = 0" and
    c: "c0 = alphabet ! unat s0" "c1 = alphabet ! unat s1" "c2 = alphabet ! unat s2" and
    b: "b0 = (push_bit 2 s0 OR drop_bit 4 s1)" "b1 = (push_bit 4 s1 OR drop_bit 2 s2)"
    by (auto simp: val_iff)
  show ?R
    unfolding b enc_dec_sextets [OF s(1-3) s(1)] enc_dec_last [OF s(3,4)] using c by simp
next
  assume ?R
  then show ?L
    using enc_sextets dec_enc_sextets last_trailing
    by (intro exI [of _ "drop_bit 2 b0"] exI [of _ "push_bit 4 (b0 AND 3) OR drop_bit 4 b1"]
        exI [of _ "push_bit 2 (b1 AND 15)"])
      (simp add: val_iff)
qed

lemma encode_nopad_no_pad: "pad_char \<notin> set (base64_encode xs alphabet False)"
  using pad_outside enc_sextets by (induction xs alphabet False rule: base64_encode.induct) auto

end

lemma base64_encode_pad:
  "\<exists>k. base64_encode xs alphabet True = base64_encode xs alphabet False @ replicate k pad_char"
proof (induction xs alphabet True rule: base64_encode.induct)
  case (1 alphabet)
  show ?case by (rule exI [of _ 0]) simp
next
  case (2 b0 alphabet)
  show ?case by (rule exI [of _ "Suc (Suc 0)"]) simp
next
  case (3 b0 b1 alphabet)
  show ?case by (rule exI [of _ "Suc 0"]) simp
next
  case (4 b0 b1 b2 rest alphabet)
  then show ?case by auto
qed

lemma base64_encode_append:
  "length xs = 3 * k \<Longrightarrow> base64_encode (xs @ ys) alphabet p = base64_encode xs alphabet q @ base64_encode ys alphabet p"
proof (induction k arbitrary: xs)
  case (Suc k)
  then obtain a b c xs' where "xs = a # b # c # xs'" "length xs' = 3 * k"
    by (auto simp: length_Suc_conv numeral_3_eq_3)
  then show ?case using Suc.IH by simp
qed simp

text \<open>Forward tables of the three alphabets; the ranges of \<open>val\<close> hold no other characters.\<close>

lemma b64_val_table: "map b64_val ALPHABET = map (\<lambda>i. Ok (of_nat i)) [0..<64]"
  by (simp add: b64_val_def ALPHABET_def lit_def upt_rec [of _ "numeral _"])

lemma STD_ALPHABET_eq: "STD_ALPHABET = ALPHABET"
  by (simp add: STD_ALPHABET_def ALPHABET_def)

lemma nth_63: "ALPHABET ! 63 = of_char CHR ''/''" "MOD_ALPHABET ! 63 = of_char CHR ''_''"
  by (simp_all add: ALPHABET_def MOD_ALPHABET_def lit_def)

lemma std_val_table: "map (\<lambda>c. base64_val c STD_ALPHABET) STD_ALPHABET = map (\<lambda>i. Ok (of_nat i)) [0..<64]"
  using nth_63(1) unfolding STD_ALPHABET_eq
  by (simp add: base64_val_def ALPHABET_def [unfolded lit_def] upt_rec [of _ "numeral _"])

lemma mod_val_table: "map (\<lambda>c. base64_val c MOD_ALPHABET) MOD_ALPHABET = map (\<lambda>i. Ok (of_nat i)) [0..<64]"
  using nth_63(2)
  by (simp add: base64_val_def MOD_ALPHABET_def [unfolded lit_def] upt_rec [of _ "numeral _"])

lemma alphabet_pad: "pad_char \<notin> set ALPHABET" "pad_char \<notin> set MOD_ALPHABET"
  by (simp_all add: ALPHABET_def MOD_ALPHABET_def lit_def)

lemma alphabet_ranges:
  "set (map of_nat ([65..<91] @ [97..<123] @ [48..<58] @ [43])) \<subseteq> set ALPHABET"
  "set (map of_nat ([65..<91] @ [97..<123] @ [48..<58] @ [43])) \<subseteq> set MOD_ALPHABET"
  by (simp_all add: ALPHABET_def MOD_ALPHABET_def lit_def upt_rec [of _ "numeral _"])

lemma in_ranges:
  assumes "(65 \<le> c \<and> c \<le> 90) \<or> (97 \<le> c \<and> c \<le> 122) \<or> (48 \<le> c \<and> c \<le> 57) \<or> c = (43 :: u8)"
  shows "c \<in> set ALPHABET" and "c \<in> set MOD_ALPHABET"
proof -
  have "unat c \<in> set ([65..<91] @ [97..<123] @ [48..<58] @ [43])"
    using assms
    by (simp only: set_append set_upt Un_iff atLeastLessThan_iff list.set insert_iff) (auto simp: word_le_nat_alt)
  then have "(of_nat (unat c) :: u8) \<in> set (map of_nat ([65..<91] @ [97..<123] @ [48..<58] @ [43]))"
    unfolding set_map by (rule imageI)
  then show "c \<in> set ALPHABET" "c \<in> set MOD_ALPHABET"
    using alphabet_ranges by auto
qed

lemma length_alphabet: "length ALPHABET = 64" "length MOD_ALPHABET = 64"
  by (simp_all add: ALPHABET_def MOD_ALPHABET_def lit_def)

lemma val_in_alphabet:
  "b64_val c = Ok i \<Longrightarrow> c \<in> set ALPHABET"
  "base64_val c STD_ALPHABET = Ok i \<Longrightarrow> c \<in> set STD_ALPHABET"
  "base64_val c MOD_ALPHABET = Ok i \<Longrightarrow> c \<in> set MOD_ALPHABET"
  using in_ranges [of c] nth_mem [of 63 ALPHABET] nth_mem [of 63 MOD_ALPHABET]
  by (auto simp: b64_val_def base64_val_def length_alphabet nth_63 STD_ALPHABET_eq split: if_splits)

lemma base64_alphabetI:
  assumes table: "map val alphabet = map (\<lambda>i. Ok (of_nat i)) [0..<64]" and pad: "pad_char \<notin> set alphabet"
    and range: "\<And>c i. val c = Ok i \<Longrightarrow> c \<in> set alphabet"
  shows "base64_alphabet alphabet val"
proof
  have len: "length alphabet = 64" using arg_cong [OF table, of length] by simp
  have fwd: "val (alphabet ! k) = Ok (of_nat k)" if "k < 64" for k
    using that len arg_cong [OF table, of "\<lambda>xs. xs ! k"] by simp
  show "alphabet ! unat i \<noteq> pad_char" if "i < 64" for i :: u8
  proof -
    have "alphabet ! unat i \<in> set alphabet" using that len by (intro nth_mem) (simp add: word_less_nat_alt)
    then show ?thesis using pad by metis
  qed
  fix c i :: u8
  show "val c = Ok i \<longleftrightarrow> i < 64 \<and> alphabet ! unat i = c"
  proof
    assume v: "val c = Ok i"
    then obtain k where k: "k < 64" "c = alphabet ! k" using range len by (metis in_set_conv_nth)
    then have "i = of_nat k" using v fwd by simp
    moreover have "unat (of_nat k :: u8) = k" using k by (simp add: unat_of_nat)
    ultimately show "i < 64 \<and> alphabet ! unat i = c" using k by (simp add: word_less_nat_alt)
  next
    assume "i < 64 \<and> alphabet ! unat i = c"
    then show "val c = Ok i" using fwd [of "unat i"] by (simp add: word_less_nat_alt)
  qed
qed

interpretation b64: base64_alphabet ALPHABET b64_val
  by (rule base64_alphabetI [OF b64_val_table alphabet_pad(1) val_in_alphabet(1)])

interpretation std64: base64_alphabet STD_ALPHABET "\<lambda>c. base64_val c STD_ALPHABET"
  by (rule base64_alphabetI [OF std_val_table alphabet_pad(1) [folded STD_ALPHABET_eq] val_in_alphabet(2)])

interpretation mod64: base64_alphabet MOD_ALPHABET "\<lambda>c. base64_val c MOD_ALPHABET"
  by (rule base64_alphabetI [OF mod_val_table alphabet_pad(2) val_in_alphabet(3)])

subsection \<open>Round trips\<close>

context base64_alphabet
begin

lemma val_enc:
  "val (alphabet ! unat (drop_bit 2 b0)) = Ok (drop_bit 2 b0)"
  "val (alphabet ! unat (push_bit 4 (b0 AND 3) OR drop_bit 4 b1)) = Ok (push_bit 4 (b0 AND 3) OR drop_bit 4 b1)"
  "val (alphabet ! unat (push_bit 4 (b0 AND 3))) = Ok (push_bit 4 (b0 AND 3))"
  "val (alphabet ! unat (push_bit 2 (b1 AND 15) OR drop_bit 6 b2)) = Ok (push_bit 2 (b1 AND 15) OR drop_bit 6 b2)"
  "val (alphabet ! unat (push_bit 2 (b1 AND 15))) = Ok (push_bit 2 (b1 AND 15))"
  "val (alphabet ! unat (b2 AND 63)) = Ok (b2 AND 63)"
  unfolding val_iff by (blast intro: enc_sextets)+

end

lemma b64_decode_groups_encode: "b64_decode_groups (base64_encode xs ALPHABET False) = Ok xs"
proof (induction xs ALPHABET False rule: base64_encode.induct)
  case 1
  show ?case by simp
next
  case (2 b0)
  show ?case
    by (simp only: base64_encode.simps append.simps if_False b64_decode_groups.simps b64.val_enc andthen.simps
        dec_enc_sextets append_Nil2)
next
  case (3 b0 b1)
  show ?case
    by (simp only: base64_encode.simps append.simps if_False b64_decode_groups.simps b64.val_enc andthen.simps
        dec_enc_sextets append_Nil2)
next
  case (4 b0 b1 b2 rest)
  then show ?case
    by (simp only: base64_encode.simps b64_decode_groups.simps b64.val_enc andthen.simps map_ok.simps dec_enc_sextets)
qed

lemma b64_encode_eq: "b64_encode xs = base64_encode xs ALPHABET True"
  by (induction xs rule: b64_encode.induct) simp_all

lemma length_encode_nopad: "length (base64_encode xs alphabet False) mod 4 \<noteq> 1"
  by (induction xs alphabet False rule: base64_encode.induct) auto

lemma trim_end_pad:
  "pad_char \<notin> set xs \<Longrightarrow> trim_end_matches (\<lambda>c. c = pad_char) (xs @ replicate k pad_char) = xs"
proof -
  assume a: "pad_char \<notin> set xs"
  have "dropWhile (\<lambda>c. c = pad_char) (replicate k pad_char @ rev xs) = dropWhile (\<lambda>c. c = pad_char) (rev xs)"
    by (induction k) auto
  moreover have "dropWhile (\<lambda>c. c = pad_char) (rev xs) = rev xs"
    using a by (cases "rev xs") (auto dest: arg_cong [where f = set])
  ultimately show ?thesis by (simp add: trim_end_matches_def)
qed

lemma b64_decode_encode: "b64_decode (b64_encode xs) = Ok xs"
proof -
  obtain k where k: "base64_encode xs ALPHABET True = base64_encode xs ALPHABET False @ replicate k pad_char"
    using base64_encode_pad by blast
  show ?thesis
    unfolding b64_encode_eq k b64_decode_def Let_def trim_end_pad [OF b64.encode_nopad_no_pad]
    using length_encode_nopad b64_decode_groups_encode by simp
qed

lemma b64_decode_unpadded: "b64_decode (base64_encode xs ALPHABET False) = Ok xs"
  unfolding b64_decode_def Let_def
  using trim_end_pad [OF b64.encode_nopad_no_pad, of xs 0] length_encode_nopad b64_decode_groups_encode by simp

lemma split_43:
  assumes "43 \<le> length s"
  shows "s = take 40 s @ [s ! 40, s ! 41, s ! 42] @ drop 43 s"
proof -
  have "drop 40 s = s ! 40 # drop 41 s" "drop 41 s = s ! 41 # drop 42 s" "drop 42 s = s ! 42 # drop 43 s"
    using assms Cons_nth_drop_Suc [of 40 s] Cons_nth_drop_Suc [of 41 s] Cons_nth_drop_Suc [of 42 s] by simp_all
  then show ?thesis using append_take_drop_id [of 40 s] by simp
qed

lemma length_base64_encode: "length xs = 3 * k \<Longrightarrow> length (base64_encode xs alphabet p) = 4 * k"
proof (induction k arbitrary: xs)
  case (Suc k)
  then obtain a b c xs' where "xs = a # b # c # xs'" "length xs' = 3 * k"
    by (auto simp: length_Suc_conv numeral_3_eq_3)
  then show ?case using Suc.IH by simp
qed simp

lemma split_32: "(\<exists>out b0 b1. length out = 30 \<and> c = out @ [b0, b1]) \<longleftrightarrow> length c = 32"
proof
  assume "length c = 32"
  then have "c = take 30 c @ [c ! 30, c ! 31]"
    using append_take_drop_id [of 30 c] Cons_nth_drop_Suc [of 30 c] Cons_nth_drop_Suc [of 31 c] by simp
  then show "\<exists>out b0 b1. length out = 30 \<and> c = out @ [b0, b1]"
    using \<open>length c = 32\<close> by (intro exI [of _ "take 30 c"]) auto
qed auto

lemma checksum_shape:
  "(length s = (if padded then 44 else 43) \<and> (padded \<longrightarrow> s ! 43 = pad_char)) \<longleftrightarrow>
    (\<exists>d c0 c1 c2. length d = 40 \<and> s = d @ [c0, c1, c2] @ (if padded then [pad_char] else []))"
proof
  assume a: "length s = (if padded then 44 else 43) \<and> (padded \<longrightarrow> s ! 43 = pad_char)"
  then have len: "43 \<le> length s" by auto
  have "drop 43 s = (if padded then [pad_char] else [])"
    using a Cons_nth_drop_Suc [of 43 s] by auto
  then show "\<exists>d c0 c1 c2. length d = 40 \<and> s = d @ [c0, c1, c2] @ (if padded then [pad_char] else [])"
    using split_43 [OF len] len
    by (intro exI [of _ "take 40 s"] exI [of _ "s ! 40"] exI [of _ "s ! 41"] exI [of _ "s ! 42"]) auto
qed (auto simp: nth_append)

context base64_alphabet
begin

lemma groups_iff:
  assumes val: "\<And>c. val c = base64_val c alphabet"
  shows "length s = 4 * k \<Longrightarrow> base64_groups s alphabet = Ok out \<longleftrightarrow>
    length out = 3 * k \<and> s = base64_encode out alphabet p"
proof (induction k arbitrary: s out)
  case (Suc k)
  then obtain c0 c1 c2 c3 rest where s: "s = c0 # c1 # c2 # c3 # rest" and len: "length rest = 4 * k"
    by (auto simp: length_Suc_conv numeral_eq_Suc)
  have "base64_groups s alphabet = Ok out \<longleftrightarrow>
      (\<exists>b0 b1 b2 out'. out = b0 # b1 # b2 # out' \<and> base64_groups rest alphabet = Ok out' \<and>
        (\<exists>s0 s1 s2 s3. val c0 = Ok s0 \<and> val c1 = Ok s1 \<and> val c2 = Ok s2 \<and> val c3 = Ok s3 \<and>
          b0 = (push_bit 2 s0 OR drop_bit 4 s1) \<and> b1 = (push_bit 4 s1 OR drop_bit 2 s2) \<and> b2 = (push_bit 6 s2 OR s3)))"
    by (auto simp: s result_simps val)
  also have "\<dots> \<longleftrightarrow> length out = 3 * Suc k \<and> s = base64_encode out alphabet p"
    unfolding quad_iff Suc.IH [OF len] s
    by (auto simp: length_Suc_conv numeral_eq_Suc)
  finally show ?case .
qed auto

lemma group_tail_iff:
  assumes val: "\<And>c. val c = base64_val c alphabet"
  shows "(\<exists>d out b0 b1. length d = 40 \<and> base64_groups d alphabet = Ok out \<and> c = out @ [b0, b1] \<and>
      s = d @ base64_encode [b0, b1] alphabet padded) \<longleftrightarrow>
    (\<exists>out b0 b1. length out = 30 \<and> c = out @ [b0, b1] \<and> s = base64_encode c alphabet padded)"
proof -
  have app: "base64_encode (out @ ys) alphabet padded = base64_encode out alphabet padded @ base64_encode ys alphabet padded"
    if "length out = 30" for out ys
    using base64_encode_append [of out 10] that by simp
  have grp: "base64_groups d alphabet = Ok out \<longleftrightarrow> length out = 30 \<and> d = base64_encode out alphabet padded"
    if "length d = 40" for d out
    using groups_iff [OF val, of d 10] that by simp
  have len: "length (base64_encode out alphabet padded) = 40" if "length out = 30" for out
    using length_base64_encode [of out 10] that by simp
  show ?thesis
  proof (intro iffI; elim exE conjE)
    fix d out b0 b1
    assume "length d = 40" "base64_groups d alphabet = Ok out" "c = out @ [b0, b1]"
      "s = d @ base64_encode [b0, b1] alphabet padded"
    then show "\<exists>out b0 b1. length out = 30 \<and> c = out @ [b0, b1] \<and> s = base64_encode c alphabet padded"
      using grp [of d out] app [of out "[b0, b1]"] by metis
  next
    fix out b0 b1
    assume a: "length out = 30" "c = out @ [b0, b1]" "s = base64_encode c alphabet padded"
    show "\<exists>d out b0 b1. length d = 40 \<and> base64_groups d alphabet = Ok out \<and> c = out @ [b0, b1] \<and>
        s = d @ base64_encode [b0, b1] alphabet padded"
      by (rule exI [of _ "base64_encode out alphabet padded"], rule exI [of _ out], rule exI [of _ b0], rule exI [of _ b1])
        (use a app [OF a(1)] len [OF a(1)] grp [OF len [OF a(1)], of out] in metis)
  qed
qed

lemma decode_checksum_iff:
  assumes val: "\<And>c. val c = base64_val c alphabet"
  shows "base64_decode_checksum s alphabet padded = Ok c \<longleftrightarrow>
    length c = 32 \<and> s = base64_encode c alphabet padded"
proof -
  let ?tail = "if padded then [pad_char] else []"
  have body: "base64_decode_checksum (d @ [c0, c1, c2] @ ?tail) alphabet padded = Ok c \<longleftrightarrow>
      (\<exists>out b0 b1. base64_groups d alphabet = Ok out \<and> c = out @ [b0, b1] \<and>
        (\<exists>s0 s1 s2. val c0 = Ok s0 \<and> val c1 = Ok s1 \<and> val c2 = Ok s2 \<and> s2 AND 3 = 0 \<and>
           b0 = (push_bit 2 s0 OR drop_bit 4 s1) \<and> b1 = (push_bit 4 s1 OR drop_bit 2 s2)))"
    if "length d = 40" for d c0 c1 c2
    using that by (cases padded)
      (auto simp: base64_decode_checksum_def Let_def nth_append result_simps val split: if_splits)
  have "base64_decode_checksum s alphabet padded = Ok c \<longleftrightarrow>
     (\<exists>d c0 c1 c2. length d = 40 \<and> s = d @ [c0, c1, c2] @ ?tail \<and>
       base64_decode_checksum (d @ [c0, c1, c2] @ ?tail) alphabet padded = Ok c)"
  proof (cases "length s = (if padded then 44 else 43) \<and> (padded \<longrightarrow> s ! 43 = pad_char)")
    case True
    then show ?thesis using checksum_shape [of s padded] by blast
  next
    case False
    then have "base64_decode_checksum s alphabet padded \<noteq> Ok c"
      by (auto simp: base64_decode_checksum_def Let_def split: if_splits)
    then show ?thesis by blast
  qed
  also have "\<dots> \<longleftrightarrow> (\<exists>d out b0 b1. length d = 40 \<and> base64_groups d alphabet = Ok out \<and> c = out @ [b0, b1] \<and>
      s = d @ base64_encode [b0, b1] alphabet padded)"
    unfolding body [unfolded triple_iff] using body [unfolded triple_iff] by auto
  also have "\<dots> \<longleftrightarrow> (\<exists>out b0 b1. length out = 30 \<and> c = out @ [b0, b1] \<and> s = base64_encode c alphabet padded)"
    by (rule group_tail_iff [OF val])
  also have "\<dots> \<longleftrightarrow> length c = 32 \<and> s = base64_encode c alphabet padded"
    using split_32 [of c] by blast
  finally show ?thesis .
qed

end

subsection \<open>Properties\<close>

text \<open>The base64 decoder inverts the encoder, with and without the padding.\<close>

theorem base64_roundtrip:
  "b64_decode (b64_encode xs) = Ok xs \<and> b64_decode (base64_encode xs ALPHABET False) = Ok xs"
  by (simp add: b64_decode_encode b64_decode_unpadded)

text \<open>The encoder of the base64 module and the encoder of the checksum module give the same
  text for the standard alphabet with padding.\<close>

theorem base64_encoders_agree: "b64_encode xs = base64_encode xs STD_ALPHABET True"
  by (simp add: b64_encode_eq ALPHABET_def STD_ALPHABET_def)

end
