(* ===== verification/Core_Checksum.thy ===== *)
theory Core_Checksum
  imports Core_Base64 "HOL-Library.List_Lexorder"
begin

section \<open>Object checksums and their forms\<close>

text \<open>
  \<^verbatim>\<open>crates/ostrya-core/src/checksum.rs\<close>. A \<open>Checksum\<close> wraps an array of 32 bytes; here it is a byte
  list, and \<open>is_checksum\<close> is the length that the Rust type guarantees. A checksum has a hex form, two
  base64 forms, and the raw form of the objects. Each parser accepts exactly the spellings that print
  from the result, up to the case of the hex digits in \<open>from_hex\<close>. The digest itself (the \<open>sha2\<close>
  crate) is a parameter of the definitions that use it.
\<close>

type_synonym checksum = bytes

definition is_checksum :: "checksum \<Rightarrow> bool" where
  "is_checksum c \<longleftrightarrow> length c = 32"

definition HEX :: bytes where
  "HEX = lit ''0123456789abcdef''"

definition hex_val :: "u8 \<Rightarrow> (core_error, u8) result" where
  "hex_val c =
     (if of_char CHR ''0'' \<le> c \<and> c \<le> of_char CHR ''9'' then Ok (c - of_char CHR ''0'')
      else if of_char CHR ''a'' \<le> c \<and> c \<le> of_char CHR ''f'' then Ok (c - of_char CHR ''a'' + 10)
      else if of_char CHR ''A'' \<le> c \<and> c \<le> of_char CHR ''F'' then Ok (c - of_char CHR ''A'' + 10)
      else Err (InvalidChecksum ''hex checksum has a non-hex character''))"

text \<open>The loop over \<open>chunks_exact(2)\<close>.\<close>

fun from_hex_pairs :: "bytes \<Rightarrow> (core_error, bytes) result" where
  "from_hex_pairs (p0 # p1 # bs) =
     andthen (hex_val p0) (\<lambda>hi.
       andthen (hex_val p1) (\<lambda>lo.
         andthen (from_hex_pairs bs) (\<lambda>out. Ok ((push_bit 4 hi OR lo) # out))))"
| "from_hex_pairs bs = Ok []"

definition from_hex :: "bytes \<Rightarrow> (core_error, checksum) result" where
  "from_hex s =
     (if length s \<noteq> 64 then Err (InvalidChecksum ''hex checksum is not 64 characters'')
      else from_hex_pairs s)"

definition is_ascii_uppercase :: "u8 \<Rightarrow> bool" where
  "is_ascii_uppercase b \<longleftrightarrow> of_char CHR ''A'' \<le> b \<and> b \<le> of_char CHR ''Z''"

definition from_hex_lower :: "bytes \<Rightarrow> (core_error, checksum) result" where
  "from_hex_lower s =
     (if list_ex is_ascii_uppercase s then Err (InvalidChecksum ''hex checksum is not lowercase'')
      else from_hex s)"

definition to_hex :: "checksum \<Rightarrow> bytes" where
  "to_hex c = concat (map (\<lambda>b. [HEX ! unat (drop_bit 4 b), HEX ! unat (b AND 0x0f)]) c)"

definition from_ay :: "bytes \<Rightarrow> (core_error, checksum) result" where
  "from_ay b = (if length b = 32 then Ok b else Err (InvalidChecksum ''ay checksum is not 32 bytes''))"

definition to_base64 :: "checksum \<Rightarrow> bytes" where
  "to_base64 c = base64_encode c STD_ALPHABET True"

definition from_base64 :: "bytes \<Rightarrow> (core_error, checksum) result" where
  "from_base64 s = base64_decode_checksum s STD_ALPHABET True"

definition to_base64_modified :: "checksum \<Rightarrow> bytes" where
  "to_base64_modified c = base64_encode c MOD_ALPHABET False"

definition from_base64_modified :: "bytes \<Rightarrow> (core_error, checksum) result" where
  "from_base64_modified s = base64_decode_checksum s MOD_ALPHABET False"

definition checksum_enc :: "checksum encoder" where
  "checksum_enc = \<lparr>e_alignment = 1, e_fixed = None, encode = (\<lambda>c out. Ok (out @ c))\<rparr>"

subsection \<open>Hex digits\<close>

definition ascii_lower :: "u8 \<Rightarrow> u8" where
  "ascii_lower b = (if is_ascii_uppercase b then b + 32 else b)"

lemma hex_table: "map hex_val HEX = map (\<lambda>i. Ok (of_nat i)) [0..<16]"
  by (simp add: hex_val_def HEX_def lit_def upt_rec [of _ "numeral _"])

lemma hex_lower_digits: "set (map of_nat ([48..<58] @ [97..<103])) = set HEX"
  by (simp add: HEX_def lit_def upt_rec [of _ "numeral _"] insert_commute)

lemma length_HEX [simp]: "length HEX = 16"
  by (simp add: HEX_def lit_def)

lemma in_HEX: "c \<in> set HEX \<longleftrightarrow> (48 \<le> c \<and> c \<le> 57) \<or> (97 \<le> c \<and> c \<le> 102)"
proof
  assume "(48 \<le> c \<and> c \<le> 57) \<or> (97 \<le> c \<and> c \<le> 102)"
  then have "unat c \<in> set ([48..<58] @ [97..<103])"
    by (simp only: set_append set_upt Un_iff atLeastLessThan_iff) (auto simp: word_le_nat_alt)
  then have "(of_nat (unat c) :: u8) \<in> set (map of_nat ([48..<58] @ [97..<103]))"
    unfolding set_map by (rule imageI)
  then show "c \<in> set HEX" unfolding hex_lower_digits by simp
qed (auto simp: HEX_def lit_def)

lemma ascii_lower_unat: "is_ascii_uppercase c \<Longrightarrow> unat (ascii_lower c) = unat c + 32 \<and> 65 \<le> unat c \<and> unat c \<le> 90"
  by (auto simp: ascii_lower_def is_ascii_uppercase_def word_le_nat_alt unat_word_ariths)

lemma hex_val_lower: "hex_val (ascii_lower c) = hex_val c"
proof (cases "is_ascii_uppercase c")
  case True
  note u = ascii_lower_unat [OF True]
  have "ascii_lower c = c + 32" using True by (simp add: ascii_lower_def)
  then show ?thesis using u
    by (auto simp: hex_val_def word_le_nat_alt)
qed (simp add: ascii_lower_def)

lemma hex_val_iff: "hex_val c = Ok v \<longleftrightarrow> v < 16 \<and> ascii_lower c = HEX ! unat v"
proof -
  have fwd: "hex_val (HEX ! k) = Ok (of_nat k)" if "k < 16" for k
    using that arg_cong [OF hex_table, of "\<lambda>xs. xs ! k"] by simp
  have up: "\<not> is_ascii_uppercase (ascii_lower c)"
    using ascii_lower_unat [of c] by (auto simp: ascii_lower_def is_ascii_uppercase_def word_le_nat_alt)
  show ?thesis
  proof
    assume v: "hex_val c = Ok v"
    then have l: "hex_val (ascii_lower c) = Ok v" by (simp add: hex_val_lower)
    then have "ascii_lower c \<in> set HEX"
      using up by (auto simp: hex_val_def in_HEX is_ascii_uppercase_def word_le_nat_alt split: if_splits)
    then obtain k where k: "k < 16" "ascii_lower c = HEX ! k" by (metis in_set_conv_nth length_HEX)
    then have "v = of_nat k" using fwd l by simp
    moreover have "unat (of_nat k :: u8) = k" using k by (simp add: unat_of_nat)
    ultimately show "v < 16 \<and> ascii_lower c = HEX ! unat v" using k by (simp add: word_less_nat_alt)
  next
    assume "v < 16 \<and> ascii_lower c = HEX ! unat v"
    then show "hex_val c = Ok v"
      using fwd [of "unat v"] hex_val_lower [of c] by (simp add: word_less_nat_alt)
  qed
qed

lemma nibble_bits: "(s :: u8) < 16 \<longleftrightarrow> \<not> bit s 4 \<and> \<not> bit s 5 \<and> \<not> bit s 6 \<and> \<not> bit s 7"
proof -
  have "s < 16 \<longleftrightarrow> unat s < 2 ^ 4" by (simp add: word_less_nat_alt)
  also have "\<dots> \<longleftrightarrow> take_bit 4 (unat s) = unat s" by (simp add: take_bit_nat_eq_self_iff)
  also have "\<dots> \<longleftrightarrow> unat (take_bit 4 s) = unat s" by (simp only: unsigned_take_bit_eq)
  also have "\<dots> \<longleftrightarrow> take_bit 4 s = s" by (auto intro: unsigned_word_eqI)
  also have "\<dots> \<longleftrightarrow> \<not> bit s 4 \<and> \<not> bit s 5 \<and> \<not> bit s 6 \<and> \<not> bit s 7"
  proof
    assume "take_bit 4 s = s"
    then have "bit (take_bit 4 s) n = bit s n" for n by simp
    from this [of 4] this [of 5] this [of 6] this [of 7]
    show "\<not> bit s 4 \<and> \<not> bit s 5 \<and> \<not> bit s 6 \<and> \<not> bit s 7" by (simp add: bit_take_bit_iff)
  qed (auto intro!: u8_eq_bits simp: u8_bits)
  finally show ?thesis .
qed

lemma nibbles:
  "drop_bit 4 (b :: u8) < 16" "b AND 0x0f < 16"
  "hi < 16 \<Longrightarrow> lo < 16 \<Longrightarrow> drop_bit 4 (push_bit 4 hi OR lo) = (hi :: u8)"
  "hi < 16 \<Longrightarrow> lo < 16 \<Longrightarrow> (push_bit 4 hi OR lo) AND 0x0f = (lo :: u8)"
  "push_bit 4 (drop_bit 4 b) OR (b AND 0x0f) = b"
  by (simp_all add: and_masks nibble_bits u8_bits) (rule u8_eq_bits; simp add: and_masks nibble_bits u8_bits)+

lemma to_hex_simps [simp]:
  "to_hex [] = []"
  "to_hex (b # c) = HEX ! unat (drop_bit 4 b) # HEX ! unat (b AND 0x0f) # to_hex c"
  by (simp_all add: to_hex_def)

lemma length_to_hex [simp]: "length (to_hex c) = 2 * length c"
  by (induction c) auto

lemma from_hex_pairs_iff:
  "even (length s) \<Longrightarrow> from_hex_pairs s = Ok c \<longleftrightarrow> map ascii_lower s = to_hex c"
proof (induction s arbitrary: c rule: induct_list012)
  case (3 p0 p1 bs)
  have IH: "from_hex_pairs bs = Ok d \<longleftrightarrow> map ascii_lower bs = to_hex d" for d
    using 3 by simp
  have "from_hex_pairs (p0 # p1 # bs) = Ok c \<longleftrightarrow>
    (\<exists>hi lo out. hi < 16 \<and> lo < 16 \<and> ascii_lower p0 = HEX ! unat hi \<and> ascii_lower p1 = HEX ! unat lo \<and>
      map ascii_lower bs = to_hex out \<and> c = (push_bit 4 hi OR lo) # out)"
    by (simp add: result_simps hex_val_iff IH) blast
  also have "\<dots> \<longleftrightarrow> map ascii_lower (p0 # p1 # bs) = to_hex c"
  proof
    assume "map ascii_lower (p0 # p1 # bs) = to_hex c"
    then show "\<exists>hi lo out. hi < 16 \<and> lo < 16 \<and> ascii_lower p0 = HEX ! unat hi \<and> ascii_lower p1 = HEX ! unat lo \<and>
      map ascii_lower bs = to_hex out \<and> c = (push_bit 4 hi OR lo) # out"
    proof (cases c)
      case (Cons b out)
      then show ?thesis
        using \<open>map ascii_lower (p0 # p1 # bs) = to_hex c\<close>
        by (intro exI [of _ "drop_bit 4 b"] exI [of _ "b AND 0x0f"] exI [of _ out]) (simp add: nibbles)
    qed (use \<open>map ascii_lower (p0 # p1 # bs) = to_hex c\<close> in simp)
  qed (auto simp: nibbles drop_bit_or [symmetric] simp del: drop_bit_or)
  finally show ?case .
next
  case 1
  then show ?case by (cases c) auto
qed simp

lemma from_hex_iff: "from_hex s = Ok c \<longleftrightarrow> is_checksum c \<and> map ascii_lower s = to_hex c"
proof -
  have "length s = 2 * length c" if "map ascii_lower s = to_hex c"
    using arg_cong [OF that, of length] by simp
  then show ?thesis using from_hex_pairs_iff [of s c] by (auto simp: from_hex_def is_checksum_def)
qed

lemma HEX_not_upper: "\<not> is_ascii_uppercase (HEX ! unat (drop_bit 4 (b :: u8)))" "\<not> is_ascii_uppercase (HEX ! unat (b AND 0x0f))"
proof -
  have "\<not> is_ascii_uppercase c" if "c \<in> set HEX" for c
    using that by (auto simp: in_HEX is_ascii_uppercase_def word_le_nat_alt)
  moreover have "HEX ! unat (drop_bit 4 b) \<in> set HEX" "HEX ! unat (b AND 0x0f) \<in> set HEX"
    using nibbles(1,2) [of b] by (auto intro!: nth_mem simp: word_less_nat_alt)
  ultimately show "\<not> is_ascii_uppercase (HEX ! unat (drop_bit 4 b))" "\<not> is_ascii_uppercase (HEX ! unat (b AND 0x0f))"
    by blast+
qed

lemma to_hex_lower: "x \<in> set (to_hex c) \<Longrightarrow> \<not> is_ascii_uppercase x"
  using HEX_not_upper by (induction c) auto

lemma from_hex_lower_iff: "from_hex_lower s = Ok c \<longleftrightarrow> is_checksum c \<and> s = to_hex c"
proof -
  have "map ascii_lower s = s" if "\<not> list_ex is_ascii_uppercase s"
    using that by (induction s) (auto simp: ascii_lower_def)
  moreover have "\<not> list_ex is_ascii_uppercase (to_hex c)"
    using to_hex_lower by (auto simp: list_ex_iff)
  ultimately show ?thesis by (auto simp: from_hex_lower_def from_hex_iff)
qed

lemma HEX_mono:
  assumes "(i :: u8) < 16" and "j < 16"
  shows "HEX ! unat i < HEX ! unat j \<longleftrightarrow> i < j"
proof -
  have unat_16: "unat (16 :: u8) = 16" by simp
  have sorted: "sorted_wrt (<) HEX" by (simp add: HEX_def lit_def)
  have "HEX ! a < HEX ! b" if "a < b" "b < 16" for a b
    using sorted_wrt_nth_less [OF sorted] that by simp
  then show ?thesis
    using assms by (metis linorder_less_linear order_less_asym word_less_nat_alt unat_16)
qed

lemma nibble_less:
  "b < b' \<longleftrightarrow> drop_bit 4 b < drop_bit 4 b' \<or> (drop_bit 4 b = drop_bit 4 b' \<and> b AND 0x0f < b' AND (0x0f :: u8))"
proof -
  have hi: "unat (drop_bit 4 x) = unat x div 16" for x :: u8 by (simp only: unat_drop_bit_eq) (simp add: drop_bit_eq_div)
  have lo: "unat (x AND 0x0f) = unat x mod 16" for x :: u8
    by (simp only: and_masks unsigned_take_bit_eq) (simp add: take_bit_eq_mod)
  have eq: "drop_bit 4 b = drop_bit 4 b' \<longleftrightarrow> unat b div 16 = unat b' div 16"
    using hi by (metis unsigned_word_eqI)
  have "m < n \<longleftrightarrow> m div 16 < n div 16 \<or> (m div 16 = n div 16 \<and> m mod 16 < n mod 16)" for m n :: nat
  proof -
    have "16 * a + r < 16 * b + s \<longleftrightarrow> a < b \<or> (a = b \<and> r < s)" if "r < 16" "s < 16" for a b r s :: nat
      using that by (cases a b rule: linorder_cases) auto
    from this [of "m mod 16" "n mod 16" "m div 16" "n div 16"] show ?thesis by simp
  qed
  then show ?thesis unfolding word_less_nat_alt hi lo eq .
qed

lemma to_hex_less: "to_hex c < to_hex d \<longleftrightarrow> c < d"
proof (induction c arbitrary: d)
  case Nil
  show ?case by (cases d) auto
next
  case (Cons b c)
  show ?case
  proof (cases d)
    case (Cons b' d')
    have "HEX ! unat i = HEX ! unat j \<longleftrightarrow> i = j" if "i < 16" "j < 16" for i j :: u8
      using HEX_mono [OF that] HEX_mono [OF that(2,1)] by (metis linorder_less_linear order_less_irrefl)
    moreover note nibble_less [of b b']
    ultimately show ?thesis
      using Cons.IH [of d'] nibbles(1,2) Cons nibbles(5)[of b] nibbles(5)[of b'] by (auto simp: HEX_mono)
  qed auto
qed

subsection \<open>The base64 and raw forms\<close>

lemma from_base64_iff: "from_base64 s = Ok c \<longleftrightarrow> is_checksum c \<and> s = to_base64 c"
  unfolding from_base64_def to_base64_def is_checksum_def by (rule std64.decode_checksum_iff) simp

lemma from_base64_modified_iff: "from_base64_modified s = Ok c \<longleftrightarrow> is_checksum c \<and> s = to_base64_modified c"
  unfolding from_base64_modified_def to_base64_modified_def is_checksum_def by (rule mod64.decode_checksum_iff) simp

lemma from_ay_iff [result_simps]: "from_ay b = Ok c \<longleftrightarrow> is_checksum c \<and> b = c"
  by (auto simp: from_ay_def is_checksum_def)

lemma checksum_enc_eq: "checksum_enc = bytes_enc"
  by (simp add: checksum_enc_def bytes_enc_def bytes_encode_def fun_eq_iff)

interpretation checksum_t: typed_as checksum_enc "TArray TByte" VBytes 0
  unfolding checksum_enc_eq by (rule bytes_t.typed_as_axioms)

lemma to_hex_inj: "to_hex c = to_hex d \<longleftrightarrow> c = d"
  using to_hex_less [of c d] to_hex_less [of d c] by (metis linorder_less_linear order_less_irrefl)

lemma set_to_hex: "x \<in> set (to_hex c) \<Longrightarrow> x \<in> set HEX"
proof (induction c)
  case (Cons b c)
  have "HEX ! unat (drop_bit 4 b) \<in> set HEX" "HEX ! unat (b AND 0x0f) \<in> set HEX"
    using nibbles(1,2) [of b] by (auto intro!: nth_mem simp: word_less_nat_alt)
  then show ?case using Cons by auto
qed simp

subsection \<open>Properties\<close>

text \<open>Lowercase hex is the one spelling \<open>from_hex_lower\<close> accepts: it returns a checksum exactly
  when the text is what \<open>to_hex\<close> prints for it.\<close>

theorem from_hex_lower_exact: "from_hex_lower s = Ok c \<longleftrightarrow> is_checksum c \<and> s = to_hex c"
  by (rule from_hex_lower_iff)

text \<open>\<open>from_hex\<close> accepts exactly the spellings of the printed hex form in any case, and
  returns the checksum that prints to their lowercase form.\<close>

theorem from_hex_any_case: "from_hex s = Ok c \<longleftrightarrow> is_checksum c \<and> map ascii_lower s = to_hex c"
  by (rule from_hex_iff)

text \<open>C37: each checksum has exactly one accepted spelling in standard base64 and one in modified
  base64, the spelling the encoder writes; no other text is accepted.\<close>

theorem checksum_base64_one_spelling:
  "(from_base64 s = Ok c \<longleftrightarrow> is_checksum c \<and> s = to_base64 c) \<and>
   (from_base64_modified s = Ok c \<longleftrightarrow> is_checksum c \<and> s = to_base64_modified c)"
  using from_base64_iff from_base64_modified_iff by blast

text \<open>The byte order of checksums is the order of their hex forms.\<close>

theorem hex_order_is_byte_order: "to_hex c < to_hex d \<longleftrightarrow> c < d"
  by (rule to_hex_less)

end
