(* ===== verification/Core_Object.thy ===== *)
theory Core_Object
  imports Core_Checksum
begin

section \<open>Object types, repository modes, object names, loose paths\<close>

text \<open>
  \<^verbatim>\<open>crates/ostrya-core/src/objtype.rs\<close>, \<^verbatim>\<open>mode.rs\<close>, \<^verbatim>\<open>objname.rs\<close>, \<^verbatim>\<open>loosepath.rs\<close>. The names and
  extensions are ASCII byte strings. The lemmas show that numbers, extensions and mode strings parse
  back, and that two objects never share a loose path.
\<close>

datatype object_type =
  File | DirTree | DirMeta | Commit | TombstoneCommit | CommitMeta | PayloadLink | FileXattrs | FileXattrsLink

datatype repo_mode =
  Bare | BareUser | BareUserOnly | BareSplitXattrs | Archive | BareUserShared

fun objtype_as_u32 :: "object_type \<Rightarrow> u32" where
  "objtype_as_u32 File = 1"
| "objtype_as_u32 DirTree = 2"
| "objtype_as_u32 DirMeta = 3"
| "objtype_as_u32 Commit = 4"
| "objtype_as_u32 TombstoneCommit = 5"
| "objtype_as_u32 CommitMeta = 6"
| "objtype_as_u32 PayloadLink = 7"
| "objtype_as_u32 FileXattrs = 8"
| "objtype_as_u32 FileXattrsLink = 9"

definition objtype_from_u32 :: "u32 \<Rightarrow> (core_error, object_type) result" where
  "objtype_from_u32 v =
     (if v = 1 then Ok File
      else if v = 2 then Ok DirTree
      else if v = 3 then Ok DirMeta
      else if v = 4 then Ok Commit
      else if v = 5 then Ok TombstoneCommit
      else if v = 6 then Ok CommitMeta
      else if v = 7 then Ok PayloadLink
      else if v = 8 then Ok FileXattrs
      else if v = 9 then Ok FileXattrsLink
      else Err (InvalidObjectType v))"

definition is_meta :: "object_type \<Rightarrow> bool" where
  "is_meta ty \<longleftrightarrow> ty \<in> {DirTree, DirMeta, Commit, TombstoneCommit, CommitMeta}"

definition is_commit_sidecar :: "object_type \<Rightarrow> bool" where
  "is_commit_sidecar ty \<longleftrightarrow> ty = CommitMeta"

fun type_str :: "object_type \<Rightarrow> bytes" where
  "type_str File = lit ''file''"
| "type_str DirTree = lit ''dirtree''"
| "type_str DirMeta = lit ''dirmeta''"
| "type_str Commit = lit ''commit''"
| "type_str TombstoneCommit = lit ''tombstone-commit''"
| "type_str CommitMeta = lit ''commitmeta''"
| "type_str PayloadLink = lit ''payload-link''"
| "type_str FileXattrs = lit ''file-xattrs''"
| "type_str FileXattrsLink = lit ''file-xattrs-link''"

fun extension :: "object_type \<Rightarrow> repo_mode \<Rightarrow> bytes" where
  "extension File Archive = lit ''filez''"
| "extension File mode = lit ''file''"
| "extension DirTree mode = lit ''dirtree''"
| "extension DirMeta mode = lit ''dirmeta''"
| "extension Commit mode = lit ''commit''"
| "extension TombstoneCommit mode = lit ''tombstone-commit''"
| "extension CommitMeta mode = lit ''commitmeta''"
| "extension PayloadLink mode = lit ''payload-link''"
| "extension FileXattrs mode = lit ''file-xattrs''"
| "extension FileXattrsLink mode = lit ''file-xattrs-link''"

definition from_extension :: "bytes \<Rightarrow> object_type option" where
  "from_extension ext =
     (if ext = lit ''file'' \<or> ext = lit ''filez'' then Some File
      else if ext = lit ''dirtree'' then Some DirTree
      else if ext = lit ''dirmeta'' then Some DirMeta
      else if ext = lit ''commit'' then Some Commit
      else if ext = lit ''tombstone-commit'' then Some TombstoneCommit
      else if ext = lit ''commitmeta'' then Some CommitMeta
      else if ext = lit ''payload-link'' then Some PayloadLink
      else if ext = lit ''file-xattrs'' then Some FileXattrs
      else if ext = lit ''file-xattrs-link'' then Some FileXattrsLink
      else None)"

definition from_mode_str :: "bytes \<Rightarrow> repo_mode option" where
  "from_mode_str s =
     (if s = lit ''bare'' then Some Bare
      else if s = lit ''bare-user'' then Some BareUser
      else if s = lit ''bare-user-only'' then Some BareUserOnly
      else if s = lit ''bare-split-xattrs'' then Some BareSplitXattrs
      else if s = lit ''archive-z2'' \<or> s = lit ''archive'' then Some Archive
      else if s = lit ''bare-user-shared'' then Some BareUserShared
      else None)"

fun as_mode_str :: "repo_mode \<Rightarrow> bytes" where
  "as_mode_str Bare = lit ''bare''"
| "as_mode_str BareUser = lit ''bare-user''"
| "as_mode_str BareUserOnly = lit ''bare-user-only''"
| "as_mode_str BareSplitXattrs = lit ''bare-split-xattrs''"
| "as_mode_str Archive = lit ''archive-z2''"
| "as_mode_str BareUserShared = lit ''bare-user-shared''"

definition is_archive :: "repo_mode \<Rightarrow> bool" where
  "is_archive mode \<longleftrightarrow> mode = Archive"

definition loose_path :: "checksum \<Rightarrow> object_type \<Rightarrow> repo_mode \<Rightarrow> bytes" where
  "loose_path checksum ty mode =
     (let hex = to_hex checksum in
      take 2 hex @ [of_char CHR ''/''] @ drop 2 hex @ [of_char CHR ''.''] @ extension ty mode)"

record object_name =
  on_checksum :: checksum
  on_ty :: object_type

definition object_name_loose_path :: "object_name \<Rightarrow> repo_mode \<Rightarrow> bytes" where
  "object_name_loose_path n mode = loose_path (on_checksum n) (on_ty n) mode"

definition object_name_display :: "object_name \<Rightarrow> bytes" where
  "object_name_display n = to_hex (on_checksum n) @ [of_char CHR ''.''] @ type_str (on_ty n)"

subsection \<open>Lemmas\<close>

lemma objtype_u32: "objtype_from_u32 v = Ok ty \<longleftrightarrow> v = objtype_as_u32 ty"
  by (cases ty) (auto simp: objtype_from_u32_def)

lemma from_extension_extension: "from_extension (extension ty mode) = Some ty"
  by (cases ty; cases mode) (simp_all add: from_extension_def)

lemma from_extension_type_str: "from_extension (type_str ty) = Some ty"
  by (cases ty) (simp_all add: from_extension_def)

lemma from_mode_as_mode: "from_mode_str (as_mode_str mode) = Some mode"
  by (cases mode) (simp_all add: from_mode_str_def)

lemma extension_inj: "extension ty mode = extension ty' mode \<longleftrightarrow> ty = ty'"
  using from_extension_extension by (metis option.inject)

lemma loose_path_inj:
  assumes "is_checksum c" and "is_checksum d"
  shows "loose_path c ty mode = loose_path d ty' mode \<longleftrightarrow> c = d \<and> ty = ty'"
proof
  assume eq: "loose_path c ty mode = loose_path d ty' mode"
  have len: "length (to_hex c) = 64" "length (to_hex d) = 64"
    using assms by (simp_all add: is_checksum_def)
  then have "take 2 (to_hex c) = take 2 (to_hex d) \<and> drop 2 (to_hex c) = drop 2 (to_hex d) \<and>
      extension ty mode = extension ty' mode"
    using eq by (simp add: loose_path_def Let_def append_eq_append_conv)
  then show "c = d \<and> ty = ty'"
    by (metis append_take_drop_id to_hex_inj extension_inj)
qed simp

subsection \<open>Properties\<close>

text \<open>C10: two objects of a repository have the same loose path exactly when they have the same
  checksum and the same type.\<close>

theorem loose_path_names_one_object:
  assumes "is_checksum c" and "is_checksum d"
  shows "loose_path c ty mode = loose_path d ty' mode \<longleftrightarrow> c = d \<and> ty = ty'"
  using assms by (rule loose_path_inj)

theorem loose_path_names_one_object_witness:
  "loose_path (replicate 32 7) Commit Archive \<noteq> loose_path (replicate 32 8) Commit Archive"
proof -
  have "replicate 32 (7 :: u8) \<noteq> replicate 32 8" by (simp add: replicate_eq_replicate)
  moreover have "is_checksum (replicate 32 7)" "is_checksum (replicate 32 8)" by (simp_all add: is_checksum_def)
  ultimately show ?thesis using loose_path_names_one_object by blast
qed

text \<open>An object-type number, an extension in any mode, and a mode string parse back to what they
  were written from, and a number that is not the number of a type is refused.\<close>

theorem object_names_roundtrip:
  "(objtype_from_u32 v = Ok ty \<longleftrightarrow> v = objtype_as_u32 ty) \<and>
   from_extension (extension ty mode) = Some ty \<and> from_mode_str (as_mode_str mode) = Some mode"
  by (simp add: objtype_u32 from_extension_extension from_mode_as_mode)

end
