(* ===== verification/Core_Varint.thy ===== *)
theory Core_Varint
  imports Core_Base
begin

section \<open>LEB128 varints\<close>

text \<open>
  \<^verbatim>\<open>crates/ostrya-core/src/varint.rs\<close>: the encoder loop and the strict decoder over 64-bit
  words. The lemmas go through the list \<open>vi_bytes n\<close> of base-128 digits of a natural number:
  the encoder writes it, and the decoder accepts exactly such a list, so each value has one
  accepted encoding.
\<close>

lemma unat_drop7: "unat (drop_bit 7 (v :: u64)) = unat v div 128"
  by (subst unat_drop_bit_eq) (simp add: drop_bit_eq_div)

function varint_encode :: "u64 \<Rightarrow> bytes \<Rightarrow> bytes" where
  "varint_encode value out =
     (let byte = ucast (value AND 0x7f) :: u8; value = drop_bit 7 value in
      if value = 0 then out @ [byte] else varint_encode value (out @ [byte OR 0x80]))"
  by pat_completeness auto
termination
proof (relation "measure (\<lambda>(value, out). unat value)")
  fix v :: u64 and out :: bytes and byte :: u8 and v'
  assume "v' = drop_bit 7 v" and "v' \<noteq> 0"
  then have "unat v' = unat v div 128" and "unat v' \<noteq> 0"
    using unat_drop7 [of v] unat_eq_0 [of v'] by blast+
  then show "((v', out @ [byte OR 0x80]), v, out) \<in> measure (\<lambda>(v, out). unat v)" by auto
qed auto

declare varint_encode.simps [simp del]

fun varint_decode_from :: "nat \<Rightarrow> u64 \<Rightarrow> nat \<Rightarrow> bytes \<Rightarrow> (core_error, u64 \<times> nat) result" where
  "varint_decode_from i value shift [] = Err (InvalidVarint ''varint is truncated'')"
| "varint_decode_from i value shift (byte # input) =
     (let payload = ucast (byte AND 0x7f) :: u64 in
      if shift \<ge> 64 \<or> (shift = 63 \<and> payload > 1)
      then Err (InvalidVarint ''varint overflows 64 bits'')
      else
        let value = value OR push_bit shift payload in
        if byte AND 0x80 = 0 then
          if i > 0 \<and> byte = 0 then Err (InvalidVarint ''varint is not minimally encoded'')
          else Ok (value, i + 1)
        else varint_decode_from (i + 1) value (shift + 7) input)"

definition varint_decode :: "bytes \<Rightarrow> (core_error, u64 \<times> nat) result" where
  "varint_decode input = varint_decode_from 0 0 0 input"

subsection \<open>Base-128 digits\<close>

fun vi_bytes :: "nat \<Rightarrow> bytes" where
  "vi_bytes n = (if n < 128 then [of_nat n] else of_nat (n mod 128 + 128) # vi_bytes (n div 128))"

declare vi_bytes.simps [simp del]

lemma unat_and_7f: "unat (w AND 0x7f) = unat (w :: 'a::len word) mod 128"
proof -
  have "w AND 0x7f = take_bit 7 w" by (simp add: take_bit_eq_mask mask_numeral)
  moreover have "unat (take_bit 7 w) = take_bit 7 (unat w)" by (simp only: unsigned_take_bit_eq)
  moreover have "take_bit 7 (unat w) = unat w mod 128" by (simp add: take_bit_eq_mod)
  ultimately show ?thesis by simp
qed

lemma low7: "unat (ucast (b AND 0x7f) :: u64) = unat (b :: u8) mod 128"
proof -
  have "unat (ucast w :: u64) = unat (w :: u8)" for w
    using u8_unat_bound [of w] by (simp add: unsigned_ucast_eq take_bit_nat_eq_self)
  then show ?thesis by (simp only: unat_and_7f)
qed

lemma low7_u64: "unat (ucast (v AND 0x7f) :: u8) = unat (v :: u64) mod 128"
  by (simp add: unsigned_ucast_eq unat_and_7f take_bit_eq_mod)

lemma high_bit: "b AND 0x80 = 0 \<longleftrightarrow> unat (b :: u8) < 128"
proof -
  have "(b AND 0x80 = 0) \<longleftrightarrow> \<not> bit b 7"
    using and_exp_eq_0_iff_not_bit [of b 7] by simp
  also have "bit b 7 \<longleftrightarrow> bit (unat b) 7" by (simp add: bit_unsigned_iff)
  also have "bit (unat b) 7 \<longleftrightarrow> odd (unat b div 128)" by (simp add: bit_iff_odd)
  also have "(\<not> odd (unat b div 128)) \<longleftrightarrow> unat b < 128"
  proof -
    have "unat b div 128 = 0 \<or> unat b div 128 = 1" using u8_unat_bound [of b] by auto
    then show ?thesis by auto
  qed
  finally show ?thesis .
qed

lemma unat_or_high: "unat b < 128 \<Longrightarrow> unat (b OR 0x80 :: u8) = unat b + 128"
proof -
  assume b: "unat b < 128"
  then have "b AND 0x80 = 0" by (simp add: high_bit)
  then have "b OR 0x80 = b + 0x80" by (rule disjunctive_add_eq_or [symmetric])
  then show ?thesis using b by (simp add: unat_word_ariths)
qed

lemma u8_eqI: "unat (a :: u8) = unat b \<Longrightarrow> a = b"
  by (rule unsigned_word_eqI)

lemma unat_of_nat_u8: "n < 256 \<Longrightarrow> unat (of_nat n :: u8) = n"
  by (simp add: unat_of_nat)

lemma varint_encode_eq: "varint_encode v out = out @ vi_bytes (unat v)"
proof (induction v out rule: varint_encode.induct)
  case (1 v out)
  let ?b = "ucast (v AND 0x7f) :: u8"
  have z: "drop_bit 7 v = 0 \<longleftrightarrow> unat v < 128"
    using unat_eq_0 [of "drop_bit 7 v"] by (simp add: unat_drop7 div_eq_0_iff)
  show ?case
  proof (cases "unat v < 128")
    case True
    have "unat ?b = unat v" using True by (simp add: low7_u64)
    also have "\<dots> = unat (of_nat (unat v) :: u8)" by (rule unat_of_nat_u8 [symmetric]) (use True in simp)
    finally have "?b = of_nat (unat v)" by (rule u8_eqI)
    then show ?thesis using True z by (simp add: varint_encode.simps [of v] vi_bytes.simps [of "unat v"] Let_def)
  next
    case False
    have "unat (?b OR 0x80) = unat v mod 128 + 128" by (simp add: low7_u64 unat_or_high)
    also have "\<dots> = unat (of_nat (unat v mod 128 + 128) :: u8)" by (rule unat_of_nat_u8 [symmetric]) simp
    finally have b: "?b OR 0x80 = of_nat (unat v mod 128 + 128)" by (rule u8_eqI)
    have "varint_encode (drop_bit 7 v) (out @ [?b OR 0x80]) = (out @ [?b OR 0x80]) @ vi_bytes (unat (drop_bit 7 v))"
      using False z by (intro 1) auto
    then show ?thesis
      using False z by (simp add: varint_encode.simps [of v] vi_bytes.simps [of "unat v"] Let_def b unat_drop7)
  qed
qed

lemma unat_or_shift:
  fixes x p :: u64
  assumes "unat x < 2 ^ s" and "unat x + unat p * 2 ^ s < 2 ^ 64"
  shows "unat (x OR push_bit s p) = unat x + unat p * 2 ^ s"
proof -
  have "unat (push_bit s p) = take_bit 64 (push_bit s (unat p))"
    by (simp only: unsigned_push_bit_eq) simp
  also have "push_bit s (unat p) = unat p * 2 ^ s" by (rule push_bit_eq_mult)
  also have "take_bit 64 (unat p * 2 ^ s) = unat p * 2 ^ s"
    using assms(2) by (intro take_bit_nat_eq_self) linarith
  finally have "unat (push_bit s p) = unat p * 2 ^ s" .
  moreover have "\<not> bit (unat x) n \<or> \<not> bit (unat p * 2 ^ s) n" for n
  proof (cases "n < s")
    case True
    then show ?thesis by (simp add: bit_push_bit_iff flip: push_bit_eq_mult)
  next
    case False
    have "take_bit s (unat x) = unat x" using assms(1) by (simp add: take_bit_nat_eq_self)
    then show ?thesis using False bit_take_bit_iff [of s "unat x" n] by simp
  qed
  then have "unat x + unat p * 2 ^ s = unat x OR (unat p * 2 ^ s)" by (rule disjunctive_add)
  ultimately show ?thesis by (simp add: unsigned_or_eq)
qed


lemma of_nat_eq_u8: "n < 256 \<Longrightarrow> of_nat n = (b :: u8) \<longleftrightarrow> n = unat b"
  using unat_of_nat_u8 [of n] by auto

lemma vi_prefix:
  "prefix (vi_bytes m) (byte # input) \<longleftrightarrow>
     (if unat byte < 128 then m = unat byte
      else 128 \<le> m \<and> m mod 128 = unat byte mod 128 \<and> prefix (vi_bytes (m div 128)) input)"
proof (cases "m < 128")
  case True
  then show ?thesis by (auto simp: vi_bytes.simps [of m] of_nat_eq_u8)
next
  case False
  have b: "unat byte < 256" by (rule u8_unat_bound)
  have "of_nat (m mod 128 + 128) = byte \<longleftrightarrow> m mod 128 + 128 = unat byte"
    by (rule of_nat_eq_u8) simp
  also have "\<dots> \<longleftrightarrow> 128 \<le> unat byte \<and> m mod 128 = unat byte mod 128"
  proof (cases "unat byte < 128")
    case False
    then have "unat byte mod 128 = unat byte - 128" using b by (simp add: le_mod_geq)
    then show ?thesis using False by linarith
  qed auto
  finally show ?thesis using False by (auto simp: vi_bytes.simps [of m])
qed

lemma length_vi_bytes: "length (vi_bytes m) = (if m < 128 then 1 else Suc (length (vi_bytes (m div 128))))"
  by (simp add: vi_bytes.simps [of m])

text \<open>The guard of the decoder refuses exactly the digits that do not fit in 64 bits.\<close>

lemma varint_guard_overflow:
  assumes "shift \<ge> 64 \<or> (shift = 63 \<and> 1 < unat byte mod 128)" and "0 < m"
    and "prefix (vi_bytes m) (byte # input)"
  shows "2 ^ 64 \<le> m * 2 ^ shift"
proof (cases "shift \<ge> 64")
  case True
  then have "(2 :: nat) ^ 64 \<le> 2 ^ shift" by (rule power_increasing) simp
  then show ?thesis using assms(2) by (cases m) auto
next
  case False
  then have s: "shift = 63" and "1 < unat byte mod 128" using assms(1) by auto
  moreover have "m mod 128 = unat byte mod 128" using assms(3) by (auto simp: vi_prefix split: if_splits)
  ultimately have "2 \<le> m" using mod_less_eq_dividend [of m 128] by linarith
  then show ?thesis using s by simp
qed

lemma varint_guard_fits:
  fixes x p :: nat
  assumes "\<not> (shift \<ge> 64 \<or> (shift = 63 \<and> 1 < p))" and "shift = 7 * i" and "x < 2 ^ shift" and "p < 128"
  shows "x + p * 2 ^ shift < 2 ^ 64" and "x + p * 2 ^ shift < 2 ^ (shift + 7)"
proof -
  have "x + p * 2 ^ shift < 2 ^ shift + p * 2 ^ shift" using assms(3) by simp
  also have "\<dots> = (p + 1) * 2 ^ shift" by simp
  finally have le: "x + p * 2 ^ shift < (p + 1) * 2 ^ shift" .
  have le7: "(p + 1) * 2 ^ shift \<le> 2 ^ (shift + 7)"
    using mult_le_mono1 [of "p + 1" "2 ^ 7" "2 ^ shift"] assms(4) by (simp add: power_add mult.commute)
  then show "x + p * 2 ^ shift < 2 ^ (shift + 7)" using le by linarith
  have "(p + 1) * 2 ^ shift \<le> 2 ^ 64"
  proof (cases "shift = 63")
    case True
    then show ?thesis using assms(1) by auto
  next
    case False
    then have "shift + 7 \<le> 64" using assms(1,2) by presburger
    then have "(2 :: nat) ^ (shift + 7) \<le> 2 ^ 64" by (rule power_increasing) simp
    then show ?thesis using le7 by linarith
  qed
  then show "x + p * 2 ^ shift < 2 ^ 64" using le by linarith
qed

text \<open>One more digit: the value of the rest, shifted by seven bits, plus the digit.\<close>

lemma vi_cons_digit:
  fixes v x y :: nat
  assumes "\<not> unat byte < 128" and y: "y = x + unat byte mod 128 * 2 ^ shift"
  shows "(\<exists>m. 0 < m \<and> v = y + m * 2 ^ (shift + 7) \<and>
             prefix (vi_bytes m) input \<and> n = i + 1 + length (vi_bytes m)) \<longleftrightarrow>
    (\<exists>m. (0 < i \<longrightarrow> 0 < m) \<and> v = x + m * 2 ^ shift \<and>
             prefix (vi_bytes m) (byte # input) \<and> n = i + length (vi_bytes m))" (is "?L \<longleftrightarrow> ?R")
proof -
  have eq: "x + m * 2 ^ shift = y + m div 128 * 2 ^ (shift + 7)" if "m mod 128 = unat byte mod 128" for m
  proof -
    have "m * 2 ^ shift = (m div 128 * 128 + unat byte mod 128) * 2 ^ shift"
      using that by (metis div_mult_mod_eq)
    then show ?thesis using y by (simp add: algebra_simps power_add)
  qed
  show ?thesis
  proof
    assume ?L
    then obtain m where m: "0 < m" "v = y + m * 2 ^ (shift + 7)" "prefix (vi_bytes m) input"
      "n = i + 1 + length (vi_bytes m)" by blast
    let ?m = "m * 128 + unat byte mod 128"
    have "?m div 128 = m" "?m mod 128 = unat byte mod 128" "128 \<le> ?m" using m(1) by auto
    then show ?R
      using assms(1) m eq [of ?m] by (intro exI [of _ ?m]) (simp add: vi_prefix length_vi_bytes [of ?m])
  next
    assume ?R
    then obtain m where "v = x + m * 2 ^ shift" "prefix (vi_bytes m) (byte # input)"
      "n = i + length (vi_bytes m)" by blast
    then show ?L
      using assms(1) eq [of m]
      by (intro exI [of _ "m div 128"]) (simp add: vi_prefix length_vi_bytes [of m] div_greater_zero_iff)
  qed
qed

lemma varint_decode_from_iff:
  assumes "shift = 7 * i" and "unat x < 2 ^ shift"
  shows "varint_decode_from i x shift input = Ok (v, n) \<longleftrightarrow>
    (\<exists>m. (0 < i \<longrightarrow> 0 < m) \<and> unat v = unat x + m * 2 ^ shift \<and>
         prefix (vi_bytes m) input \<and> n = i + length (vi_bytes m))"
  using assms
proof (induction input arbitrary: i x shift)
  case Nil
  have "vi_bytes m \<noteq> []" for m by (simp add: vi_bytes.simps)
  then show ?case by simp
next
  case (Cons byte input)
  let ?p = "ucast (byte AND 0x7f) :: u64"
  let ?x = "x OR push_bit shift ?p"
  let ?guard = "shift \<ge> 64 \<or> (shift = 63 \<and> 1 < unat byte mod 128)"
  have p: "unat ?p = unat byte mod 128" by (rule low7)
  then have guard: "(shift \<ge> 64 \<or> (shift = 63 \<and> ?p > 1)) = ?guard" by (auto simp: word_less_nat_alt)
  show ?case
  proof (cases ?guard)
    case True
    have "unat v < 2 ^ 64" using unsigned_less [of v] by simp
    moreover have "0 < i" using True Cons.prems(1) by auto
    ultimately have "\<not> (unat v = unat x + m * 2 ^ shift \<and> (0 < i \<longrightarrow> 0 < m) \<and> prefix (vi_bytes m) (byte # input))" for m
      using varint_guard_overflow [OF True, of m input] by fastforce
    then show ?thesis using True guard by (auto simp: Let_def)
  next
    case False
    note fits = varint_guard_fits [OF False Cons.prems]
    have x: "unat ?x = unat x + unat byte mod 128 * 2 ^ shift"
      using unat_or_shift [OF Cons.prems(2), of ?p] fits p by simp
    show ?thesis
    proof (cases "unat byte < 128")
      case True
      have "v = ?x \<longleftrightarrow> unat v = unat ?x" by (metis unsigned_word_eqI)
      moreover have "byte = 0 \<longleftrightarrow> unat byte = 0" by (simp add: unat_eq_0)
      ultimately show ?thesis
        using False True x guard by (auto simp: Let_def high_bit vi_prefix length_vi_bytes [of "unat byte"])
    next
      case big: False
      have "varint_decode_from (i + 1) ?x (shift + 7) input = Ok (v, n) \<longleftrightarrow>
        (\<exists>m. 0 < m \<and> unat v = unat ?x + m * 2 ^ (shift + 7) \<and>
           prefix (vi_bytes m) input \<and> n = i + 1 + length (vi_bytes m))"
        using Cons.IH [of "shift + 7" "i + 1" ?x] Cons.prems(1) x fits by simp
      then show ?thesis
        using False big guard vi_cons_digit [OF big x, of "unat v" input n i] by (auto simp: Let_def high_bit)
    qed
  qed
qed

lemma varint_decode_iff:
  "varint_decode input = Ok (v, n) \<longleftrightarrow> prefix (varint_encode v []) input \<and> n = length (varint_encode v [])"
  using varint_decode_from_iff [of 0 0 0 input v n] by (auto simp: varint_decode_def varint_encode_eq)

lemma length_varint_encode: "length (varint_encode v []) \<le> 10"
proof -
  have "m < 128 ^ k \<Longrightarrow> 0 < k \<Longrightarrow> length (vi_bytes m) \<le> k" for m k
  proof (induction k arbitrary: m)
    case (Suc k)
    then show ?case
      by (cases "m < 128"; cases "k = 0") (auto simp: length_vi_bytes [of m] less_mult_imp_div_less)
  qed simp
  moreover have "unat v < 2 ^ 64" using unsigned_less [of v] by simp
  ultimately show ?thesis using varint_encode_eq [of v "[]"] by fastforce
qed

subsection \<open>Properties\<close>

text \<open>C25: a varint decodes to a value and a length exactly when the encoding of that value is a
  prefix of the input of that length. So each accepted varint is the one the encoder writes, the
  decoder consumes just that prefix, and overlong, overflowing and truncated input is refused.\<close>

theorem varint_decode_exact:
  "varint_decode input = Ok (v, n) \<longleftrightarrow> prefix (varint_encode v []) input \<and> n = length (varint_encode v [])"
  by (rule varint_decode_iff)

text \<open>A varint takes one to ten bytes.\<close>

theorem varint_length_bounds: "1 \<le> length (varint_encode v []) \<and> length (varint_encode v []) \<le> 10"
proof -
  have "varint_encode v [] \<noteq> []" by (simp add: varint_encode_eq vi_bytes.simps [of "unat v"])
  then show ?thesis using length_varint_encode [of v] by (cases "varint_encode v []") simp_all
qed

end
