(* ===== verification/Core_Sizes.thy ===== *)
theory Core_Sizes
  imports Core_Object Core_Varint "HOL-Library.Multiset"
begin

section \<open>The ents of the \<open>ostree.sizes\<close> metadata\<close>

text \<open>
  \<^verbatim>\<open>crates/ostrya-core/src/sizes.rs\<close>. A packed entry is the checksum, two varints and an optional
  type byte. Unpacking accepts exactly the packed ents.
\<close>

record size_entry =
  se_checksum :: checksum
  se_compressed :: u64
  se_unpacked :: u64
  se_objtype :: "object_type option"

definition pack_entry :: "size_entry \<Rightarrow> bytes \<Rightarrow> bytes" where
  "pack_entry entry out =
     (let out = out @ se_checksum entry;
          out = varint_encode (se_compressed entry) out;
          out = varint_encode (se_unpacked entry) out in
      case se_objtype entry of
        Some ty \<Rightarrow> out @ [ucast (objtype_as_u32 ty)]
      | None \<Rightarrow> out)"

definition unpack_entry :: "bytes \<Rightarrow> (core_error, size_entry) result" where
  "unpack_entry buf =
     (if length buf < 32 then Err (InvalidSizeEntry ''entry is shorter than a checksum'')
      else
        andthen (from_ay (take 32 buf)) (\<lambda>checksum.
        let pos = 32 in
        andthen (varint_decode (drop pos buf)) (\<lambda>(compressed, n).
        let pos = pos + n in
        andthen (varint_decode (drop pos buf)) (\<lambda>(unpacked, m).
        let pos = pos + m in
        andthen
          (if length buf - pos = 0 then Ok None
           else if length buf - pos = 1 then map_ok Some (objtype_from_u32 (ucast (buf ! pos)))
           else Err (InvalidSizeEntry ''entry has trailing bytes'')) (\<lambda>objtype.
        Ok \<lparr>se_checksum = checksum, se_compressed = compressed, se_unpacked = unpacked,
             se_objtype = objtype\<rparr>)))))"

definition pack_sizes :: "size_entry list \<Rightarrow> bytes list" where
  "pack_sizes ents = map (\<lambda>e. pack_entry e []) (sort_key se_checksum ents)"

subsection \<open>Lemmas\<close>

fun type_byte :: "object_type option \<Rightarrow> bytes" where
  "type_byte (Some ty) = [ucast (objtype_as_u32 ty)]"
| "type_byte None = []"

lemma pack_entry_eq:
  "pack_entry e out = out @ se_checksum e @ varint_encode (se_compressed e) [] @ varint_encode (se_unpacked e) [] @
     type_byte (se_objtype e)"
  by (cases "se_objtype e") (simp_all add: pack_entry_def Let_def varint_encode_eq)

lemma objtype_byte: "objtype_from_u32 (ucast (b :: u8)) = Ok ty \<longleftrightarrow> b = ucast (objtype_as_u32 ty)"
proof -
  have "ucast (ucast (objtype_as_u32 ty) :: u8) = objtype_as_u32 ty" by (cases ty) simp_all
  moreover have "ucast (ucast b :: u32) = b" by (rule bit_word_eqI) (simp add: bit_unsigned_iff)
  ultimately show ?thesis unfolding objtype_u32 by metis
qed

lemma type_byte_iff:
  assumes "pos \<le> length buf"
  shows "(if length buf - pos = 0 then Ok None
      else if length buf - pos = 1 then map_ok Some (objtype_from_u32 (ucast (buf ! pos)))
      else Err (InvalidSizeEntry ''entry has trailing bytes'')) = Ok ty \<longleftrightarrow> drop pos buf = type_byte ty"
proof -
  consider (none) "length buf - pos = 0" | (one) "length buf - pos = 1" | (more) "length buf - pos > 1" by linarith
  then show ?thesis
  proof cases
    case none
    then show ?thesis using assms by (cases ty) auto
  next
    case one
    then have "drop pos buf = [buf ! pos]"
      using Cons_nth_drop_Suc [of pos buf] by simp
    then show ?thesis using one by (cases ty) (auto simp: map_ok_Ok objtype_byte)
  next
    case more
    then have "drop pos buf \<noteq> type_byte ty" by (cases ty) (auto dest: arg_cong [where f = length])
    then show ?thesis using more by auto
  qed
qed

lemma unpack_entry_iff: "unpack_entry buf = Ok e \<longleftrightarrow> is_checksum (se_checksum e) \<and> buf = pack_entry e []"
proof -
  obtain c cs un ty where e: "e = \<lparr>se_checksum = c, se_compressed = cs, se_unpacked = un, se_objtype = ty\<rparr>"
    by (cases e)
  let ?cs = "varint_encode cs []" and ?un = "varint_encode un []"
  have pos: "32 + length ?cs + length ?un \<le> length buf"
    if "prefix ?un (drop (32 + length ?cs) buf)" "32 \<le> length buf" "prefix ?cs (drop 32 buf)"
    using that prefix_length_le [OF that(1)] prefix_length_le [OF that(3)] by (cases "?un = []") auto
  have "unpack_entry buf = Ok e \<longleftrightarrow> 32 \<le> length buf \<and> c = take 32 buf \<and> prefix ?cs (drop 32 buf) \<and>
      prefix ?un (drop (32 + length ?cs) buf) \<and> drop (32 + length ?cs + length ?un) buf = type_byte ty"
    using pos type_byte_iff [of "32 + length ?cs + length ?un" buf ty]
    by (auto simp: unpack_entry_def e Let_def andthen_Ok not_less from_ay_iff is_checksum_def varint_decode_iff)
  also have "\<dots> \<longleftrightarrow> is_checksum c \<and> buf = c @ ?cs @ ?un @ type_byte ty"
  proof
    assume a: "32 \<le> length buf \<and> c = take 32 buf \<and> prefix ?cs (drop 32 buf) \<and>
      prefix ?un (drop (32 + length ?cs) buf) \<and> drop (32 + length ?cs + length ?un) buf = type_byte ty"
    obtain r where r: "drop 32 buf = ?cs @ r" using a by (auto elim: prefixE)
    have "drop (32 + length ?cs) buf = r" using arg_cong [OF r, of "drop (length ?cs)"] by (simp add: add.commute)
    then obtain q where q: "r = ?un @ q" using a by (auto elim: prefixE)
    have "drop (32 + length ?cs + length ?un) buf = q"
      using arg_cong [OF \<open>drop (32 + length ?cs) buf = r\<close>, of "drop (length ?un)"] q by (simp add: add.commute)
    then show "is_checksum c \<and> buf = c @ ?cs @ ?un @ type_byte ty"
      using a r q append_take_drop_id [of 32 buf] by (simp add: is_checksum_def)
  qed (auto simp: is_checksum_def)
  finally show ?thesis by (simp add: pack_entry_eq e)
qed

subsection \<open>Properties\<close>

text \<open>\<open>unpack_entry\<close> accepts a buffer with an entry exactly when it is the packed form of that entry.\<close>

theorem size_entry_roundtrip:
  "unpack_entry buf = Ok e \<longleftrightarrow> is_checksum (se_checksum e) \<and> buf = pack_entry e []"
  by (rule unpack_entry_iff)

text \<open>C36: the packed array holds each entry once, in the order of the hex forms of the checksums.\<close>

theorem pack_sizes_sorted:
  assumes "\<forall>e \<in> set ents. is_checksum (se_checksum e)"
  shows "\<exists>es. mset es = mset ents \<and> try_map unpack_entry (pack_sizes ents) = Ok es \<and>
    sorted (map (\<lambda>e. to_hex (se_checksum e)) es)"
proof (intro exI conjI)
  let ?es = "sort_key se_checksum ents"
  show "mset ?es = mset ents" by simp
  show "try_map unpack_entry (pack_sizes ents) = Ok ?es"
    using assms by (simp add: pack_sizes_def try_map_Ok list_all2_map1 list_all2_same unpack_entry_iff)
  have "to_hex c \<le> to_hex d \<longleftrightarrow> c \<le> d" for c d
    using to_hex_less [of d c] by (simp add: not_less [symmetric])
  moreover have "sorted (map se_checksum ?es)" by simp
  ultimately show "sorted (map (\<lambda>e. to_hex (se_checksum e)) ?es)" by (simp add: sorted_wrt_map)
qed

theorem pack_sizes_sorted_witness:
  "\<exists>es. mset es = {#\<lparr>se_checksum = replicate 32 9, se_compressed = 1, se_unpacked = 300, se_objtype = Some File\<rparr>#} \<and>
     try_map unpack_entry (pack_sizes [\<lparr>se_checksum = replicate 32 9, se_compressed = 1, se_unpacked = 300,
       se_objtype = Some File\<rparr>]) = Ok es \<and> sorted (map (\<lambda>e. to_hex (se_checksum e)) es)"
  using pack_sizes_sorted [of "[\<lparr>se_checksum = replicate 32 9, se_compressed = 1, se_unpacked = 300,
       se_objtype = Some File\<rparr>]"]
  by (simp add: is_checksum_def)

end
