(* ===== verification/Core_Xattr.thy ===== *)
theory Core_Xattr
  imports Core_Object "HOL-Library.Multiset"
begin

section \<open>Validated iteration and extended attributes\<close>

text \<open>
  \<^verbatim>\<open>crates/ostrya-core/src/valiter.rs\<close> and \<^verbatim>\<open>xattr.rs\<close>. \<open>ValidatedIter\<close> checks each element of a
  serialized array and stops for good at the first error; collecting it is decoding the whole array and
  running the steps over the elements. An xattr set is canonical when its names are strictly sorted and
  each is in the stored form (\<open>xattrs_ok\<close>); \<open>from_gvariant\<close> accepts exactly the serializations of
  canonical sets, and \<open>new\<close> builds the canonical set of the given pairs.
\<close>

subsection \<open>The validating adapter\<close>

record 's validated_iter =
  vi_inner :: array_reader
  vi_state :: 's
  vi_failed :: bool

definition validated_iter_new :: "array_reader \<Rightarrow> 's \<Rightarrow> 's validated_iter" where
  "validated_iter_new inner state = \<lparr>vi_inner = inner, vi_state = state, vi_failed = False\<rparr>"

definition validated_iter_next ::
  "'e decoder \<Rightarrow> ('s \<Rightarrow> 'e \<Rightarrow> (core_error, 't \<times> 's) result) \<Rightarrow> 's validated_iter \<Rightarrow>
    ((core_error, 't) result \<times> 's validated_iter) option" where
  "validated_iter_next d step it =
     (if vi_failed it then None
      else case array_iter_next d (vi_inner it) of
        None \<Rightarrow> None
      | Some (Err e, r) \<Rightarrow> Some (Err (Gvariant e), it\<lparr>vi_inner := r, vi_failed := True\<rparr>)
      | Some (Ok raw, r) \<Rightarrow>
          (case step (vi_state it) raw of
             Ok (x, s) \<Rightarrow> Some (Ok x, it\<lparr>vi_inner := r, vi_state := s\<rparr>)
           | Err e \<Rightarrow> Some (Err e, it\<lparr>vi_inner := r, vi_failed := True\<rparr>)))"

lemma array_iter_next_progress:
  "array_iter_next d r = Some (x, r') \<Longrightarrow> ar_n r' - ar_i r' < ar_n r - ar_i r"
  using next_slice_progress
  by (auto simp: array_iter_next_def split: option.splits result.splits)

lemma validated_iter_next_progress:
  "validated_iter_next d step it = Some (Ok x, it') \<Longrightarrow>
     ar_n (vi_inner it') - ar_i (vi_inner it') < ar_n (vi_inner it) - ar_i (vi_inner it)"
  using array_iter_next_progress
  by (auto simp: validated_iter_next_def split: if_splits option.splits result.splits)

text \<open>The loops \<open>for item in iter { out.push(item?) }\<close>.\<close>

function validated_iter_collect ::
  "'e decoder \<Rightarrow> ('s \<Rightarrow> 'e \<Rightarrow> (core_error, 't \<times> 's) result) \<Rightarrow> 's validated_iter \<Rightarrow> (core_error, 't list) result"
where
  "validated_iter_collect d step it =
     (case validated_iter_next d step it of
        None \<Rightarrow> Ok []
      | Some (Err e, _) \<Rightarrow> Err e
      | Some (Ok x, it') \<Rightarrow> andthen (validated_iter_collect d step it') (\<lambda>xs. Ok (x # xs)))"
  by pat_completeness auto
termination
  by (relation "measure (\<lambda>(d, step, it). ar_n (vi_inner it) - ar_i (vi_inner it))")
    (auto dest: validated_iter_next_progress)

declare validated_iter_collect.simps [simp del]

text \<open>The steps over the raw elements, as the specification of the adapter.\<close>

fun run_steps :: "('s \<Rightarrow> 'e \<Rightarrow> ('x, 't \<times> 's) result) \<Rightarrow> 's \<Rightarrow> 'e list \<Rightarrow> ('x, 't list) result" where
  "run_steps step s [] = Ok []"
| "run_steps step s (x # xs) =
     andthen (step s x) (\<lambda>(y, s). andthen (run_steps step s xs) (\<lambda>ys. Ok (y # ys)))"

lemma array_iter_collect_next:
  "array_iter_collect d r =
     (case array_iter_next d r of
        None \<Rightarrow> Ok []
      | Some (x, r') \<Rightarrow> andthen x (\<lambda>x. andthen (array_iter_collect d r') (\<lambda>xs. Ok (x # xs))))"
  unfolding array_iter_collect_def array_iter_next_def
  by (subst read_elems.simps) (auto split: option.splits result.splits)

lemma validated_iter_collect_iff:
  "\<not> vi_failed it \<Longrightarrow> validated_iter_collect d step it = Ok ys \<longleftrightarrow>
     (\<exists>xs. array_iter_collect d (vi_inner it) = Ok xs \<and> run_steps step (vi_state it) xs = Ok ys)"
proof (induction d step it arbitrary: ys rule: validated_iter_collect.induct)
  case (1 d step it)
  note collect = array_iter_collect_next [of d "vi_inner it"]
  show ?case
  proof (cases "array_iter_next d (vi_inner it)")
    case None
    then show ?thesis using 1(2)
      by (subst validated_iter_collect.simps) (auto simp: validated_iter_next_def collect)
  next
    case (Some p)
    obtain x r where p: "p = (x, r)" by (cases p)
    show ?thesis
    proof (cases x)
      case (Err e)
      then show ?thesis using 1(2) Some p
        by (subst validated_iter_collect.simps) (simp add: validated_iter_next_def collect)
    next
      case (Ok raw)
      note next_raw = Some [unfolded p Ok]
      show ?thesis
      proof (cases "step (vi_state it) raw")
        case (Err e)
        then show ?thesis using 1(2) next_raw
          by (subst validated_iter_collect.simps) (auto simp: validated_iter_next_def collect result_simps)
      next
        case (Ok ts)
        obtain t s where ts: "ts = (t, s)" by (cases ts)
        let ?it = "it\<lparr>vi_inner := r, vi_state := s\<rparr>"
        have n: "validated_iter_next d step it = Some (Ok t, ?it)"
          using 1(2) next_raw Ok ts by (simp add: validated_iter_next_def)
        from 1(1) [OF n refl refl] 1(2)
        have IH: "validated_iter_collect d step ?it = Ok zs \<longleftrightarrow>
            (\<exists>xs. array_iter_collect d r = Ok xs \<and> run_steps step s xs = Ok zs)" for zs by simp
        show ?thesis
          using next_raw Ok ts IH
          by (subst validated_iter_collect.simps) (auto simp: n collect result_simps)
      qed
    qed
  qed
qed

lemma validated_new:
  "validated_iter_collect d step (validated_iter_new r s) = Ok ys \<longleftrightarrow>
     (\<exists>xs. array_iter_collect d r = Ok xs \<and> run_steps step s xs = Ok ys)"
  by (simp add: validated_iter_new_def validated_iter_collect_iff)

lemma run_steps_strict:
  fixes key :: "'e \<Rightarrow> 'k::linorder"
  assumes "\<And>s x y s'. step s x = Ok (y, s') \<longleftrightarrow>
    chk x = Ok y \<and> s' = Some (key x) \<and> (case s of None \<Rightarrow> True | Some p \<Rightarrow> p < key x)"
  shows "run_steps step s xs = Ok ys \<longleftrightarrow>
    try_map chk xs = Ok ys \<and> sorted_wrt (<) (map key xs) \<and> (\<forall>p. s = Some p \<longrightarrow> (\<forall>x \<in> set xs. p < key x))"
proof (induction xs arbitrary: s ys)
  case (Cons x xs)
  have "run_steps step s (x # xs) = Ok ys \<longleftrightarrow>
    (\<exists>y zs. chk x = Ok y \<and> (case s of None \<Rightarrow> True | Some p \<Rightarrow> p < key x) \<and>
       run_steps step (Some (key x)) xs = Ok zs \<and> ys = y # zs)"
    by (auto simp: andthen_Ok assms)
  also have "\<dots> \<longleftrightarrow> (\<exists>y zs. chk x = Ok y \<and> (case s of None \<Rightarrow> True | Some p \<Rightarrow> p < key x) \<and>
       try_map chk xs = Ok zs \<and> sorted_wrt (<) (map key xs) \<and> (\<forall>x' \<in> set xs. key x < key x') \<and> ys = y # zs)"
    unfolding Cons.IH by auto
  also have "\<dots> \<longleftrightarrow> try_map chk (x # xs) = Ok ys \<and> sorted_wrt (<) (map key (x # xs)) \<and>
      (\<forall>p. s = Some p \<longrightarrow> (\<forall>x' \<in> set (x # xs). p < key x'))"
    by (cases s) (auto simp: andthen_Ok map_ok_Ok dest: less_trans)
  finally show ?case .
qed auto

subsection \<open>Extended attribute sets\<close>

type_synonym xattrs = "(bytes \<times> bytes) list"

definition check_name :: "bytes \<Rightarrow> (core_error, unit) result" where
  "check_name name =
     (case split_last name of
        None \<Rightarrow> Err (InvalidXattrs ''empty xattr name'')
      | Some (final, rest) \<Rightarrow>
          if final \<noteq> 0 then Err (InvalidXattrs ''xattr name is missing its terminating NUL'')
          else if rest = [] then Err (InvalidXattrs ''xattr name is empty before its NUL'')
          else if 0 \<in> set rest then Err (InvalidXattrs ''xattr name has an interior NUL'')
          else Ok ())"

text \<open>The loop over \<open>windows(2)\<close>.\<close>

fun check_duplicates :: "xattrs \<Rightarrow> (core_error, unit) result" where
  "check_duplicates (a # b # ps) =
     (if fst a = fst b then Err (InvalidXattrs ''duplicate xattr name'') else check_duplicates (b # ps))"
| "check_duplicates ps = Ok ()"

definition xattrs_empty :: xattrs where
  "xattrs_empty = []"

definition xattrs_new :: "(bytes \<times> bytes) list \<Rightarrow> (core_error, xattrs) result" where
  "xattrs_new pairs =
     (let pairs = sort_key fst pairs in
      andthen (check_duplicates pairs) (\<lambda>_.
      andthen (try_each (\<lambda>(name, _). check_name name) pairs) (\<lambda>_.
      Ok pairs)))"

abbreviation entry_enc :: "(bytes \<times> bytes) encoder" where
  "entry_enc \<equiv> tuple_enc (enc_member bytes_enc (enc_last bytes_enc))"

abbreviation entry_dec :: "(bytes \<times> bytes) decoder" where
  "entry_dec \<equiv> tuple_dec (dec_member bytes_dec (dec_last bytes_dec))"

definition xattrs_enc :: "xattrs encoder" where
  "xattrs_enc = \<lparr>e_alignment = 1, e_fixed = None,
     encode = (\<lambda>xs out. write_array out (e_alignment entry_enc) (e_fixed entry_enc \<noteq> None) (length xs)
       (\<lambda>out i. case xs ! i of (name, val) \<Rightarrow> encode entry_enc (name, val) out))\<rparr>"

definition xattrs_to_gvariant :: "xattrs \<Rightarrow> (core_error, bytes) result" where
  "xattrs_to_gvariant xs = from_gv (encode_to_vec xattrs_enc xs)"

record xattrs_ref =
  xr_entries :: array_reader

definition xattrs_ref_parse :: "bytes \<Rightarrow> (core_error, xattrs_ref) result" where
  "xattrs_ref_parse data =
     andthen (from_gv (decode (array_iter_dec entry_dec) data)) (\<lambda>r. Ok \<lparr>xr_entries = r\<rparr>)"

definition xattrs_step ::
  "bytes option \<Rightarrow> bytes \<times> bytes \<Rightarrow> (core_error, (bytes \<times> bytes) \<times> bytes option) result" where
  "xattrs_step prev nv =
     (case nv of (name, val) \<Rightarrow>
        andthen (check_name name) (\<lambda>_.
          if (case prev of Some p \<Rightarrow> p \<ge> name | None \<Rightarrow> False)
          then Err (InvalidXattrs ''xattr names are not strictly sorted'')
          else Ok ((name, val), Some name)))"

definition xattrs_ref_iter :: "xattrs_ref \<Rightarrow> bytes option validated_iter" where
  "xattrs_ref_iter x = validated_iter_new (xr_entries x) None"

definition xattrs_ref_to_owned :: "xattrs_ref \<Rightarrow> (core_error, xattrs) result" where
  "xattrs_ref_to_owned x = validated_iter_collect entry_dec xattrs_step (xattrs_ref_iter x)"

definition xattrs_from_gvariant :: "bytes \<Rightarrow> (core_error, xattrs) result" where
  "xattrs_from_gvariant data = andthen (xattrs_ref_parse data) xattrs_ref_to_owned"

subsection \<open>The canonical form\<close>

definition name_ok :: "bytes \<Rightarrow> bool" where
  "name_ok name \<longleftrightarrow> (\<exists>t. t \<noteq> [] \<and> 0 \<notin> set t \<and> name = t @ [0])"

definition xattrs_ok :: "xattrs \<Rightarrow> bool" where
  "xattrs_ok xs \<longleftrightarrow> sorted_wrt (<) (map fst xs) \<and> (\<forall>x \<in> set xs. name_ok (fst x))"

lemma check_name_Ok [result_simps]: "check_name name = Ok u \<longleftrightarrow> name_ok name"
  by (cases name rule: rev_cases)
    (auto simp: check_name_def name_ok_def split_last_def)

lemma entry_codec: "gv_codec entry_enc entry_dec (\<lambda>_. True)"
  using codec_tuple2 [OF bytes_c.gv_codec_axioms bytes_c.gv_codec_axioms] by (simp add: case_prod_unfold)

interpretation entry_c: gv_codec entry_enc entry_dec "\<lambda>_. True"
  by (rule entry_codec)

lemma entry_alignment: "e_alignment entry_enc = 1"
  by code_simp

lemma xattrs_enc_eq: "xattrs_enc = slice_enc entry_enc"
  using entry_alignment by (simp add: xattrs_enc_def slice_enc_def case_prod_unfold fun_eq_iff)

lemma xattrs_step_Ok:
  "xattrs_step s x = Ok (y, s') \<longleftrightarrow>
     (if name_ok (fst x) then Ok x else Err ()) = Ok y \<and> s' = Some (fst x) \<and> (case s of None \<Rightarrow> True | Some p \<Rightarrow> p < fst x)"
  by (cases x; cases s) (auto simp: xattrs_step_def andthen_Ok check_name_Ok)

lemma run_xattrs_step: "run_steps xattrs_step None xs = Ok ys \<longleftrightarrow> ys = xs \<and> xattrs_ok xs"
proof -
  have "try_map (\<lambda>x. if name_ok (fst x) then Ok x else Err ()) xs = Ok ys \<longleftrightarrow>
      ys = xs \<and> (\<forall>x \<in> set xs. name_ok (fst x))"
    by (induction xs arbitrary: ys) (auto simp: andthen_Ok map_ok_Ok)
  then show ?thesis
    using run_steps_strict [where s = None and xs = xs and ys = ys, OF xattrs_step_Ok] by (auto simp: xattrs_ok_def)
qed

lemma xattrs_from_gvariant_iff:
  assumes "length data < usize_bound"
  shows "xattrs_from_gvariant data = Ok xs \<longleftrightarrow> xattrs_ok xs \<and> xattrs_to_gvariant xs = Ok data"
proof -
  have "xattrs_from_gvariant data = Ok xs \<longleftrightarrow>
      (\<exists>r. decode (array_iter_dec entry_dec) data = Ok r \<and> array_iter_collect entry_dec r = Ok xs) \<and> xattrs_ok xs"
    by (auto simp: xattrs_from_gvariant_def xattrs_ref_parse_def xattrs_ref_to_owned_def xattrs_ref_iter_def
        validated_iter_new_def validated_iter_collect_iff run_xattrs_step result_simps)
  also have "\<dots> \<longleftrightarrow> xattrs_ok xs \<and> xattrs_to_gvariant xs = Ok data"
    using entry_c.collect_iff [OF assms]
    by (auto simp: xattrs_to_gvariant_def encode_to_vec_def xattrs_enc_eq result_simps)
  finally show ?thesis .
qed

lemma check_duplicates_Ok:
  "sorted (map fst xs) \<Longrightarrow> check_duplicates xs = Ok u \<longleftrightarrow> sorted_wrt (<) (map fst xs)"
  by (induction xs rule: check_duplicates.induct) auto

lemma xattrs_new_iff: "xattrs_new pairs = Ok xs \<longleftrightarrow> xattrs_ok xs \<and> mset xs = mset pairs"
proof -
  have "xattrs_new pairs = Ok xs \<longleftrightarrow> xattrs_ok xs \<and> xs = sort_key fst pairs"
    using check_duplicates_Ok [OF sorted_sort_key [of fst pairs]]
    by (auto simp: xattrs_new_def Let_def andthen_Ok xattrs_ok_def try_each_Ok check_name_Ok case_prod_unfold)
  also have "\<dots> \<longleftrightarrow> xattrs_ok xs \<and> mset xs = mset pairs"
  proof -
    have "xs = sort_key fst pairs" if "xattrs_ok xs" "mset xs = mset pairs"
    proof -
      have "sorted_wrt (<) (map fst xs)" using that by (simp add: xattrs_ok_def)
      then have "sorted (map fst xs)" "distinct (map fst xs)" by (auto simp: strict_sorted_iff)
      then have "inj_on fst (set pairs)"
        using that(2) by (metis distinct_map mset_eq_setD)
      then show ?thesis
        using sort_key_inj_key_eq [of pairs xs fst] that(2) \<open>sorted (map fst xs)\<close> by simp
    qed
    then show ?thesis by auto
  qed
  finally show ?thesis .
qed

interpretation xattrs_e: gv_encode xattrs_enc
  unfolding xattrs_enc_eq by (rule entry_c.gv_encode_slice)

text \<open>The xattr set as a member of a larger object: its bytes, read by \<open>xattrs_from_gvariant\<close>.\<close>

definition xattrs_dec :: "xattrs decoder" where
  "xattrs_dec = via_dec bytes_dec (\<lambda>b. ok_opt (xattrs_from_gvariant b))"

interpretation xattrs_c: gv_codec xattrs_enc xattrs_dec xattrs_ok
  unfolding xattrs_dec_def
proof (rule gv_codec_via)
  fix data :: bytes and v assume "length data < usize_bound"
  then show "(\<exists>z. decode bytes_dec data = Ok z \<and> ok_opt (xattrs_from_gvariant z) = Some v) \<longleftrightarrow>
      xattrs_ok v \<and> encode xattrs_enc v [] = Ok data"
    using xattrs_from_gvariant_iff [of data v]
    by (simp add: bytes_dec_def bytes_decode_def result_simps xattrs_to_gvariant_def encode_to_vec_def)
qed (use xattrs_e.gv_encode_axioms bytes_c.gv_decode_axioms in \<open>simp_all add: bytes_dec_def xattrs_enc_def\<close>)

lemma entry_typed: "typed_as entry_enc (TTuple [TArray TByte, TArray TByte]) (\<lambda>(n, v). VTuple [VBytes n, VBytes v]) 1"
  using typed_members.typed_as_tuple [OF typed_members_member [OF bytes_t.typed_as_axioms
      typed_members_last [OF bytes_t.typed_as_axioms]], of 0] by (simp add: case_prod_unfold)

interpretation xattrs_t: typed_as xattrs_enc "TArray (TTuple [TArray TByte, TArray TByte])"
  "\<lambda>xs. VArray (map (\<lambda>(n, v). VTuple [VBytes n, VBytes v]) xs)" 2
  unfolding xattrs_enc_eq using typed_as.typed_as_slice [OF entry_typed] by (simp add: numeral_2_eq_2)

lemma xattrs_enc_lay: "e_alignment xattrs_enc = 1" "e_fixed xattrs_enc = None"
  by (simp_all add: xattrs_enc_def)

lemma xattrs_enc_Nil: "encode xattrs_enc [] [] = Ok []"
  unfolding xattrs_enc_eq by (subst entry_c.slice_eq) (simp_all add: array_bytes_def)

subsection \<open>Properties\<close>

text \<open>C31: \<open>Xattrs::from_gvariant\<close> accepts bytes with a set exactly when the set is canonical (strictly
  sorted names in the stored form) and \<open>to_gvariant\<close> writes the same bytes for it.\<close>

theorem xattrs_parse_serialize:
  assumes "length data < usize_bound"
  shows "xattrs_from_gvariant data = Ok xs \<longleftrightarrow> xattrs_ok xs \<and> xattrs_to_gvariant xs = Ok data"
  using assms by (rule xattrs_from_gvariant_iff)

theorem xattrs_parse_serialize_witness:
  "xattrs_from_gvariant [97, 0, 98, 2, 4] = Ok [([97, 0], [98])]"
proof -
  have "xattrs_ok [([97, 0], [98])]"
    by (simp add: xattrs_ok_def name_ok_def)
  moreover have "xattrs_to_gvariant [([97, 0], [98])] = Ok [97, 0, 98, 2, 4]"
  proof -
    have "encode entry_enc ([97, 0], [98]) [] = Ok [97, 0, 98, 2]" by code_simp
    moreover have "array_bytes 1 False [[97, 0, 98, 2]] = [97, 0, 98, 2, 4]" by code_simp
    moreover have "e_fixed entry_enc = None" by code_simp
    ultimately show ?thesis
      using entry_c.slice_eq [of "[]" "[([97, 0], [98])]"]
      by (simp add: xattrs_to_gvariant_def encode_to_vec_def xattrs_enc_eq entry_alignment)
  qed
  ultimately show ?thesis using xattrs_parse_serialize [of "[97, 0, 98, 2, 4]" "[([97, 0], [98])]"] by simp
qed

text \<open>C32: \<open>Xattrs::new\<close> returns a set exactly when it is a canonical set of the given pairs, whatever
  their order; so it refuses duplicate and malformed names and nothing else.\<close>

theorem xattrs_new_canonical: "xattrs_new pairs = Ok xs \<longleftrightarrow> xattrs_ok xs \<and> mset xs = mset pairs"
  by (rule xattrs_new_iff)

end
