(* ===== verification/Core_Dirmeta.thy ===== *)
theory Core_Dirmeta
  imports Core_Xattr
begin

section \<open>Dirmeta objects\<close>

text \<open>
  \<^verbatim>\<open>crates/ostrya-core/src/dirmeta.rs\<close>, with the mode constants of \<^verbatim>\<open>filehdr.rs\<close>. A dirmeta object is
  the tuple \<^verbatim>\<open>(uuua(ayay))\<close> with big-endian scalars and a directory mode. The view decodes the scalars
  and leaves the xattrs serialized; the owned parser reads both.
\<close>

definition S_IFMT :: u32 where "S_IFMT = 0xf000"

definition S_IFDIR :: u32 where "S_IFDIR = 0x4000"

definition S_IFREG :: u32 where "S_IFREG = 0x8000"

definition S_IFLNK :: u32 where "S_IFLNK = 0xa000"

record dirmeta =
  dm_uid :: u32
  dm_gid :: u32
  dm_mode :: u32
  dm_xattrs :: xattrs

definition check_dir_mode :: "u32 \<Rightarrow> (core_error, unit) result" where
  "check_dir_mode mode =
     (if mode AND S_IFMT = S_IFDIR then Ok () else Err (InvalidDirMeta ''mode is not a directory mode''))"

abbreviation dirmeta_tuple_enc :: "(u32 \<times> u32 \<times> u32 \<times> xattrs) encoder" where
  "dirmeta_tuple_enc \<equiv>
     tuple_enc (enc_member be32_enc (enc_member be32_enc (enc_member be32_enc (enc_last xattrs_enc))))"

abbreviation dirmeta_tuple_dec :: "'x decoder \<Rightarrow> (u32 \<times> u32 \<times> u32 \<times> 'x) decoder" where
  "dirmeta_tuple_dec d \<equiv>
     tuple_dec (dec_member be32_dec (dec_member be32_dec (dec_member be32_dec (dec_last d))))"

definition dirmeta_enc :: "dirmeta encoder" where
  "dirmeta_enc = \<lparr>e_alignment = 4, e_fixed = None,
     encode = (\<lambda>d out. encode dirmeta_tuple_enc (dm_uid d, dm_gid d, dm_mode d, dm_xattrs d) out)\<rparr>"

definition dirmeta_serialize :: "dirmeta \<Rightarrow> (core_error, bytes) result" where
  "dirmeta_serialize d = andthen (check_dir_mode (dm_mode d)) (\<lambda>_. from_gv (encode_to_vec dirmeta_enc d))"

record dirmeta_ref =
  dr_uid :: u32
  dr_gid :: u32
  dr_mode :: u32
  dr_xattrs :: xattrs_ref

definition dirmeta_ref_parse :: "bytes \<Rightarrow> (core_error, dirmeta_ref) result" where
  "dirmeta_ref_parse data =
     andthen (from_gv (decode (dirmeta_tuple_dec bytes_dec) data)) (\<lambda>(uid, gid, mode, xattrs).
     andthen (check_dir_mode mode) (\<lambda>_.
     andthen (xattrs_ref_parse xattrs) (\<lambda>x.
     Ok \<lparr>dr_uid = uid, dr_gid = gid, dr_mode = mode, dr_xattrs = x\<rparr>)))"

definition dirmeta_ref_to_owned :: "dirmeta_ref \<Rightarrow> (core_error, dirmeta) result" where
  "dirmeta_ref_to_owned r =
     andthen (xattrs_ref_to_owned (dr_xattrs r)) (\<lambda>xattrs.
       Ok \<lparr>dm_uid = dr_uid r, dm_gid = dr_gid r, dm_mode = dr_mode r, dm_xattrs = xattrs\<rparr>)"

definition dirmeta_parse :: "bytes \<Rightarrow> (core_error, dirmeta) result" where
  "dirmeta_parse data = andthen (dirmeta_ref_parse data) dirmeta_ref_to_owned"

subsection \<open>Parsing inverts serialization\<close>

lemma check_dir_mode_Ok [result_simps]: "check_dir_mode mode = Ok u \<longleftrightarrow> mode AND S_IFMT = S_IFDIR"
  by (simp add: check_dir_mode_def)

lemma xattrs_dec_via: "dec_via bytes_dec (\<lambda>b. ok_opt (xattrs_from_gvariant b)) xattrs_dec"
  unfolding xattrs_dec_def by (rule dec_via_via_dec)

lemmas be32_member = codec_members_member [OF be32_c.gv_codec_axioms]
lemmas str_member = codec_members_member [OF str_c.gv_codec_axioms]
lemmas be64_member = codec_members_member [OF be64_c.gv_codec_axioms]
lemmas xattrs_last = codec_members_last [OF xattrs_c.gv_codec_axioms]
lemmas via_same = body_via_member [OF dec_via_Some]

lemma dirmeta_tuple_codec:
  "gv_codec dirmeta_tuple_enc (dirmeta_tuple_dec xattrs_dec) (\<lambda>(_, _, _, xs). xattrs_ok xs)"
  using codec_members.gv_codec_tuple [OF be32_member [OF be32_member [OF be32_member [OF xattrs_last]]]]
  by (simp add: case_prod_unfold)

interpretation dirmeta_members: enc_members "enc_member be32_enc (enc_member be32_enc (enc_member be32_enc (enc_last xattrs_enc)))"
  using be32_member [OF be32_member [OF be32_member [OF xattrs_last]]] by (simp add: codec_members_def)

lemma dirmeta_tuple_eq:
  "encode dirmeta_tuple_enc (u, g, m, xs) [] =
     map_ok (\<lambda>xb. struct_bytes None [(4, Some 4, to_be_bytes u), (4, Some 4, to_be_bytes g), (4, Some 4, to_be_bytes m),
       (1, None, xb)]) (encode xattrs_enc xs [])"
proof -
  have "struct_fixed [(4, Some 4), (4, Some 4), (4, Some 4), (Suc 0, None)] = None" by code_simp
  then show ?thesis
    by (subst dirmeta_members.tuple_enc_eq; cases "encode xattrs_enc xs []")
      (simp_all add: enc_member_def enc_last_def be32_enc_def xattrs_enc_lay with_bytes_def)
qed

lemma dirmeta_tuple_via:
  "decode (dirmeta_tuple_dec xattrs_dec) data = Ok (u, g, m, xs) \<longleftrightarrow>
    (\<exists>xb. decode (dirmeta_tuple_dec bytes_dec) data = Ok (u, g, m, xb) \<and> xattrs_from_gvariant xb = Ok xs)"
  unfolding dec_viaD [OF dec_via_tuple [OF via_same [OF via_same [OF via_same [OF body_via_last [OF xattrs_dec_via]]]]]]
  by (auto simp: result_simps)

lemma dirmeta_tuple_iff:
  assumes "length data < usize_bound"
  shows "(\<exists>xb. decode (dirmeta_tuple_dec bytes_dec) data = Ok (u, g, m, xb) \<and> xattrs_from_gvariant xb = Ok xs) \<longleftrightarrow>
    xattrs_ok xs \<and> encode dirmeta_tuple_enc (u, g, m, xs) [] = Ok data"
  using gv_codec.dec_iff [OF dirmeta_tuple_codec assms] unfolding dirmeta_tuple_via [symmetric] by simp

lemma dirmeta_parse_iff:
  assumes "length data < usize_bound"
  shows "dirmeta_parse data = Ok d \<longleftrightarrow> xattrs_ok (dm_xattrs d) \<and> dirmeta_serialize d = Ok data"
proof -
  obtain u g m xs where d: "d = \<lparr>dm_uid = u, dm_gid = g, dm_mode = m, dm_xattrs = xs\<rparr>" by (cases d)
  have "dirmeta_parse data = Ok d \<longleftrightarrow> m AND S_IFMT = S_IFDIR \<and>
      (\<exists>xb. decode (dirmeta_tuple_dec bytes_dec) data = Ok (u, g, m, xb) \<and> xattrs_from_gvariant xb = Ok xs)"
    by (fastforce simp: d dirmeta_parse_def dirmeta_ref_parse_def dirmeta_ref_to_owned_def xattrs_from_gvariant_def
        result_simps)
  then show ?thesis
    using dirmeta_tuple_iff [OF assms]
    by (auto simp: d dirmeta_serialize_def dirmeta_enc_def encode_to_vec_def result_simps)
qed

lemma dirmeta_typed:
  "typed_as dirmeta_tuple_enc (TTuple [TU32, TU32, TU32, TArray (TTuple [TArray TByte, TArray TByte])])
    (\<lambda>(u, g, m, xs). VTuple [VU32 (swap_bytes u), VU32 (swap_bytes g), VU32 (swap_bytes m),
       VArray (map (\<lambda>(n, v). VTuple [VBytes n, VBytes v]) xs)]) 3"
proof -
  note mem = typed_members_member [OF be32_t.typed_as_axioms]
  have "typed_members (enc_member be32_enc (enc_member be32_enc (enc_member be32_enc (enc_last xattrs_enc))))
      [TU32, TU32, TU32, TArray (TTuple [TArray TByte, TArray TByte])]
      (\<lambda>(u, g, m, xs). [VU32 (swap_bytes u), VU32 (swap_bytes g), VU32 (swap_bytes m),
         VArray (map (\<lambda>(n, v). VTuple [VBytes n, VBytes v]) xs)]) 2"
    using mem [OF mem [OF mem [OF typed_members_last [OF xattrs_t.typed_as_axioms]]], of 2 2 2]
    by (simp add: case_prod_unfold)
  from typed_members.typed_as_tuple [OF this] show ?thesis
    by (simp add: case_prod_unfold numeral_3_eq_3 numeral_2_eq_2)
qed

subsection \<open>Properties\<close>

text \<open>C30: \<open>DirMeta::parse\<close> accepts bytes with an object exactly when its xattrs are canonical and
  \<open>serialize\<close> writes the same bytes for it; \<open>serialize\<close> refuses a mode that is not a directory mode.\<close>

theorem dirmeta_parse_serialize:
  assumes "length data < usize_bound"
  shows "dirmeta_parse data = Ok d \<longleftrightarrow> xattrs_ok (dm_xattrs d) \<and> dirmeta_serialize d = Ok data"
  using assms by (rule dirmeta_parse_iff)

theorem dirmeta_parse_serialize_witness:
  "dirmeta_parse [0, 0, 0, 1, 0, 0, 0, 2, 0, 0, 0x41, 0xed] =
     Ok \<lparr>dm_uid = 1, dm_gid = 2, dm_mode = 0x41ed, dm_xattrs = []\<rparr>"
proof -
  have be: "to_be_bytes (1 :: u32) = [0, 0, 0, 1]" "to_be_bytes (2 :: u32) = [0, 0, 0, 2]"
    "to_be_bytes (0x41ed :: u32) = [0, 0, 0x41, 0xed]"
    by (simp_all add: to_be_bytes_def to_le_bytes_def le_bytes_numeral)
  have "struct_bytes None [(4, Some 4, [0, 0, 0, 1]), (4, Some 4, [0, 0, 0, 2]), (4, Some 4, [0, 0, 0x41, 0xed]),
      (1, None, [])] = [0, 0, 0, 1, 0, 0, 0, 2, 0, 0, 0x41, 0xed]" by code_simp
  then have "encode dirmeta_tuple_enc (1, 2, 0x41ed, []) [] = Ok [0, 0, 0, 1, 0, 0, 0, 2, 0, 0, 0x41, 0xed]"
    unfolding dirmeta_tuple_eq xattrs_enc_Nil be by simp
  then have "dirmeta_serialize \<lparr>dm_uid = 1, dm_gid = 2, dm_mode = 0x41ed, dm_xattrs = []\<rparr> =
      Ok [0, 0, 0, 1, 0, 0, 0, 2, 0, 0, 0x41, 0xed]"
    by (simp add: dirmeta_serialize_def check_dir_mode_def S_IFMT_def S_IFDIR_def encode_to_vec_def dirmeta_enc_def)
  then show ?thesis
    using dirmeta_parse_serialize [of "[0, 0, 0, 1, 0, 0, 0, 2, 0, 0, 0x41, 0xed]"
        "\<lparr>dm_uid = 1, dm_gid = 2, dm_mode = 0x41ed, dm_xattrs = []\<rparr>"]
    by (simp add: xattrs_ok_def)
qed

text \<open>The typed encoder of a dirmeta writes the bytes the dynamic serializer writes for the value of
  type \<^verbatim>\<open>(uuua(ayay))\<close> with byte-swapped scalars.\<close>

theorem dirmeta_typed_is_dynamic:
  "encode_to_vec dirmeta_enc d =
     to_bytes (TTuple [TU32, TU32, TU32, TArray (TTuple [TArray TByte, TArray TByte])])
       (VTuple [VU32 (swap_bytes (dm_uid d)), VU32 (swap_bytes (dm_gid d)), VU32 (swap_bytes (dm_mode d)),
          VArray (map (\<lambda>(n, v). VTuple [VBytes n, VBytes v]) (dm_xattrs d))])"
  using typed_as.to_bytes_eq [OF dirmeta_typed, of "(dm_uid d, dm_gid d, dm_mode d, dm_xattrs d)"]
  by (simp add: encode_to_vec_def dirmeta_enc_def MAX_VALUE_DEPTH_def)

end
