(* ===== verification/Core_Dirtree.thy ===== *)
theory Core_Dirtree
  imports Core_Xattr
begin

section \<open>Dirtree objects\<close>

text \<open>
  \<^verbatim>\<open>crates/ostrya-core/src/dirtree.rs\<close>. A dirtree is the tuple \<^verbatim>\<open>(a(say)a(sayay))\<close> of the child files
  and the subdirectories. Names are UTF-8 byte strings, compared byte-wise as Rust compares \<open>str\<close>.
  \<open>dirtree_typed\<close> is what the Rust types guarantee of an owned value: names are UTF-8 and checksums have
  32 bytes.
\<close>

record dirtree =
  dt_files :: "(bytes \<times> checksum) list"
  dt_dirs :: "(bytes \<times> checksum \<times> checksum) list"

definition dirtree_check_name :: "bytes \<Rightarrow> (core_error, unit) result" where
  "dirtree_check_name name =
     (if name = [] then Err (InvalidDirTree ''empty entry name'')
      else if name = lit ''.'' \<or> name = lit ''..'' then Err (InvalidDirTree ''entry name is a directory traversal'')
      else if of_char CHR ''/'' \<in> set name then Err (InvalidDirTree ''entry name contains a slash'')
      else Ok ())"

text \<open>\<open>check_entry\<close> returns the new value of \<open>prev\<close>.\<close>

definition check_entry :: "bytes option \<Rightarrow> bytes \<Rightarrow> (core_error, bytes option) result" where
  "check_entry prev name =
     andthen (dirtree_check_name name) (\<lambda>_.
       if (case prev of Some p \<Rightarrow> p \<ge> name | None \<Rightarrow> False)
       then Err (InvalidDirTree ''entry names are not sorted'')
       else Ok (Some name))"

definition entry_checksum :: "bytes \<Rightarrow> (core_error, checksum) result" where
  "entry_checksum b = map_err (\<lambda>_. InvalidDirTree ''entry checksum is not 32 bytes'') (from_ay b)"

text \<open>The merge walk over the two sorted lists.\<close>

fun shared_names_walk :: "bytes list \<Rightarrow> bytes list \<Rightarrow> (core_error, unit) result" where
  "shared_names_walk (fname # fs) (dname # ds) =
     (if fname < dname then shared_names_walk fs (dname # ds)
      else if dname < fname then shared_names_walk (fname # fs) ds
      else Err (InvalidDirTree ''a name appears in both the file and directory lists''))"
| "shared_names_walk _ _ = Ok ()"

definition check_no_shared_names :: "dirtree \<Rightarrow> (core_error, unit) result" where
  "check_no_shared_names t = shared_names_walk (map fst (dt_files t)) (map fst (dt_dirs t))"

fun check_entries :: "bytes option \<Rightarrow> bytes list \<Rightarrow> (core_error, unit) result" where
  "check_entries prev [] = Ok ()"
| "check_entries prev (name # names) = andthen (check_entry prev name) (\<lambda>prev. check_entries prev names)"

definition dirtree_validate :: "dirtree \<Rightarrow> (core_error, unit) result" where
  "dirtree_validate t =
     andthen (check_entries None (map fst (dt_files t))) (\<lambda>_.
     andthen (check_entries None (map fst (dt_dirs t))) (\<lambda>_.
     check_no_shared_names t))"

abbreviation file_entry_enc :: "(bytes \<times> checksum) encoder" where
  "file_entry_enc \<equiv> tuple_enc (enc_member string_enc (enc_last checksum_enc))"

abbreviation dir_entry_enc :: "(bytes \<times> checksum \<times> checksum) encoder" where
  "dir_entry_enc \<equiv> tuple_enc (enc_member string_enc (enc_member checksum_enc (enc_last checksum_enc)))"

definition dirtree_enc :: "dirtree encoder" where
  "dirtree_enc = \<lparr>e_alignment = 1, e_fixed = None,
     encode = (\<lambda>t out. encode (tuple_enc (enc_member (slice_enc file_entry_enc) (enc_last (slice_enc dir_entry_enc))))
       (dt_files t, dt_dirs t) out)\<rparr>"

definition dirtree_serialize :: "dirtree \<Rightarrow> (core_error, bytes) result" where
  "dirtree_serialize t = andthen (dirtree_validate t) (\<lambda>_. from_gv (encode_to_vec dirtree_enc t))"

abbreviation raw_file_dec :: "(bytes \<times> bytes) decoder" where
  "raw_file_dec \<equiv> tuple_dec (dec_member str_dec (dec_last bytes_dec))"

abbreviation raw_dir_dec :: "(bytes \<times> bytes \<times> bytes) decoder" where
  "raw_dir_dec \<equiv> tuple_dec (dec_member str_dec (dec_member bytes_dec (dec_last bytes_dec)))"

record dirtree_ref =
  dtr_files :: array_reader
  dtr_dirs :: array_reader

definition dirtree_ref_parse :: "bytes \<Rightarrow> (core_error, dirtree_ref) result" where
  "dirtree_ref_parse data =
     andthen (from_gv (decode (tuple_dec (dec_member (array_iter_dec raw_file_dec)
       (dec_last (array_iter_dec raw_dir_dec)))) data)) (\<lambda>(files, dirs).
     Ok \<lparr>dtr_files = files, dtr_dirs = dirs\<rparr>)"

definition file_step ::
  "bytes option \<Rightarrow> bytes \<times> bytes \<Rightarrow> (core_error, (bytes \<times> checksum) \<times> bytes option) result" where
  "file_step prev x =
     (case x of (name, csum) \<Rightarrow>
        andthen (check_entry prev name) (\<lambda>prev.
        andthen (entry_checksum csum) (\<lambda>c. Ok ((name, c), prev))))"

definition dir_step ::
  "bytes option \<Rightarrow> bytes \<times> bytes \<times> bytes \<Rightarrow> (core_error, (bytes \<times> checksum \<times> checksum) \<times> bytes option) result"
where
  "dir_step prev x =
     (case x of (name, tree, meta) \<Rightarrow>
        andthen (check_entry prev name) (\<lambda>prev.
        andthen (entry_checksum tree) (\<lambda>t.
        andthen (entry_checksum meta) (\<lambda>m. Ok ((name, t, m), prev)))))"

definition dirtree_ref_files :: "dirtree_ref \<Rightarrow> bytes option validated_iter" where
  "dirtree_ref_files r = validated_iter_new (dtr_files r) None"

definition dirtree_ref_dirs :: "dirtree_ref \<Rightarrow> bytes option validated_iter" where
  "dirtree_ref_dirs r = validated_iter_new (dtr_dirs r) None"

definition dirtree_ref_to_owned :: "dirtree_ref \<Rightarrow> (core_error, dirtree) result" where
  "dirtree_ref_to_owned r =
     andthen (validated_iter_collect raw_file_dec file_step (dirtree_ref_files r)) (\<lambda>files.
     andthen (validated_iter_collect raw_dir_dec dir_step (dirtree_ref_dirs r)) (\<lambda>dirs.
     Ok \<lparr>dt_files = files, dt_dirs = dirs\<rparr>))"

definition dirtree_parse :: "bytes \<Rightarrow> (core_error, dirtree) result" where
  "dirtree_parse data =
     andthen (dirtree_ref_parse data) (\<lambda>r.
     andthen (dirtree_ref_to_owned r) (\<lambda>tree.
     andthen (check_no_shared_names tree) (\<lambda>_. Ok tree)))"

subsection \<open>The checks\<close>

definition entry_name_ok :: "bytes \<Rightarrow> bool" where
  "entry_name_ok name \<longleftrightarrow> name \<noteq> [] \<and> name \<noteq> lit ''.'' \<and> name \<noteq> lit ''..'' \<and> of_char CHR ''/'' \<notin> set name"

definition names_ok :: "bytes list \<Rightarrow> bool" where
  "names_ok ns \<longleftrightarrow> sorted_wrt (<) ns \<and> (\<forall>n \<in> set ns. entry_name_ok n)"

definition dirtree_typed :: "dirtree \<Rightarrow> bool" where
  "dirtree_typed t \<longleftrightarrow>
     (\<forall>(n, c) \<in> set (dt_files t). utf8_valid n \<and> is_checksum c) \<and>
     (\<forall>(n, c, m) \<in> set (dt_dirs t). utf8_valid n \<and> is_checksum c \<and> is_checksum m)"

definition dirtree_ok :: "dirtree \<Rightarrow> bool" where
  "dirtree_ok t \<longleftrightarrow> names_ok (map fst (dt_files t)) \<and> names_ok (map fst (dt_dirs t)) \<and>
     fst ` set (dt_files t) \<inter> fst ` set (dt_dirs t) = {}"

lemma dirtree_check_name_Ok [result_simps]: "dirtree_check_name name = Ok u \<longleftrightarrow> entry_name_ok name"
  by (auto simp: dirtree_check_name_def entry_name_ok_def)

lemma check_entry_Ok [result_simps]:
  "check_entry prev name = Ok s \<longleftrightarrow>
     entry_name_ok name \<and> s = Some name \<and> (case prev of None \<Rightarrow> True | Some p \<Rightarrow> p < name)"
  by (cases prev) (auto simp: check_entry_def andthen_Ok dirtree_check_name_Ok)

lemma entry_checksum_Ok [result_simps]: "entry_checksum b = Ok c \<longleftrightarrow> is_checksum c \<and> b = c"
  by (simp add: entry_checksum_def map_err_Ok from_ay_iff)

lemma shared_names_walk_Ok:
  "sorted_wrt (<) fs \<Longrightarrow> sorted_wrt (<) ds \<Longrightarrow> shared_names_walk fs ds = Ok u \<longleftrightarrow> set fs \<inter> set ds = {}"
proof (induction fs ds rule: shared_names_walk.induct)
  case (1 f fs d ds)
  then show ?case
    by (cases f d rule: linorder_cases) (auto dest: less_asym)
qed auto

lemma check_entries_Ok:
  "check_entries prev ns = Ok () \<longleftrightarrow> names_ok ns \<and> (\<forall>p. prev = Some p \<longrightarrow> (\<forall>n \<in> set ns. p < n))"
proof (induction ns arbitrary: prev)
  case (Cons n ns)
  have "check_entries prev (n # ns) = Ok () \<longleftrightarrow>
      entry_name_ok n \<and> (case prev of None \<Rightarrow> True | Some p \<Rightarrow> p < n) \<and> names_ok ns \<and> (\<forall>m \<in> set ns. n < m)"
    by (auto simp: andthen_Ok check_entry_Ok Cons.IH)
  also have "\<dots> \<longleftrightarrow> names_ok (n # ns) \<and> (\<forall>p. prev = Some p \<longrightarrow> (\<forall>m \<in> set (n # ns). p < m))"
    by (cases prev) (auto simp: names_ok_def dest: less_trans)
  finally show ?case .
qed (simp add: names_ok_def)

lemma dirtree_validate_Ok [result_simps]: "dirtree_validate t = Ok u \<longleftrightarrow> dirtree_ok t"
  using shared_names_walk_Ok [of "map fst (dt_files t)" "map fst (dt_dirs t)"]
  by (auto simp: dirtree_validate_def andthen_Ok check_entries_Ok check_no_shared_names_def dirtree_ok_def names_ok_def)

subsection \<open>The two lists as codecs\<close>

lemma string_enc_eq: "string_enc = str_enc"
  by (simp add: string_enc_def str_enc_def)

lemma raw_file_codec: "gv_codec file_entry_enc raw_file_dec (\<lambda>(n, c). utf8_valid n)"
  using codec_tuple2 [OF str_c.gv_codec_axioms bytes_c.gv_codec_axioms]
  by (simp add: string_enc_eq checksum_enc_eq)

lemma raw_dir_codec: "gv_codec dir_entry_enc raw_dir_dec (\<lambda>(n, c, m). utf8_valid n)"
  using codec_tuple3 [OF str_c.gv_codec_axioms bytes_c.gv_codec_axioms bytes_c.gv_codec_axioms]
  by (simp add: string_enc_eq checksum_enc_eq case_prod_unfold)

interpretation raw_file_c: gv_codec file_entry_enc raw_file_dec "\<lambda>(n, c). utf8_valid n"
  by (rule raw_file_codec)

interpretation raw_dir_c: gv_codec dir_entry_enc raw_dir_dec "\<lambda>(n, c, m). utf8_valid n"
  by (rule raw_dir_codec)

definition files_ok :: "(bytes \<times> checksum) list \<Rightarrow> bool" where
  "files_ok fs \<longleftrightarrow> names_ok (map fst fs) \<and> (\<forall>(n, c) \<in> set fs. is_checksum c)"

definition dirs_ok :: "(bytes \<times> checksum \<times> checksum) list \<Rightarrow> bool" where
  "dirs_ok ds \<longleftrightarrow> names_ok (map fst ds) \<and> (\<forall>(n, c, m) \<in> set ds. is_checksum c \<and> is_checksum m)"

lemma guard_map:
  "try_map (\<lambda>x. if P x then Ok x else Err ()) xs = Ok ys \<longleftrightarrow> ys = xs \<and> (\<forall>x \<in> set xs. P x)"
  by (induction xs arbitrary: ys) (auto simp: andthen_Ok map_ok_Ok)

lemma file_step_Ok:
  "file_step s x = Ok (y, s') \<longleftrightarrow>
     (if entry_name_ok (fst x) \<and> is_checksum (snd x) then Ok x else Err ()) = Ok y \<and> s' = Some (fst x) \<and>
     (case s of None \<Rightarrow> True | Some p \<Rightarrow> p < fst x)"
  by (cases x; cases s) (auto simp: file_step_def andthen_Ok check_entry_Ok entry_checksum_Ok)

lemma dir_step_Ok:
  "dir_step s x = Ok (y, s') \<longleftrightarrow>
     (if entry_name_ok (fst x) \<and> is_checksum (fst (snd x)) \<and> is_checksum (snd (snd x)) then Ok x else Err ()) = Ok y \<and>
     s' = Some (fst x) \<and> (case s of None \<Rightarrow> True | Some p \<Rightarrow> p < fst x)"
  by (cases x; cases s) (auto simp: dir_step_def andthen_Ok check_entry_Ok entry_checksum_Ok)

lemma run_file_step: "run_steps file_step None xs = Ok ys \<longleftrightarrow> ys = xs \<and> files_ok xs"
  using run_steps_strict [where s = None and xs = xs and ys = ys, OF file_step_Ok]
  by (auto simp: guard_map files_ok_def names_ok_def)

lemma run_dir_step: "run_steps dir_step None xs = Ok ys \<longleftrightarrow> ys = xs \<and> dirs_ok xs"
  using run_steps_strict [where s = None and xs = xs and ys = ys, OF dir_step_Ok]
  by (auto simp: guard_map dirs_ok_def names_ok_def)

definition files_dec :: "(bytes \<times> checksum) list decoder" where
  "files_dec = via_dec (array_iter_dec raw_file_dec)
     (\<lambda>r. ok_opt (validated_iter_collect raw_file_dec file_step (validated_iter_new r None)))"

definition dirs_dec :: "(bytes \<times> checksum \<times> checksum) list decoder" where
  "dirs_dec = via_dec (array_iter_dec raw_dir_dec)
     (\<lambda>r. ok_opt (validated_iter_collect raw_dir_dec dir_step (validated_iter_new r None)))"

interpretation files_c: gv_codec "slice_enc file_entry_enc" files_dec "\<lambda>fs. files_ok fs \<and> (\<forall>(n, c) \<in> set fs. utf8_valid n)"
  unfolding files_dec_def
proof (rule gv_codec_via)
  fix data :: bytes and v assume "length data < usize_bound"
  note c = raw_file_c.collect_iff [OF this, of v]
  show "(\<exists>z. decode (array_iter_dec raw_file_dec) data = Ok z \<and>
      ok_opt (validated_iter_collect raw_file_dec file_step (validated_iter_new z None)) = Some v) \<longleftrightarrow>
    (files_ok v \<and> (\<forall>(n, c) \<in> set v. utf8_valid n)) \<and> encode (slice_enc file_entry_enc) v [] = Ok data"
    using c by (auto simp: ok_opt_Some validated_new run_file_step)
qed (use raw_file_c.gv_encode_slice raw_file_c.gv_codec_array_iter raw_file_c.same_lay
      in \<open>simp_all add: slice_enc_def array_iter_dec_def gv_codec_def\<close>)

interpretation dirs_c: gv_codec "slice_enc dir_entry_enc" dirs_dec "\<lambda>ds. dirs_ok ds \<and> (\<forall>(n, c, m) \<in> set ds. utf8_valid n)"
  unfolding dirs_dec_def
proof (rule gv_codec_via)
  fix data :: bytes and v assume "length data < usize_bound"
  note c = raw_dir_c.collect_iff [OF this, of v]
  show "(\<exists>z. decode (array_iter_dec raw_dir_dec) data = Ok z \<and>
      ok_opt (validated_iter_collect raw_dir_dec dir_step (validated_iter_new z None)) = Some v) \<longleftrightarrow>
    (dirs_ok v \<and> (\<forall>(n, c, m) \<in> set v. utf8_valid n)) \<and> encode (slice_enc dir_entry_enc) v [] = Ok data"
    using c by (auto simp: ok_opt_Some validated_new run_dir_step)
qed (use raw_dir_c.gv_encode_slice raw_dir_c.gv_codec_array_iter raw_dir_c.same_lay
      in \<open>simp_all add: slice_enc_def array_iter_dec_def gv_codec_def\<close>)

interpretation dirtree_c: gv_codec "tuple_enc (enc_member (slice_enc file_entry_enc) (enc_last (slice_enc dir_entry_enc)))"
  "tuple_dec (dec_member files_dec (dec_last dirs_dec))"
  "\<lambda>(fs, ds). (files_ok fs \<and> (\<forall>(n, c) \<in> set fs. utf8_valid n)) \<and> dirs_ok ds \<and> (\<forall>(n, c, m) \<in> set ds. utf8_valid n)"
  using codec_tuple2 [OF files_c.gv_codec_axioms dirs_c.gv_codec_axioms] by (simp add: case_prod_unfold)

lemma dirtree_tuple_via:
  "decode (tuple_dec (dec_member files_dec (dec_last dirs_dec))) data = Ok (fs, ds) \<longleftrightarrow>
    (\<exists>rf rd. decode (tuple_dec (dec_member (array_iter_dec raw_file_dec) (dec_last (array_iter_dec raw_dir_dec)))) data =
        Ok (rf, rd) \<and>
      validated_iter_collect raw_file_dec file_step (validated_iter_new rf None) = Ok fs \<and>
      validated_iter_collect raw_dir_dec dir_step (validated_iter_new rd None) = Ok ds)"
  unfolding files_dec_def dirs_dec_def
    dec_viaD [OF dec_via_tuple [OF body_via_member [OF dec_via_via_dec body_via_last [OF dec_via_via_dec]]]]
  by (auto simp: result_simps)

lemma dirtree_parse_iff:
  assumes "length data < usize_bound"
  shows "dirtree_parse data = Ok t \<longleftrightarrow> dirtree_typed t \<and> dirtree_serialize t = Ok data"
proof -
  obtain fs ds where t: "t = \<lparr>dt_files = fs, dt_dirs = ds\<rparr>" by (cases t)
  have "dirtree_parse data = Ok t \<longleftrightarrow>
      decode (tuple_dec (dec_member files_dec (dec_last dirs_dec))) data = Ok (fs, ds) \<and>
      shared_names_walk (map fst fs) (map fst ds) = Ok ()"
    unfolding dirtree_tuple_via
    by (fastforce simp: t dirtree_parse_def dirtree_ref_parse_def dirtree_ref_to_owned_def dirtree_ref_files_def
        dirtree_ref_dirs_def check_no_shared_names_def result_simps)
  also have "\<dots> \<longleftrightarrow> dirtree_typed t \<and> dirtree_ok t \<and>
      encode (tuple_enc (enc_member (slice_enc file_entry_enc) (enc_last (slice_enc dir_entry_enc)))) (fs, ds) [] = Ok data"
    unfolding dirtree_c.dec_iff [OF assms]
    using shared_names_walk_Ok [of "map fst fs" "map fst ds"]
    by (auto simp: t files_ok_def dirs_ok_def names_ok_def dirtree_typed_def dirtree_ok_def)
  also have "\<dots> \<longleftrightarrow> dirtree_typed t \<and> dirtree_serialize t = Ok data"
    by (auto simp: t dirtree_serialize_def dirtree_enc_def encode_to_vec_def result_simps)
  finally show ?thesis .
qed

lemma dirtree_typed_as:
  "typed_as (tuple_enc (enc_member (slice_enc file_entry_enc) (enc_last (slice_enc dir_entry_enc))))
    (TTuple [TArray (TTuple [TStr, TArray TByte]), TArray (TTuple [TStr, TArray TByte, TArray TByte])])
    (\<lambda>(fs, ds). VTuple [VArray (map (\<lambda>(n, c). VTuple [VStr n, VBytes c]) fs),
       VArray (map (\<lambda>(n, c, m). VTuple [VStr n, VBytes c, VBytes m]) ds)]) 3"
proof -
  note ck = typed_members_last [OF checksum_t.typed_as_axioms]
  note file_t = typed_members.typed_as_tuple [OF typed_members_member [OF string_t.typed_as_axioms ck, of 0]]
  note dir_t = typed_members.typed_as_tuple [OF typed_members_member [OF string_t.typed_as_axioms
        typed_members_member [OF checksum_t.typed_as_axioms ck, of 0], of 0]]
  have "typed_members (enc_member (slice_enc file_entry_enc) (enc_last (slice_enc dir_entry_enc)))
    [TArray (TTuple [TStr, TArray TByte]), TArray (TTuple [TStr, TArray TByte, TArray TByte])]
    (\<lambda>(fs, ds). [VArray (map (\<lambda>(n, c). VTuple [VStr n, VBytes c]) fs),
       VArray (map (\<lambda>(n, c, m). VTuple [VStr n, VBytes c, VBytes m]) ds)]) 2"
    using typed_members_member [OF typed_as.typed_as_slice [OF file_t]
        typed_members_last [OF typed_as.typed_as_slice [OF dir_t]], of 2]
    by (simp add: case_prod_unfold)
  from typed_members.typed_as_tuple [OF this] show ?thesis
    by (simp add: case_prod_unfold numeral_3_eq_3 numeral_2_eq_2)
qed

lemma sample_dirtree:
  "dirtree_serialize \<lparr>dt_files = [([97], replicate 32 7)], dt_dirs = []\<rparr> = Ok ([97, 0] @ replicate 32 7 @ [2, 35, 36])"
proof -
  have f: "encode file_entry_enc ([97], replicate 32 7) [] = Ok ([97, 0] @ replicate 32 7 @ [2])" by code_simp
  have a: "array_bytes 1 False [[97, 0] @ replicate 32 7 @ [2]] = [97, 0] @ replicate 32 7 @ [2, 35]" by code_simp
  have l: "e_alignment file_entry_enc = 1" "e_fixed file_entry_enc = None" "e_alignment dir_entry_enc = 1"
    "e_fixed dir_entry_enc = None" by code_simp+
  have fs: "encode (slice_enc file_entry_enc) [([97], replicate 32 7)] [] = Ok ([97, 0] @ replicate 32 7 @ [2, 35])"
    using raw_file_c.slice_eq [of "[]" "[([97], replicate 32 7)]"] f a by (simp add: l)
  have ds: "encode (slice_enc dir_entry_enc) [] [] = Ok []"
    using raw_dir_c.slice_eq [of "[]" "[]"] by (simp add: l array_bytes_def)
  have "struct_bytes None [(1, None, [97, 0] @ replicate 32 7 @ [2, 35]), (1, None, [])] =
      [97, 0] @ replicate 32 7 @ [2, 35, 36]" "struct_fixed [(1, None), (1, None)] = None" by code_simp+
  then have "encode (tuple_enc (enc_member (slice_enc file_entry_enc) (enc_last (slice_enc dir_entry_enc))))
      ([([97], replicate 32 7)], []) [] = Ok ([97, 0] @ replicate 32 7 @ [2, 35, 36])"
    using tuple2_bytes [OF files_c.gv_encode_axioms dirs_c.gv_encode_axioms fs ds]
    by (simp add: slice_enc_lay l with_bytes_def)
  moreover have "dirtree_validate \<lparr>dt_files = [([97], replicate 32 7)], dt_dirs = []\<rparr> = Ok ()" by code_simp
  ultimately show ?thesis by (simp add: dirtree_serialize_def encode_to_vec_def dirtree_enc_def)
qed

subsection \<open>Properties\<close>

text \<open>C6: \<open>DirTree::parse\<close> accepts bytes with a tree exactly when \<open>serialize\<close> accepts the tree and
  writes the same bytes: both check the same names, order, and separation of the two lists, and the
  serialized form is unique.\<close>

theorem dirtree_parse_serialize:
  assumes "length data < usize_bound"
  shows "dirtree_parse data = Ok t \<longleftrightarrow> dirtree_typed t \<and> dirtree_serialize t = Ok data"
  using assms by (rule dirtree_parse_iff)

theorem dirtree_parse_serialize_witness:
  "dirtree_parse ([97, 0] @ replicate 32 7 @ [2, 35, 36]) = Ok \<lparr>dt_files = [([97], replicate 32 7)], dt_dirs = []\<rparr>"
proof -
  have "dirtree_typed \<lparr>dt_files = [([97], replicate 32 7)], dt_dirs = []\<rparr>"
    by (simp add: dirtree_typed_def is_checksum_def)
  then show ?thesis
    using dirtree_parse_serialize [of "[97, 0] @ replicate 32 7 @ [2, 35, 36]"] sample_dirtree by simp
qed

text \<open>C7: every name of a parsed dirtree is one path component (not empty, not \<open>.\<close> or \<open>..\<close>, without a
  slash), and no name occurs twice in the tree, within a list or across the two lists.\<close>

theorem dirtree_names_safe:
  assumes "length data < usize_bound" and "dirtree_parse data = Ok t"
  shows "(\<forall>n \<in> set (map fst (dt_files t) @ map fst (dt_dirs t)).
      n \<noteq> [] \<and> n \<noteq> lit ''.'' \<and> n \<noteq> lit ''..'' \<and> of_char CHR ''/'' \<notin> set n) \<and>
    distinct (map fst (dt_files t) @ map fst (dt_dirs t))"
proof -
  have "dirtree_ok t"
    using assms dirtree_parse_iff [of data t] by (auto simp: dirtree_serialize_def result_simps)
  then show ?thesis
    by (auto simp: dirtree_ok_def names_ok_def entry_name_ok_def strict_sorted_iff simp del: lit_simps)
qed

theorem dirtree_names_safe_witness:
  "\<exists>t. dirtree_parse ([97, 0] @ replicate 32 7 @ [2, 35, 36]) = Ok t \<and>
     map fst (dt_files t) = [[97]] \<and>
     list_all (\<lambda>n. n \<noteq> [] \<and> n \<noteq> lit ''.'' \<and> n \<noteq> lit ''..'' \<and> of_char CHR ''/'' \<notin> set n)
       (map fst (dt_files t) @ map fst (dt_dirs t)) \<and>
     distinct (map fst (dt_files t) @ map fst (dt_dirs t))"
proof -
  let ?data = "[97, 0] @ replicate 32 7 @ [2, 35, 36] :: bytes"
  have parse: "dirtree_parse ?data = Ok \<lparr>dt_files = [([97], replicate 32 7)], dt_dirs = []\<rparr>"
    using dirtree_parse_iff [of ?data] sample_dirtree by (simp add: dirtree_typed_def is_checksum_def)
  have "length ?data < usize_bound" by simp
  from dirtree_names_safe [OF this parse] parse show ?thesis by (simp add: list_all_iff)
qed

text \<open>The typed encoder of a dirtree writes the bytes the dynamic serializer writes for the value of
  type \<^verbatim>\<open>(a(say)a(sayay))\<close>.\<close>

theorem dirtree_typed_is_dynamic:
  "encode_to_vec dirtree_enc t =
     to_bytes (TTuple [TArray (TTuple [TStr, TArray TByte]), TArray (TTuple [TStr, TArray TByte, TArray TByte])])
       (VTuple [VArray (map (\<lambda>(n, c). VTuple [VStr n, VBytes c]) (dt_files t)),
          VArray (map (\<lambda>(n, c, m). VTuple [VStr n, VBytes c, VBytes m]) (dt_dirs t))])"
  using typed_as.to_bytes_eq [OF dirtree_typed_as, of "(dt_files t, dt_dirs t)"]
  by (simp add: encode_to_vec_def dirtree_enc_def MAX_VALUE_DEPTH_def)

end
