(* ===== verification/Core_Commit.thy ===== *)
theory Core_Commit
  imports Core_Dirmeta Core_Dirtree
begin

section \<open>Commit objects\<close>

text \<open>
  \<^verbatim>\<open>crates/ostrya-core/src/commit.rs\<close>. A commit is the tuple \<^verbatim>\<open>(a{sv}aya(say)sstayay)\<close>: metadata,
  parent, related objects, subject, body, big-endian timestamp, and the two root checksums. The metadata
  is a GVariant value; the parser reads it with \<open>from_bytes\<close> and the encoder writes it with \<open>to_bytes\<close>.
  SHA-256 and the system clock are parameters.
\<close>

definition METADATA_TYPE :: gty where
  "METADATA_TYPE = TArray (TDictEntry TStr TVariant)"

record commit =
  co_metadata :: gvalue
  co_parent :: "checksum option"
  co_related :: "(bytes \<times> bytes) list"
  co_subject :: bytes
  co_body :: bytes
  co_timestamp :: u64
  co_root_dirtree :: checksum
  co_root_dirmeta :: checksum

record commit_link =
  cl_parent :: "checksum option"
  cl_root_dirtree :: checksum
  cl_root_dirmeta :: checksum

definition parse_parent :: "bytes \<Rightarrow> (core_error, checksum option) result" where
  "parse_parent parent =
     (if length parent = 0 then Ok None
      else if length parent = 32 then andthen (from_ay parent) (\<lambda>c. Ok (Some c))
      else Err (InvalidCommit ''parent checksum is neither empty nor 32 bytes''))"

definition parse_root_dirtree :: "bytes \<Rightarrow> (core_error, checksum) result" where
  "parse_root_dirtree b = map_err (\<lambda>_. InvalidCommit ''root dirtree checksum is not 32 bytes'') (from_ay b)"

definition parse_root_dirmeta :: "bytes \<Rightarrow> (core_error, checksum) result" where
  "parse_root_dirmeta b = map_err (\<lambda>_. InvalidCommit ''root dirmeta checksum is not 32 bytes'') (from_ay b)"

abbreviation related_dec :: "(bytes \<times> bytes) decoder" where
  "related_dec \<equiv> tuple_dec (dec_member str_dec (dec_last bytes_dec))"

abbreviation related_enc :: "(bytes \<times> bytes) encoder" where
  "related_enc \<equiv> tuple_enc (enc_member str_enc (enc_last bytes_enc))"

text \<open>\<open>CommitView\<close>: the members after the metadata, with the decoders of the parts that later checks read.\<close>

abbreviation commit_rest_dec ::
  "'p decoder \<Rightarrow> 'r decoder \<Rightarrow> 't decoder \<Rightarrow> 'm decoder \<Rightarrow> ('p \<times> 'r \<times> bytes \<times> bytes \<times> u64 \<times> 't \<times> 'm) dec_body" where
  "commit_rest_dec p r t m \<equiv>
     dec_member p (dec_member r (dec_member str_dec (dec_member str_dec (dec_member be64_dec
       (dec_member t (dec_last m))))))"

type_synonym commit_view = "bytes \<times> bytes \<times> array_reader \<times> bytes \<times> bytes \<times> u64 \<times> bytes \<times> bytes"

definition commit_view_dec :: "commit_view decoder" where
  "commit_view_dec =
     tuple_dec (dec_member bytes_dec (commit_rest_dec bytes_dec (array_iter_dec related_dec) bytes_dec bytes_dec))"

definition commit_parse :: "bytes \<Rightarrow> (core_error, commit) result" where
  "commit_parse data =
     andthen (from_gv (decode commit_view_dec data))
       (\<lambda>(metadata, parent, related, subject, body, timestamp, root_dirtree, root_dirmeta).
     andthen (from_gv (from_bytes METADATA_TYPE metadata)) (\<lambda>metadata.
     andthen (parse_parent parent) (\<lambda>parent.
     andthen (from_gv (array_iter_collect related_dec related)) (\<lambda>related.
     andthen (parse_root_dirtree root_dirtree) (\<lambda>root_dirtree.
     andthen (parse_root_dirmeta root_dirmeta) (\<lambda>root_dirmeta.
     Ok \<lparr>co_metadata = metadata, co_parent = parent, co_related = related, co_subject = subject,
          co_body = body, co_timestamp = timestamp, co_root_dirtree = root_dirtree,
          co_root_dirmeta = root_dirmeta\<rparr>))))))"

abbreviation metadata_entry_dec :: "(bytes \<times> variant_bytes) decoder" where
  "metadata_entry_dec \<equiv> tuple_dec (dec_member str_dec (dec_last variant_bytes_dec))"

definition commit_parse_with_metadata_entries ::
  "bytes \<Rightarrow> (core_error, commit \<times> (bytes \<times> bytes) list) result" where
  "commit_parse_with_metadata_entries data =
     andthen (from_gv (decode commit_view_dec data))
       (\<lambda>(metadata, parent, related, subject, body, timestamp, root_dirtree, root_dirmeta).
     andthen (from_gv (validate METADATA_TYPE metadata)) (\<lambda>_.
     andthen (from_gv (decode (array_iter_dec metadata_entry_dec) metadata)) (\<lambda>r.
     andthen (from_gv (read_elems (\<lambda>sl.
         andthen (decode metadata_entry_dec sl) (\<lambda>(key, val).
         andthen (encode variant_bytes_enc val []) (\<lambda>b. Ok (key, b)))) r)) (\<lambda>ents.
     andthen (parse_parent parent) (\<lambda>parent.
     andthen (from_gv (array_iter_collect related_dec related)) (\<lambda>related.
     andthen (parse_root_dirtree root_dirtree) (\<lambda>root_dirtree.
     andthen (parse_root_dirmeta root_dirmeta) (\<lambda>root_dirmeta.
     Ok (\<lparr>co_metadata = VArray [], co_parent = parent, co_related = related, co_subject = subject,
          co_body = body, co_timestamp = timestamp, co_root_dirtree = root_dirtree,
          co_root_dirmeta = root_dirmeta\<rparr>, ents)))))))))"

definition commit_parse_link :: "bytes \<Rightarrow> (core_error, commit_link) result" where
  "commit_parse_link data =
     andthen (from_gv (decode commit_view_dec data)) (\<lambda>(_, parent, _, _, _, _, root_dirtree, root_dirmeta).
     andthen (parse_parent parent) (\<lambda>parent.
     andthen (parse_root_dirtree root_dirtree) (\<lambda>root_dirtree.
     andthen (parse_root_dirmeta root_dirmeta) (\<lambda>root_dirmeta.
     Ok \<lparr>cl_parent = parent, cl_root_dirtree = root_dirtree, cl_root_dirmeta = root_dirmeta\<rparr>))))"

definition commit_parse_timestamp :: "bytes \<Rightarrow> (core_error, u64) result" where
  "commit_parse_timestamp data =
     andthen (from_gv (decode commit_view_dec data)) (\<lambda>(_, parent, _, _, _, timestamp, root_dirtree, root_dirmeta).
     andthen (parse_parent parent) (\<lambda>_.
     andthen (parse_root_dirtree root_dirtree) (\<lambda>_.
     andthen (parse_root_dirmeta root_dirmeta) (\<lambda>_.
     Ok timestamp))))"

definition raw_dict_enc :: "bytes encoder" where
  "raw_dict_enc = \<lparr>e_alignment = 8, e_fixed = None, encode = (\<lambda>b out. Ok (out @ b))\<rparr>"

abbreviation commit_rest_enc ::
  "'p encoder \<Rightarrow> ('p \<times> (bytes \<times> bytes) list \<times> bytes \<times> bytes \<times> u64 \<times> checksum \<times> checksum) enc_body" where
  "commit_rest_enc p \<equiv>
     enc_member p (enc_member (slice_enc related_enc) (enc_member str_enc (enc_member str_enc
       (enc_member be64_enc (enc_member checksum_enc (enc_last checksum_enc))))))"

definition commit_encode_with :: "commit \<Rightarrow> bytes \<Rightarrow> bytes \<Rightarrow> (gv_error, bytes) result" where
  "commit_encode_with c metadata out =
     (let parent = (case co_parent c of Some checksum \<Rightarrow> checksum | None \<Rightarrow> []) in
      encode (tuple_enc (enc_member raw_dict_enc (commit_rest_enc bytes_enc)))
        (metadata, parent, co_related c, co_subject c, co_body c, co_timestamp c, co_root_dirtree c,
         co_root_dirmeta c) out)"

definition commit_enc :: "commit encoder" where
  "commit_enc = \<lparr>e_alignment = 8, e_fixed = None,
     encode = (\<lambda>c out. andthen (to_bytes METADATA_TYPE (co_metadata c)) (\<lambda>metadata. commit_encode_with c metadata out))\<rparr>"

definition commit_serialize :: "commit \<Rightarrow> (core_error, bytes) result" where
  "commit_serialize c = from_gv (encode_to_vec commit_enc c)"

definition commit_serialize_with_metadata :: "commit \<Rightarrow> bytes \<Rightarrow> (core_error, bytes) result" where
  "commit_serialize_with_metadata c metadata = from_gv (commit_encode_with c metadata [])"

definition commit_checksum :: "(bytes \<Rightarrow> checksum) \<Rightarrow> commit \<Rightarrow> (core_error, checksum) result" where
  "commit_checksum sha256 c = andthen (commit_serialize c) (\<lambda>b. Ok (sha256 b))"

definition commit_content_checksum :: "(bytes \<Rightarrow> checksum) \<Rightarrow> commit \<Rightarrow> checksum" where
  "commit_content_checksum sha256 c = sha256 (co_root_dirtree c @ co_root_dirmeta c)"

definition metadata_value :: "commit \<Rightarrow> bytes \<Rightarrow> gvalue option" where
  "metadata_value c key =
     (case dict_get (co_metadata c) key of
        None \<Rightarrow> None
      | Some v \<Rightarrow> map_option snd (as_variant v))"

definition commit_version :: "commit \<Rightarrow> bytes option" where
  "commit_version c = Option.bind (metadata_value c (lit ''version'')) as_str"

definition REF_BINDING_KEY :: bytes where
  "REF_BINDING_KEY = lit ''ostree.ref-binding''"

definition COLLECTION_BINDING_KEY :: bytes where
  "COLLECTION_BINDING_KEY = lit ''ostree.collection-binding''"

definition ref_bindings :: "commit \<Rightarrow> bytes list" where
  "ref_bindings c =
     (case Option.bind (metadata_value c (lit ''ostree.ref-binding'')) as_array of
        Some refs \<Rightarrow> List.map_filter as_str refs
      | None \<Rightarrow> [])"

definition collection_binding :: "commit \<Rightarrow> bytes option" where
  "collection_binding c = Option.bind (metadata_value c (lit ''ostree.collection-binding'')) as_str"

definition ref_binding :: "bytes list \<Rightarrow> gvalue" where
  "ref_binding refs = variant (TArray TStr) (VArray (map VStr (sort refs)))"

definition commit_metadata :: "(bytes \<times> gvalue) list \<Rightarrow> bytes list option \<Rightarrow> bytes option \<Rightarrow> gvalue" where
  "commit_metadata ents refs collection_id =
     (let dict = map (\<lambda>(key, val). VTuple [VStr key, val]) ents;
          dict = (case refs of
            None \<Rightarrow> dict
          | Some refs \<Rightarrow>
              let dict = dict @ [VTuple [VStr REF_BINDING_KEY, ref_binding refs]] in
              (case collection_id of
                 Some collection \<Rightarrow> dict @ [VTuple [VStr COLLECTION_BINDING_KEY, variant TStr (VStr collection)]]
               | None \<Rightarrow> dict)) in
      VArray dict)"


subsection \<open>Timestamps\<close>

datatype timestamp_error = SourceDateEpoch ustr | ClockBeforeEpoch

definition is_whitespace :: "nat \<Rightarrow> bool" where
  "is_whitespace c \<longleftrightarrow>
     (9 \<le> c \<and> c \<le> 13) \<or> c = 0x20 \<or> c = 0x85 \<or> c = 0xa0 \<or> c = 0x1680 \<or> (0x2000 \<le> c \<and> c \<le> 0x200a) \<or>
     c = 0x2028 \<or> c = 0x2029 \<or> c = 0x202f \<or> c = 0x205f \<or> c = 0x3000"

text \<open>\<open>str::parse::<u64>\<close>: an optional plus sign and at least one digit, with checked arithmetic.\<close>

fun u64_digits :: "nat \<Rightarrow> ustr \<Rightarrow> nat option" where
  "u64_digits acc [] = Some acc"
| "u64_digits acc (c # cs) =
     (if of_char CHR ''0'' \<le> c \<and> c \<le> of_char CHR ''9'' \<and> acc * 10 + (c - of_char CHR ''0'') < 2 ^ 64
      then u64_digits (acc * 10 + (c - of_char CHR ''0'')) cs else None)"

definition parse_u64 :: "ustr \<Rightarrow> u64 option" where
  "parse_u64 s =
     (let digits = (case s of c # cs \<Rightarrow> if c = of_char CHR ''+'' then cs else s | [] \<Rightarrow> s) in
      if digits = [] then None else map_option of_nat (u64_digits 0 digits))"

definition parse_source_date_epoch :: "ustr option \<Rightarrow> (timestamp_error, u64 option) result" where
  "parse_source_date_epoch raw =
     (case raw of
        None \<Rightarrow> Ok None
      | Some raw \<Rightarrow> map_ok Some (ok_or (SourceDateEpoch raw) (parse_u64 (trim_matches is_whitespace raw))))"

text \<open>\<open>now\<close> is the clock: the seconds since the Unix epoch, or \<open>None\<close> before it.\<close>

definition timestamp_from :: "u64 option \<Rightarrow> ustr option \<Rightarrow> u64 option \<Rightarrow> (timestamp_error, u64) result" where
  "timestamp_from explicit sde now =
     (case explicit of
        Some timestamp \<Rightarrow> Ok timestamp
      | None \<Rightarrow>
          andthen (parse_source_date_epoch sde) (\<lambda>t.
            case t of
              Some timestamp \<Rightarrow> Ok timestamp
            | None \<Rightarrow> ok_or ClockBeforeEpoch now))"

subsection \<open>The members of a commit as codecs\<close>

text \<open>The alignment of the first member does not matter to a reader that starts at position 0.\<close>

lemma tuple_field_first: "tr_pos r = 0 \<Longrightarrow> tuple_field r al fs l = tuple_field r al' fs l"
  by (simp add: tuple_field_def align_up_def)

lemma tuple_dec_first_alignment:
  assumes "d_fixed d = None" and "d_fixed d' = None" and "decode d' = decode d"
  shows "decode (tuple_dec (dec_member d b)) data = decode (tuple_dec (dec_member d' b)) data"
proof -
  have n: "n_offsets_of (db_lays (dec_member d b)) = n_offsets_of (db_lays (dec_member d' b))"
    using assms(1,2) by (cases "db_lays b") (simp_all add: n_offsets_of_def dec_member_def)
  have fs: "struct_fixed_size (db_lays (dec_member x b)) al = None" if "d_fixed x = None" for x :: "'c decoder" and al
    using that by (simp add: dec_member_def struct_fixed_size_def)
  have "db_read (dec_member d b) r = db_read (dec_member d' b) r" if "tr_pos r = 0" for r
    using tuple_field_first [OF that, of "d_alignment d" None False "d_alignment d'"] assms
    by (simp add: dec_member_def)
  moreover have "tr_pos r = 0" if "tuple_reader_new data k None = Ok r" for k r
    using that by (auto simp: tuple_reader_new_def Let_def split: if_splits)
  ultimately show ?thesis
    using assms(1,2)
    by (cases "tuple_reader_new data (n_offsets_of (db_lays (dec_member d' b))) None")
      (simp_all add: tuple_dec_def Let_def fs n)
qed

definition raw_dict_dec :: "bytes decoder" where
  "raw_dict_dec = \<lparr>d_alignment = 8, d_fixed = None, decode = Ok\<rparr>"

definition metadata_enc :: "gvalue encoder" where
  "metadata_enc = \<lparr>e_alignment = 8, e_fixed = None,
     encode = (\<lambda>v out. andthen (to_bytes METADATA_TYPE v) (\<lambda>b. Ok (out @ b)))\<rparr>"

definition parent_enc :: "checksum option encoder" where
  "parent_enc = \<lparr>e_alignment = 1, e_fixed = None,
     encode = (\<lambda>p out. Ok (out @ (case p of Some c \<Rightarrow> c | None \<Rightarrow> [])))\<rparr>"

definition metadata_dec :: "gvalue decoder" where
  "metadata_dec = via_dec raw_dict_dec (\<lambda>b. ok_opt (from_bytes METADATA_TYPE b))"

definition parent_dec :: "checksum option decoder" where
  "parent_dec = via_dec bytes_dec (\<lambda>b. ok_opt (parse_parent b))"

definition related_list_dec :: "(bytes \<times> bytes) list decoder" where
  "related_list_dec = via_dec (array_iter_dec related_dec) (\<lambda>r. ok_opt (array_iter_collect related_dec r))"

definition root_dirtree_dec :: "checksum decoder" where
  "root_dirtree_dec = via_dec bytes_dec (\<lambda>b. ok_opt (parse_root_dirtree b))"

definition root_dirmeta_dec :: "checksum decoder" where
  "root_dirmeta_dec = via_dec bytes_dec (\<lambda>b. ok_opt (parse_root_dirmeta b))"

definition parent_ok :: "checksum option \<Rightarrow> bool" where
  "parent_ok p \<longleftrightarrow> (\<forall>c. p = Some c \<longrightarrow> is_checksum c)"

lemma parse_parent_Ok [result_simps]:
  "parse_parent b = Ok p \<longleftrightarrow> parent_ok p \<and> b = (case p of Some c \<Rightarrow> c | None \<Rightarrow> [])"
  by (cases p) (auto simp: parse_parent_def andthen_Ok from_ay_iff is_checksum_def parent_ok_def)

lemma parse_root_Ok [result_simps]:
  "parse_root_dirtree b = Ok c \<longleftrightarrow> is_checksum c \<and> b = c"
  "parse_root_dirmeta b = Ok c \<longleftrightarrow> is_checksum c \<and> b = c"
  by (simp_all add: parse_root_dirtree_def parse_root_dirmeta_def map_err_Ok from_ay_iff)

lemma bytes_decode: "decode bytes_dec = Ok"
  by (simp add: bytes_dec_def bytes_decode_def fun_eq_iff)

interpretation metadata_c: gv_codec metadata_enc metadata_dec value_ok
  unfolding metadata_dec_def
proof (rule gv_codec_via)
  fix data :: bytes and v assume "length data < usize_bound"
  then show "(\<exists>z. decode raw_dict_dec data = Ok z \<and> ok_opt (from_bytes METADATA_TYPE z) = Some v) \<longleftrightarrow>
      value_ok v \<and> encode metadata_enc v [] = Ok data"
    by (simp add: raw_dict_dec_def metadata_enc_def ok_opt_Some from_bytes_iff)
next
  show "gv_encode metadata_enc"
    by unfold_locales (auto simp: metadata_enc_def lay_good_scalar pos_indep_def andthen_Ok_map)
qed (simp_all add: gv_decode_def raw_dict_dec_def metadata_enc_def lay_good_scalar)

interpretation parent_c: gv_codec parent_enc parent_dec parent_ok
  unfolding parent_dec_def
  by (rule gv_codec_via)
    (use bytes_c.gv_decode_axioms in \<open>auto simp: gv_encode_def parent_enc_def lay_good_scalar pos_indep_append
      bytes_decode ok_opt_Some parse_parent_Ok bytes_dec_def bytes_decode_def split: option.splits\<close>)

interpretation related_c: gv_codec related_enc related_dec "\<lambda>(n, b). utf8_valid n"
  using codec_tuple2 [OF str_c.gv_codec_axioms bytes_c.gv_codec_axioms] by simp

interpretation related_list_c: gv_codec "slice_enc related_enc" related_list_dec "\<lambda>xs. \<forall>(n, b) \<in> set xs. utf8_valid n"
  unfolding related_list_dec_def
proof (rule gv_codec_via)
  fix data :: bytes and v assume "length data < usize_bound"
  from related_c.collect_iff [OF this, of v]
  show "(\<exists>z. decode (array_iter_dec related_dec) data = Ok z \<and> ok_opt (array_iter_collect related_dec z) = Some v) \<longleftrightarrow>
    (\<forall>(n, b) \<in> set v. utf8_valid n) \<and> encode (slice_enc related_enc) v [] = Ok data"
    by (simp add: ok_opt_Some)
qed (use related_c.gv_encode_slice related_c.gv_codec_array_iter related_c.same_lay
      in \<open>simp_all add: slice_enc_def array_iter_dec_def gv_codec_def\<close>)

interpretation root_dirtree_c: gv_codec checksum_enc root_dirtree_dec is_checksum
  unfolding root_dirtree_dec_def
  by (rule gv_codec_via)
    (use bytes_c.gv_decode_axioms checksum_t.gv_encode_axioms
      in \<open>auto simp: checksum_enc_def bytes_decode ok_opt_Some parse_root_Ok bytes_dec_def bytes_decode_def\<close>)

interpretation root_dirmeta_c: gv_codec checksum_enc root_dirmeta_dec is_checksum
  unfolding root_dirmeta_dec_def
  by (rule gv_codec_via)
    (use bytes_c.gv_decode_axioms checksum_t.gv_encode_axioms
      in \<open>auto simp: checksum_enc_def bytes_decode ok_opt_Some parse_root_Ok bytes_dec_def bytes_decode_def\<close>)

abbreviation commit_owned_dec ::
  "(gvalue \<times> checksum option \<times> (bytes \<times> bytes) list \<times> bytes \<times> bytes \<times> u64 \<times> checksum \<times> checksum) decoder" where
  "commit_owned_dec \<equiv>
     tuple_dec (dec_member metadata_dec (commit_rest_dec parent_dec related_list_dec root_dirtree_dec root_dirmeta_dec))"

lemmas commit_members =
  codec_members_member [OF metadata_c.gv_codec_axioms codec_members_member [OF parent_c.gv_codec_axioms
    codec_members_member [OF related_list_c.gv_codec_axioms str_member [OF str_member [OF be64_member
      [OF codec_members_member [OF root_dirtree_c.gv_codec_axioms codec_members_last [OF root_dirmeta_c.gv_codec_axioms]]]]]]]]

interpretation commit_c: gv_codec "tuple_enc (enc_member metadata_enc (commit_rest_enc parent_enc))" commit_owned_dec
  "\<lambda>(v, p, rel, s, b, ts, t, m). value_ok v \<and> parent_ok p \<and> (\<forall>(n, b) \<in> set rel. utf8_valid n) \<and>
     utf8_valid s \<and> utf8_valid b \<and> is_checksum t \<and> is_checksum m"
  using codec_members.gv_codec_tuple [OF commit_members] by (simp add: case_prod_unfold)

lemmas commit_via =
  body_via_member [OF dec_via_via_dec [of raw_dict_dec "\<lambda>b. ok_opt (from_bytes METADATA_TYPE b)", folded metadata_dec_def]
    body_via_member [OF dec_via_via_dec [of bytes_dec "\<lambda>b. ok_opt (parse_parent b)", folded parent_dec_def]
    body_via_member [OF dec_via_via_dec [of "array_iter_dec related_dec" "\<lambda>r. ok_opt (array_iter_collect related_dec r)",
        folded related_list_dec_def]
    via_same [OF via_same [OF via_same [OF
    body_via_member [OF dec_via_via_dec [of bytes_dec "\<lambda>b. ok_opt (parse_root_dirtree b)", folded root_dirtree_dec_def]
    body_via_last [OF dec_via_via_dec [of bytes_dec "\<lambda>b. ok_opt (parse_root_dirmeta b)", folded root_dirmeta_dec_def]]]]]]]]]

lemma commit_view_raw:
  "decode commit_view_dec data =
     decode (tuple_dec (dec_member raw_dict_dec (commit_rest_dec bytes_dec (array_iter_dec related_dec) bytes_dec bytes_dec))) data"
  unfolding commit_view_dec_def
  by (rule tuple_dec_first_alignment) (simp_all add: bytes_dec_def bytes_decode_def raw_dict_dec_def fun_eq_iff)

lemma commit_owned_via:
  "decode commit_owned_dec data = Ok (v, p, rel, s, b, ts, t, m) \<longleftrightarrow>
    (\<exists>vb pb rr tb mb. decode commit_view_dec data = Ok (vb, pb, rr, s, b, ts, tb, mb) \<and>
      from_bytes METADATA_TYPE vb = Ok v \<and> parse_parent pb = Ok p \<and> array_iter_collect related_dec rr = Ok rel \<and>
      parse_root_dirtree tb = Ok t \<and> parse_root_dirmeta mb = Ok m)"
  unfolding commit_view_raw dec_viaD [OF dec_via_tuple [OF commit_via]]
  by (simp add: both_Some ok_opt_Some)

subsection \<open>Parsing inverts serialization\<close>

lemma commit_raw_members: "enc_members (enc_member raw_dict_enc (commit_rest_enc bytes_enc))"
proof -
  have "gv_encode raw_dict_enc"
    by unfold_locales (auto simp: raw_dict_enc_def lay_good_scalar pos_indep_append)
  then show ?thesis
    by (intro enc_members_member enc_members_last bytes_c.gv_encode_axioms related_list_c.gv_encode_axioms
        str_c.gv_encode_axioms be64_c.gv_encode_axioms checksum_t.gv_encode_axioms)
qed

lemma commit_encode_eq:
  "encode (tuple_enc (enc_member metadata_enc (commit_rest_enc parent_enc)))
      (co_metadata c, co_parent c, co_related c, co_subject c, co_body c, co_timestamp c, co_root_dirtree c,
       co_root_dirmeta c) [] =
    encode_to_vec commit_enc c"
proof -
  have owned: "enc_members (enc_member metadata_enc (commit_rest_enc parent_enc))"
    using commit_members by (simp add: codec_members_def)
  have lays: "eb_lays (enc_member raw_dict_enc (commit_rest_enc bytes_enc)) =
      eb_lays (enc_member metadata_enc (commit_rest_enc parent_enc))"
    by (simp add: enc_member_def enc_last_def raw_dict_enc_def bytes_enc_def metadata_enc_def parent_enc_def)
  show ?thesis
    unfolding encode_to_vec_def commit_enc_def encoder.simps commit_encode_with_def Let_def
      enc_members.tuple_enc_eq [OF owned, of "[]", simplified] enc_members.tuple_enc_eq [OF commit_raw_members, of "[]", simplified] lays
    by (cases "to_bytes METADATA_TYPE (co_metadata c)")
      (simp_all add: enc_member_def enc_last_def metadata_enc_def raw_dict_enc_def bytes_enc_def parent_enc_def
        bytes_encode_def)
qed

definition commit_typed :: "commit \<Rightarrow> bool" where
  "commit_typed c \<longleftrightarrow> value_ok (co_metadata c) \<and> parent_ok (co_parent c) \<and>
     (\<forall>(n, b) \<in> set (co_related c). utf8_valid n) \<and> utf8_valid (co_subject c) \<and> utf8_valid (co_body c) \<and>
     is_checksum (co_root_dirtree c) \<and> is_checksum (co_root_dirmeta c)"

lemma commit_parse_owned:
  "commit_parse data = Ok c \<longleftrightarrow>
     decode commit_owned_dec data = Ok (co_metadata c, co_parent c, co_related c, co_subject c, co_body c,
       co_timestamp c, co_root_dirtree c, co_root_dirmeta c)"
  unfolding commit_owned_via
  by (cases c) (auto simp: commit_parse_def andthen_Ok from_gv_Ok)

lemma commit_parse_iff:
  assumes "length data < usize_bound"
  shows "commit_parse data = Ok c \<longleftrightarrow> commit_typed c \<and> commit_serialize c = Ok data"
  unfolding commit_parse_owned commit_c.dec_iff [OF assms] commit_encode_eq
  by (auto simp: commit_typed_def commit_serialize_def from_gv_Ok)

lemma commit_parse_link_eq:
  "commit_parse data = Ok c \<Longrightarrow> commit_parse_link data =
     Ok \<lparr>cl_parent = co_parent c, cl_root_dirtree = co_root_dirtree c, cl_root_dirmeta = co_root_dirmeta c\<rparr>"
  by (auto simp: commit_parse_def commit_parse_link_def andthen_Ok from_gv_Ok)

lemma commit_parse_timestamp_eq: "commit_parse data = Ok c \<Longrightarrow> commit_parse_timestamp data = Ok (co_timestamp c)"
  by (auto simp: commit_parse_def commit_parse_timestamp_def andthen_Ok from_gv_Ok)

subsection \<open>The metadata entries\<close>

lemma tuple_field_len: "tuple_field r al fs l = Ok (s, r') \<Longrightarrow> length s \<le> length (tr_data r) \<and> tr_data r' = tr_data r"
  by (auto simp: tuple_field_def Let_def slice_def andthen_Ok split: option.splits if_splits)

lemma tuple_reader_new_data: "tuple_reader_new data n fs = Ok r \<Longrightarrow> tr_data r = data"
  by (auto simp: tuple_reader_new_def Let_def split: if_splits)

lemma variant_bytes_of_split:
  assumes "split_variant s = Ok (child, sig, ty)"
  shows "decode variant_bytes_dec s = Ok \<lparr>vb_child = child, vb_signature = sig\<rparr> \<and> s = child @ [0] @ sig"
proof -
  have "sig = signature ty" "s = child @ [0] @ signature ty" using assms by (auto simp: split_variant_Ok)
  moreover have "rposition (\<lambda>b. b = 0) (child @ [0] @ signature ty) = Some (length child)"
    using set_signature [of _ ty] by (auto intro!: rposition_append_sep)
  ultimately show ?thesis using utf8_signature by (simp add: variant_bytes_dec_def)
qed

lemma metadata_entry_parse:
  assumes "length s < usize_bound" and "parse (TDictEntry TStr TVariant) s 1 = Ok item"
  shows "\<exists>k ty v vb b. item = VTuple [VStr k, VVariant (ty, v)] \<and> decode metadata_entry_dec s = Ok (k, vb) \<and>
    encode variant_bytes_enc vb [] = Ok b \<and> to_bytes TVariant (VVariant (ty, v)) = Ok b"
proof -
  have fs: "fixed_size (TDictEntry TStr TVariant) = None" by code_simp
  have vb_lay: "d_alignment variant_bytes_dec = 8" "d_fixed variant_bytes_dec = None"
    by (simp_all add: variant_bytes_dec_def)
  have lays: "map gty_lay [TStr, TVariant] = [(1, None), (8, None)]" by code_simp
  obtain r s1 r1 k s2 r2 w where r: "tuple_reader_new s (n_offsets_of [(1, None), (8, None)]) None = Ok r"
    and f1: "tuple_field r 1 None False = Ok (s1, r1)" "str_decode s1 = Ok k"
    and f2: "tuple_field r1 8 None True = Ok (s2, r2)" "parse TVariant s2 2 = Ok w"
    and fin: "tuple_reader_finish r2 = Ok ()" and item: "item = VTuple [VStr k, w]"
    using assms(2) lays
    by (auto simp: parse.simps [of "TDictEntry TStr TVariant"] parse.simps [of TStr] MAX_VALUE_DEPTH_def
        parse_struct_def fs andthen_Ok map_ok_Ok numeral_2_eq_2)
  obtain child sig ty v where sp: "split_variant s2 = Ok (child, sig, ty)" and w: "w = VVariant (ty, v)"
    using f2(2) by (auto simp: parse.simps [of TVariant] MAX_VALUE_DEPTH_def parse_variant_def andthen_Ok variant_def)
  note vb = variant_bytes_of_split [OF sp]
  have "decode metadata_entry_dec s = Ok (k, \<lparr>vb_child = child, vb_signature = sig\<rparr>)"
    using r f1 f2(1) fin vb [THEN conjunct1] vb_lay
    by (simp add: tuple_dec_def dec_member_def dec_last_def Let_def str_dec_def struct_fixed_size_def)
  moreover have "to_bytes TVariant (VVariant (ty, v)) = Ok s2"
  proof -
    have "length s2 < usize_bound"
      using tuple_field_len [OF f1(1)] tuple_field_len [OF f2(1)] tuple_reader_new_data [OF r] assms(1) by simp
    then have "serialize [] TVariant w 2 = Ok s2" using f2(2) parse_iff by blast
    then show ?thesis using w serialize_mono [of "[]" TVariant w 2 s2 0] by (simp add: to_bytes_def)
  qed
  ultimately show ?thesis using item w vb by (auto simp: variant_bytes_enc_def)
qed

definition metadata_entry_bytes :: "bytes \<Rightarrow> (gv_error, bytes \<times> bytes) result" where
  "metadata_entry_bytes sl =
     andthen (decode metadata_entry_dec sl) (\<lambda>(key, val).
     andthen (encode variant_bytes_enc val []) (\<lambda>b. Ok (key, b)))"

definition entry_of :: "gvalue \<Rightarrow> bytes \<times> bytes \<Rightarrow> bool" where
  "entry_of item e \<longleftrightarrow>
     (\<exists>ty v. item = VTuple [VStr (fst e), VVariant (ty, v)] \<and> to_bytes TVariant (VVariant (ty, v)) = Ok (snd e))"

lemma metadata_entry_iff:
  assumes "length s < usize_bound" and "parse (TDictEntry TStr TVariant) s 1 = Ok item"
  shows "metadata_entry_bytes s = Ok e \<longleftrightarrow> entry_of item e"
  using metadata_entry_parse [OF assms] by (cases e) (auto simp: metadata_entry_bytes_def entry_of_def)

lemma metadata_entries_iff:
  assumes "length mb < usize_bound" and "from_bytes METADATA_TYPE mb = Ok (VArray items)"
  shows "(\<exists>r. decode (array_iter_dec metadata_entry_dec) mb = Ok r \<and> read_elems metadata_entry_bytes r = Ok ents) \<longleftrightarrow>
    list_all2 entry_of items ents"
proof -
  have lay: "gty_lay (TDictEntry TStr TVariant) = (8, None)" "d_alignment metadata_entry_dec = 8"
    "d_fixed metadata_entry_dec = None" by code_simp+
  obtain r ss where r: "array_reader_new mb 8 None = Ok r" and ss: "read_elems Ok r = Ok ss"
    and items: "list_all2 (\<lambda>s x. parse (TDictEntry TStr TVariant) s 1 = Ok x) ss items"
    using assms(2) lay(1)
    by (auto simp: from_bytes_def METADATA_TYPE_def parse.simps [of "TArray _"] MAX_VALUE_DEPTH_def parse_array_def
        andthen_Ok map_ok_Ok read_elems_slices [of "\<lambda>data. parse (TDictEntry TStr TVariant) data (Suc 0)"])
  have "array_slices mb 8 None = Ok ss" using r ss by (simp add: array_slices_def)
  then have "mb = array_bytes 8 False ss" using array_slices_iff [of 8 None mb ss] assms(1) by (auto simp: is_align_def)
  then have len: "length s < usize_bound" if "s \<in> set ss" for s
    using length_array_bytes [of 8 s ss False] that assms(1) by (simp add: is_align_def le_less_trans)
  have "(\<exists>r. decode (array_iter_dec metadata_entry_dec) mb = Ok r \<and> read_elems metadata_entry_bytes r = Ok ents) \<longleftrightarrow>
      list_all2 (\<lambda>s e. metadata_entry_bytes s = Ok e) ss ents"
    using r ss by (auto simp: array_iter_dec_def lay(2,3) read_elems_slices [of metadata_entry_bytes])
  also have "\<dots> \<longleftrightarrow> list_all2 entry_of items ents"
    using items len metadata_entry_iff unfolding list_all2_conv_all_nth by (metis nth_mem)
  finally show ?thesis .
qed

lemma first_bytes_len:
  assumes "decode (tuple_dec (dec_member bytes_dec b)) data = Ok (x, y)"
  shows "length x \<le> length data"
proof -
  obtain n fs r s r' where "tuple_reader_new data n fs = Ok r" "tuple_field r 1 None False = Ok (s, r')" "x = s"
    using assms by (auto simp: tuple_dec_def dec_member_def Let_def andthen_Ok bytes_dec_def bytes_decode_def)
  then show ?thesis using tuple_field_len tuple_reader_new_data by fastforce
qed

lemma metadata_is_array: "from_bytes METADATA_TYPE mb = Ok v \<Longrightarrow> \<exists>items. v = VArray items"
  by (auto simp: from_bytes_def METADATA_TYPE_def parse.simps [of "TArray _"] MAX_VALUE_DEPTH_def parse_array_def
      andthen_Ok map_ok_Ok)

lemma validate_Ok: "validate ty data = Ok u \<longleftrightarrow> (\<exists>v. from_bytes ty data = Ok v)"
  by (simp add: validate_def from_bytes_def check_eq map_ok_Ok)

lemma commit_entries_iff:
  assumes "length data < usize_bound"
  shows "commit_parse_with_metadata_entries data = Ok (c', ents) \<longleftrightarrow>
    (\<exists>c items. commit_parse data = Ok c \<and> co_metadata c = VArray items \<and> c' = c\<lparr>co_metadata := VArray []\<rparr> \<and>
       list_all2 entry_of items ents)"
proof -
  have len: "length mb < usize_bound" if "decode commit_view_dec data = Ok (mb, rest)" for mb rest
    using first_bytes_len [OF that [unfolded commit_view_dec_def]] assms by simp
  let ?rest = "\<lambda>p rr t m. parse_parent p = Ok (co_parent c') \<and> array_iter_collect related_dec rr = Ok (co_related c') \<and>
      parse_root_dirtree t = Ok (co_root_dirtree c') \<and> parse_root_dirmeta m = Ok (co_root_dirmeta c')"
  have "commit_parse_with_metadata_entries data = Ok (c', ents) \<longleftrightarrow> co_metadata c' = VArray [] \<and>
      (\<exists>mb p rr t m. decode commit_view_dec data =
          Ok (mb, p, rr, co_subject c', co_body c', co_timestamp c', t, m) \<and> ?rest p rr t m \<and>
        (\<exists>v. from_bytes METADATA_TYPE mb = Ok v) \<and>
        (\<exists>r. decode (array_iter_dec metadata_entry_dec) mb = Ok r \<and> read_elems metadata_entry_bytes r = Ok ents))"
    unfolding commit_parse_with_metadata_entries_def metadata_entry_bytes_def [abs_def, symmetric]
    by (cases c') (auto simp: andthen_Ok from_gv_Ok validate_Ok; blast)
  also have "\<dots> \<longleftrightarrow> co_metadata c' = VArray [] \<and>
      (\<exists>mb p rr t m items. decode commit_view_dec data =
          Ok (mb, p, rr, co_subject c', co_body c', co_timestamp c', t, m) \<and> ?rest p rr t m \<and>
        from_bytes METADATA_TYPE mb = Ok (VArray items) \<and> list_all2 entry_of items ents)"
    using metadata_is_array metadata_entries_iff len by (intro conj_cong refl iff_exI) blast
  also have "\<dots> \<longleftrightarrow> (\<exists>c items. commit_parse data = Ok c \<and> co_metadata c = VArray items \<and>
      c' = c\<lparr>co_metadata := VArray []\<rparr> \<and> list_all2 entry_of items ents)"
    (is "?A \<longleftrightarrow> ?B")
  proof
    assume ?A
    then obtain mb p rr t m items where "decode commit_view_dec data =
          Ok (mb, p, rr, co_subject c', co_body c', co_timestamp c', t, m)" "?rest p rr t m"
        "from_bytes METADATA_TYPE mb = Ok (VArray items)" "list_all2 entry_of items ents" "co_metadata c' = VArray []"
      by blast
    then have "commit_parse data = Ok (c'\<lparr>co_metadata := VArray items\<rparr>) \<and>
        c' = c'\<lparr>co_metadata := VArray items\<rparr>\<lparr>co_metadata := VArray []\<rparr>"
      unfolding commit_parse_owned commit_owned_via by (cases c') auto
    then show ?B using \<open>list_all2 entry_of items ents\<close> by force
  next
    assume ?B
    then show ?A unfolding commit_parse_owned commit_owned_via by auto
  qed
  finally show ?thesis .
qed

subsection \<open>The metadata that a commit writer builds\<close>

lemma dict_find_append_Some:
  "dict_find (map (\<lambda>(key, val). VTuple [VStr key, val]) ents) k =
     map_option snd (List.find (\<lambda>(key, val). key = k) ents)"
  by (induction ents) auto

lemma ref_binding_refs: "(case as_variant (ref_binding refs) of Some (_, v) \<Rightarrow> as_array v | None \<Rightarrow> None) = Some (map VStr (sort refs))"
  by (simp add: ref_binding_def variant_def)

lemma map_filter_VStr: "List.map_filter as_str (map VStr xs) = xs"
  by (induction xs) (simp_all add: List.map_filter_simps)

lemma find_None_key: "k \<notin> fst ` set ents \<Longrightarrow> List.find (\<lambda>(key, val). key = k) ents = None"
  by (force simp: find_None_iff)

lemma metadata_value_bindings:
  assumes "REF_BINDING_KEY \<notin> fst ` set ents" and "COLLECTION_BINDING_KEY \<notin> fst ` set ents"
  shows "ref_bindings (c\<lparr>co_metadata := commit_metadata ents (Some refs) coll\<rparr>) = sort refs \<and>
    collection_binding (c\<lparr>co_metadata := commit_metadata ents (Some refs) coll\<rparr>) = coll"
proof -
  have ne: "REF_BINDING_KEY \<noteq> COLLECTION_BINDING_KEY"
    by (simp add: REF_BINDING_KEY_def COLLECTION_BINDING_KEY_def)
  have "dict_get (commit_metadata ents (Some refs) coll) REF_BINDING_KEY = Some (ref_binding refs)"
    using find_None_key [OF assms(1)]
    by (cases coll) (simp_all add: dict_get_def commit_metadata_def dict_find_append dict_find_append_Some)
  moreover have "dict_get (commit_metadata ents (Some refs) coll) COLLECTION_BINDING_KEY =
      map_option (\<lambda>x. variant TStr (VStr x)) coll"
    using find_None_key [OF assms(2)] ne
    by (cases coll) (simp_all add: dict_get_def commit_metadata_def dict_find_append dict_find_append_Some)
  ultimately show ?thesis
    unfolding REF_BINDING_KEY_def COLLECTION_BINDING_KEY_def
    by (cases coll) (simp_all add: ref_bindings_def collection_binding_def metadata_value_def ref_binding_def variant_def
        map_filter_VStr del: lit_simps)
qed

subsection \<open>Decimal timestamps\<close>

definition is_digit :: "nat \<Rightarrow> bool" where
  "is_digit c \<longleftrightarrow> of_char CHR ''0'' \<le> c \<and> c \<le> of_char CHR ''9''"

definition decimal_value :: "ustr \<Rightarrow> nat" where
  "decimal_value ds = foldl (\<lambda>acc c. acc * 10 + (c - of_char CHR ''0'')) 0 ds"

lemma foldl_decimal_ge: "acc \<le> foldl (\<lambda>acc c. acc * 10 + (c - of_char CHR ''0'')) acc ds" for acc :: nat
proof (induction ds arbitrary: acc)
  case (Cons c ds)
  from Cons.IH [of "acc * 10 + (c - of_char CHR ''0'')"] show ?case by simp
qed simp

lemma u64_digits_Some:
  "acc < 2 ^ 64 \<Longrightarrow> u64_digits acc ds = Some n \<longleftrightarrow>
     list_all is_digit ds \<and> n = foldl (\<lambda>acc c. acc * 10 + (c - of_char CHR ''0'')) acc ds \<and> n < 2 ^ 64"
proof (induction ds arbitrary: acc)
  case (Cons c cs)
  let ?a = "acc * 10 + (c - of_char CHR ''0'')"
  have ge: "?a \<le> foldl (\<lambda>acc c. acc * 10 + (c - of_char CHR ''0'')) ?a cs" by (rule foldl_decimal_ge)
  show ?case
  proof (cases "?a < 2 ^ 64")
    case True
    then show ?thesis using Cons.IH [OF True] by (auto simp: is_digit_def)
  next
    case False
    then show ?thesis using ge by (auto simp: is_digit_def)
  qed
qed auto

lemma parse_u64_Some:
  "parse_u64 s = Some v \<longleftrightarrow>
     (\<exists>ds. (s = ds \<or> s = of_char CHR ''+'' # ds) \<and> ds \<noteq> [] \<and> list_all is_digit ds \<and> decimal_value ds = unat v)"
proof -
  have conv: "map_option of_nat (u64_digits 0 ds) = Some v \<longleftrightarrow> list_all is_digit ds \<and> decimal_value ds = unat v" for ds
  proof -
    have "u64_digits 0 ds = Some n \<longleftrightarrow> list_all is_digit ds \<and> n = decimal_value ds \<and> n < 2 ^ 64" for n
      unfolding decimal_value_def by (rule u64_digits_Some) simp
    moreover have "of_nat n = v \<and> n < 2 ^ 64 \<longleftrightarrow> n = unat v" for n
      using unsigned_less [of v] by (auto simp: unat_of_nat take_bit_nat_eq_self)
    ultimately show ?thesis unfolding map_option_eq_Some by metis
  qed
  define D where "D = (case s of c # cs \<Rightarrow> if c = of_char CHR ''+'' then cs else s | [] \<Rightarrow> s)"
  have "parse_u64 s = (if D = [] then None else map_option of_nat (u64_digits 0 D))"
    unfolding parse_u64_def Let_def D_def ..
  then have "parse_u64 s = Some v \<longleftrightarrow> D \<noteq> [] \<and> list_all is_digit D \<and> decimal_value D = unat v"
    using conv [of D] by (cases "D = []") simp_all
  also have "\<dots> \<longleftrightarrow>
      (\<exists>ds. (s = ds \<or> s = of_char CHR ''+'' # ds) \<and> ds \<noteq> [] \<and> list_all is_digit ds \<and> decimal_value ds = unat v)"
    by (cases s) (auto simp: is_digit_def D_def)
  finally show ?thesis .
qed

subsection \<open>Properties\<close>

abbreviation sample_commit :: commit where
  "sample_commit \<equiv> \<lparr>co_metadata = VArray [], co_parent = None, co_related = [], co_subject = [97], co_body = [],
     co_timestamp = 7, co_root_dirtree = replicate 32 1, co_root_dirmeta = replicate 32 2\<rparr>"

abbreviation sample_commit_bytes :: bytes where
  "sample_commit_bytes \<equiv> [97, 0, 0, 0, 0, 0, 0, 0, 0, 0, 0, 0, 0, 0, 0, 7] @ replicate 32 1 @ replicate 32 2 @
     [48, 3, 2, 0, 0, 0]"

lemma sample_commit_serialize: "commit_serialize sample_commit = Ok sample_commit_bytes"
proof -
  have "struct_fixed [(8, None), (1, None), (1, None), (1, None), (1, None), (8, Some 8), (1, None), (1, None)] = None"
    "struct_bytes None [(8, None, []), (1, None, []), (1, None, []), (1, None, [97, 0]), (1, None, [0]),
      (8, Some 8, [0, 0, 0, 0, 0, 0, 0, 7]), (1, None, replicate 32 1), (1, None, replicate 32 2)] = sample_commit_bytes"
    "str_encode [97] [] = Ok [97, 0]" "str_encode [] [] = Ok [0]" "fixed_size (TDictEntry TStr TVariant) = None"
    "e_alignment related_enc = 1" "e_fixed related_enc = None"
    by code_simp+
  moreover have "to_be_bytes (7 :: u64) = [0, 0, 0, 0, 0, 0, 0, 7]"
    by (simp add: to_be_bytes_def to_le_bytes_def le_bytes_numeral)
  moreover have "encode (slice_enc related_enc) [] [] = Ok []"
    using related_c.slice_eq [of "[]" "[]"] by (simp add: array_bytes_def)
  moreover have "to_bytes METADATA_TYPE (VArray []) = Ok []"
    using calculation(5) by (simp add: to_bytes_def METADATA_TYPE_def serialize.simps [of _ "TArray _"] MAX_VALUE_DEPTH_def
        serialize_array_def write_array_def)
  moreover have "e_alignment raw_dict_enc = 8" "e_alignment bytes_enc = 1" "e_alignment str_enc = 1" "e_alignment be64_enc = 8"
    "e_alignment checksum_enc = 1" "e_fixed raw_dict_enc = None" "e_fixed bytes_enc = None" "e_fixed str_enc = None"
    "e_fixed be64_enc = Some 8" "e_fixed checksum_enc = None"
    "encode raw_dict_enc [] [] = Ok []" "encode bytes_enc [] [] = Ok []" "encode str_enc = str_encode"
    "encode be64_enc 7 [] = Ok (to_be_bytes (7 :: u64))" "\<And>c. encode checksum_enc c [] = Ok c"
    by (simp_all add: raw_dict_enc_def bytes_enc_def str_enc_def be64_enc_def checksum_enc_def bytes_encode_def)
  ultimately show ?thesis
    by (simp add: commit_serialize_def encode_to_vec_def commit_enc_def commit_encode_with_def
        enc_members.tuple_enc_eq [OF commit_raw_members] eb_simps slice_enc_lay with_bytes_def)
qed

lemma sample_commit_parse: "commit_parse sample_commit_bytes = Ok sample_commit"
  using commit_parse_iff [of sample_commit_bytes sample_commit] sample_commit_serialize
  by (simp add: commit_typed_def parent_ok_def is_checksum_def)

text \<open>C5: \<open>Commit::parse\<close> accepts bytes with a commit exactly when \<open>serialize\<close> writes these bytes for it; the
  commit is then well formed: UTF-8 texts, checksums of 32 bytes, a parent that is absent or a checksum,
  and metadata that \<open>from_bytes\<close> can return.\<close>

theorem commit_parse_serialize:
  assumes "length data < usize_bound"
  shows "commit_parse data = Ok c \<longleftrightarrow> commit_typed c \<and> commit_serialize c = Ok data"
  using assms by (rule commit_parse_iff)

theorem commit_parse_serialize_witness: "commit_parse sample_commit_bytes = Ok sample_commit"
  using commit_parse_serialize [of sample_commit_bytes sample_commit] sample_commit_serialize
  by (simp add: commit_typed_def parent_ok_def is_checksum_def)

text \<open>C22: on bytes that \<open>parse\<close> accepts, \<open>parse_link\<close> and \<open>parse_timestamp\<close> give the parent, the roots and
  the timestamp of the parsed commit.\<close>

theorem commit_views_agree:
  assumes "commit_parse data = Ok c"
  shows "commit_parse_link data =
      Ok \<lparr>cl_parent = co_parent c, cl_root_dirtree = co_root_dirtree c, cl_root_dirmeta = co_root_dirmeta c\<rparr> \<and>
    commit_parse_timestamp data = Ok (co_timestamp c)"
  using commit_parse_link_eq [OF assms] commit_parse_timestamp_eq [OF assms] by blast

theorem commit_views_agree_witness: "commit_parse_timestamp sample_commit_bytes = Ok 7"
  using commit_views_agree [OF sample_commit_parse] by simp

text \<open>C23: \<open>parse_with_metadata_entries\<close> accepts exactly what \<open>parse\<close> accepts. It returns the same commit with
  empty metadata, and for each metadata entry its key and the serialized bytes of its variant.\<close>

theorem commit_metadata_entries:
  assumes "length data < usize_bound"
  shows "commit_parse_with_metadata_entries data = Ok (c', ents) \<longleftrightarrow>
    (\<exists>c items. commit_parse data = Ok c \<and> co_metadata c = VArray items \<and> c' = c\<lparr>co_metadata := VArray []\<rparr> \<and>
       list_all2 entry_of items ents)"
  using assms by (rule commit_entries_iff)

theorem commit_metadata_entries_witness:
  "commit_parse_with_metadata_entries sample_commit_bytes = Ok (sample_commit, [])"
  using commit_metadata_entries [of sample_commit_bytes sample_commit "[]"] sample_commit_parse by simp



text \<open>An explicit timestamp wins over \<open>SOURCE_DATE_EPOCH\<close>, which wins over the clock. The variable is
  accepted exactly when, without the white space around it, it is a decimal number below \<open>2 ^ 64\<close> with an
  optional plus sign; then its value is the timestamp.\<close>

theorem timestamp_precedence:
  "timestamp_from (Some t) sde now = Ok t \<and>
   (timestamp_from None (Some raw) now = Ok v \<longleftrightarrow>
     (\<exists>ds. (trim_matches is_whitespace raw = ds \<or> trim_matches is_whitespace raw = of_char CHR ''+'' # ds) \<and> ds \<noteq> [] \<and>
        list_all is_digit ds \<and> decimal_value ds = unat v)) \<and>
   timestamp_from None None now = ok_or ClockBeforeEpoch now"
  using parse_u64_Some [of "trim_matches is_whitespace raw" v]
  by (cases "parse_u64 (trim_matches is_whitespace raw)")
    (auto simp: timestamp_from_def parse_source_date_epoch_def)

end
