(* ===== verification/Core_Refname.thy ===== *)
theory Core_Refname
  imports Core_Checksum
begin

section \<open>Ref names\<close>

text \<open>
  \<^verbatim>\<open>crates/ostrya-core/src/refname.rs\<close>: the rules for the components of a ref name, for whole ref
  names, refspecs and collection ids. A name is a list of Unicode scalar values. The Unicode table of
  \<open>char::is_alphanumeric\<close> is the parameter \<open>alnum\<close>; the code asks it for non-ASCII characters only.
\<close>

definition REFUSED_ALPHANUMERIC :: "(nat \<times> nat) list" where
  "REFUSED_ALPHANUMERIC = [
    (0x903, 0x903), (0x93b, 0x93b), (0x93e, 0x940), (0x949, 0x94c), (0x94e, 0x94f), (0x982, 0x983),
    (0x9be, 0x9c0), (0x9c7, 0x9c8), (0x9cb, 0x9cc), (0x9d7, 0x9d7), (0xa03, 0xa03), (0xa3e, 0xa40),
    (0xa83, 0xa83), (0xabe, 0xac0), (0xac9, 0xac9), (0xacb, 0xacc), (0xb02, 0xb03), (0xb3e, 0xb3e),
    (0xb40, 0xb40), (0xb47, 0xb48), (0xb4b, 0xb4c), (0xb57, 0xb57), (0xbbe, 0xbbf), (0xbc1, 0xbc2),
    (0xbc6, 0xbc8), (0xbca, 0xbcc), (0xbd7, 0xbd7), (0xc01, 0xc03), (0xc41, 0xc44), (0xc82, 0xc83),
    (0xcbe, 0xcbe), (0xcc0, 0xcc4), (0xcc7, 0xcc8), (0xcca, 0xccb), (0xcd5, 0xcd6), (0xcf3, 0xcf3),
    (0xd02, 0xd03), (0xd3e, 0xd40), (0xd46, 0xd48), (0xd4a, 0xd4c), (0xd57, 0xd57), (0xd82, 0xd83),
    (0xdcf, 0xdd1), (0xdd8, 0xddf), (0xdf2, 0xdf3), (0xf7f, 0xf7f), (0x102b, 0x102c), (0x1031, 0x1031),
    (0x1038, 0x1038), (0x103b, 0x103c), (0x1056, 0x1057), (0x1062, 0x1064), (0x1067, 0x106d),
    (0x1083, 0x1084), (0x1087, 0x108c), (0x108f, 0x108f), (0x109a, 0x109c), (0x17b6, 0x17b6),
    (0x17be, 0x17c5), (0x17c7, 0x17c8), (0x1923, 0x1926), (0x1929, 0x192b), (0x1930, 0x1931),
    (0x1933, 0x1938), (0x1a19, 0x1a1a), (0x1a55, 0x1a55), (0x1a57, 0x1a57), (0x1a61, 0x1a61),
    (0x1a63, 0x1a64), (0x1a6d, 0x1a72), (0x1b04, 0x1b04), (0x1b35, 0x1b35), (0x1b3b, 0x1b3b),
    (0x1b3d, 0x1b41), (0x1b43, 0x1b43), (0x1b82, 0x1b82), (0x1ba1, 0x1ba1), (0x1ba6, 0x1ba7),
    (0x1be7, 0x1be7), (0x1bea, 0x1bec), (0x1bee, 0x1bee), (0x1c24, 0x1c2b), (0x1c34, 0x1c35),
    (0x24b6, 0x24e9), (0xa823, 0xa824), (0xa827, 0xa827), (0xa880, 0xa881), (0xa8b4, 0xa8c3),
    (0xa952, 0xa952), (0xa983, 0xa983), (0xa9b4, 0xa9b5), (0xa9ba, 0xa9bb), (0xa9be, 0xa9bf),
    (0xaa2f, 0xaa30), (0xaa33, 0xaa34), (0xaa4d, 0xaa4d), (0xaa7b, 0xaa7b), (0xaa7d, 0xaa7d),
    (0xaaeb, 0xaaeb), (0xaaee, 0xaaef), (0xaaf5, 0xaaf5), (0xabe3, 0xabe4), (0xabe6, 0xabe7),
    (0xabe9, 0xabea), (0x11000, 0x11000), (0x11002, 0x11002), (0x11082, 0x11082), (0x110b0, 0x110b2),
    (0x110b7, 0x110b8), (0x1112c, 0x1112c), (0x11145, 0x11146), (0x11182, 0x11182), (0x111b3, 0x111b5),
    (0x111bf, 0x111bf), (0x111ce, 0x111ce), (0x1122c, 0x1122e), (0x11232, 0x11233), (0x112e0, 0x112e2),
    (0x11302, 0x11303), (0x1133e, 0x1133f), (0x11341, 0x11344), (0x11347, 0x11348), (0x1134b, 0x1134c),
    (0x11357, 0x11357), (0x11362, 0x11363), (0x113b8, 0x113ba), (0x113c2, 0x113c2), (0x113c5, 0x113c5),
    (0x113c7, 0x113ca), (0x113cc, 0x113cd), (0x11435, 0x11437), (0x11440, 0x11441), (0x11445, 0x11445),
    (0x114b0, 0x114b2), (0x114b9, 0x114b9), (0x114bb, 0x114be), (0x114c1, 0x114c1), (0x115af, 0x115b1),
    (0x115b8, 0x115bb), (0x115be, 0x115be), (0x11630, 0x11632), (0x1163b, 0x1163c), (0x1163e, 0x1163e),
    (0x116ac, 0x116ac), (0x116ae, 0x116af), (0x1171e, 0x1171e), (0x11720, 0x11721), (0x11726, 0x11726),
    (0x1182c, 0x1182e), (0x11838, 0x11838), (0x11930, 0x11935), (0x11937, 0x11938), (0x11940, 0x11940),
    (0x11942, 0x11942), (0x119d1, 0x119d3), (0x119dc, 0x119df), (0x119e4, 0x119e4), (0x11a39, 0x11a39),
    (0x11a57, 0x11a58), (0x11a97, 0x11a97), (0x11b61, 0x11b61), (0x11b65, 0x11b65), (0x11b67, 0x11b67),
    (0x11c2f, 0x11c2f), (0x11c3e, 0x11c3e), (0x11ca9, 0x11ca9), (0x11cb1, 0x11cb1), (0x11cb4, 0x11cb4),
    (0x11d8a, 0x11d8e), (0x11d93, 0x11d94), (0x11d96, 0x11d96), (0x11ef5, 0x11ef6), (0x11f03, 0x11f03),
    (0x11f34, 0x11f35), (0x11f3e, 0x11f3f), (0x1612a, 0x1612c), (0x16f51, 0x16f87), (0x16ff0, 0x16ff1),
    (0x1f130, 0x1f149), (0x1f150, 0x1f169), (0x1f170, 0x1f189)]"

definition is_name_character :: "(nat \<Rightarrow> bool) \<Rightarrow> nat \<Rightarrow> bool" where
  "is_name_character alnum c \<longleftrightarrow>
     alnum c \<and> \<not> list_ex (\<lambda>(first, last). first \<le> c \<and> c \<le> last) REFUSED_ALPHANUMERIC"

definition is_ascii_alphabetic :: "nat \<Rightarrow> bool" where
  "is_ascii_alphabetic c \<longleftrightarrow> (of_char CHR ''A'' \<le> c \<and> c \<le> of_char CHR ''Z'') \<or>
     (of_char CHR ''a'' \<le> c \<and> c \<le> of_char CHR ''z'')"

definition is_ascii_alphanumeric :: "nat \<Rightarrow> bool" where
  "is_ascii_alphanumeric c \<longleftrightarrow> is_ascii_alphabetic c \<or> (of_char CHR ''0'' \<le> c \<and> c \<le> of_char CHR ''9'')"

definition is_ref_name_component :: "(nat \<Rightarrow> bool) \<Rightarrow> ustr \<Rightarrow> bool" where
  "is_ref_name_component alnum component \<longleftrightarrow>
     \<not> starts_with (\<lambda>c. c = of_char CHR ''-'' \<or> c = of_char CHR ''.'') component \<and>
     component \<noteq> [] \<and>
     list_all (\<lambda>c. if c < 128
        then is_ascii_alphanumeric c \<or> c = of_char CHR ''-'' \<or> c = of_char CHR ''.'' \<or> c = of_char CHR ''_''
        else is_name_character alnum c) component"

definition is_ref_component :: "ustr \<Rightarrow> bool" where
  "is_ref_component component \<longleftrightarrow>
     \<not> (component = [] \<or> component = lit ''.'' \<or> component = lit ''..'' \<or>
        of_char CHR ''/'' \<in> set component \<or> 0 \<in> set component)"

definition is_ref_name :: "(nat \<Rightarrow> bool) \<Rightarrow> ustr \<Rightarrow> bool" where
  "is_ref_name alnum name \<longleftrightarrow>
     name \<noteq> [] \<and> list_all (is_ref_name_component alnum) (split_on (of_char CHR ''/'') name)"

definition is_refspec :: "(nat \<Rightarrow> bool) \<Rightarrow> ustr \<Rightarrow> bool" where
  "is_refspec alnum refspec =
     (case split_once (of_char CHR '':'') refspec of
        Some (remote, name) \<Rightarrow> is_ref_name_component alnum remote \<and> is_ref_name alnum name
      | None \<Rightarrow> is_ref_name alnum refspec)"

definition is_checksum_shaped :: "ustr \<Rightarrow> bool" where
  "is_checksum_shaped name = is_ok (from_hex_lower (as_bytes name))"

definition is_collection_id :: "ustr \<Rightarrow> bool" where
  "is_collection_id cid \<longleftrightarrow>
     2 \<le> length (split_on (of_char CHR ''.'') cid) \<and>
     list_all (\<lambda>element. case element of
          [] \<Rightarrow> False
        | first # chars \<Rightarrow> (is_ascii_alphabetic first \<or> first = of_char CHR ''_'') \<and>
            list_all (\<lambda>c. is_ascii_alphanumeric c \<or> c = of_char CHR ''_'') chars)
       (split_on (of_char CHR ''.'') cid)"

subsection \<open>What the rules exclude\<close>

lemma component_chars:
  assumes "is_ref_name_component alnum p" and "c \<in> set p" and "c < 128"
  shows "is_ascii_alphanumeric c \<or> c = of_char CHR ''-'' \<or> c = of_char CHR ''.'' \<or> c = of_char CHR ''_''"
  using assms unfolding is_ref_name_component_def list_all_iff by (metis (full_types))

lemma component_excludes:
  assumes "is_ref_name_component alnum p"
  shows "of_char CHR ''/'' \<notin> set p" "of_char CHR '':'' \<notin> set p" "0 \<notin> set p"
    and "of_char CHR ''!'' \<notin> set p" "of_char CHR ''*'' \<notin> set p"
  using component_chars [OF assms, of "of_char CHR ''/''"] component_chars [OF assms, of "of_char CHR '':''"]
    component_chars [OF assms, of 0] component_chars [OF assms, of "of_char CHR ''!''"]
    component_chars [OF assms, of "of_char CHR ''*''"]
  by (auto simp: is_ascii_alphanumeric_def is_ascii_alphabetic_def)

lemma component_is_ref_component: "is_ref_name_component alnum p \<Longrightarrow> is_ref_component p"
  using component_excludes [of alnum p]
  by (auto simp: is_ref_component_def is_ref_name_component_def starts_with_def lit_def)

lemma is_ref_name_iff:
  "is_ref_name alnum name \<longleftrightarrow> list_all (is_ref_name_component alnum) (split_on (of_char CHR ''/'') name)"
  by (auto simp: is_ref_name_def is_ref_name_component_def)

lemma is_ref_name_append:
  "is_ref_name alnum (a @ of_char CHR ''/'' # b) \<longleftrightarrow> is_ref_name alnum a \<and> is_ref_name alnum b"
  by (simp add: is_ref_name_iff split_on_append)

lemma ref_name_excludes:
  assumes "is_ref_name alnum name"
  shows "of_char CHR '':'' \<notin> set name" "0 \<notin> set name"
proof -
  have all: "is_ref_name_component alnum p" if "p \<in> set (split_on (of_char CHR ''/'') name)" for p
    using assms that by (simp add: is_ref_name_iff list_all_iff)
  show "of_char CHR '':'' \<notin> set name"
    using set_split_on [of "of_char CHR '':''" name "of_char CHR ''/''"] component_excludes(2) [OF all] by auto
  show "0 \<notin> set name"
    using set_split_on [of 0 name "of_char CHR ''/''"] component_excludes(3) [OF all] by auto
qed

lemma is_refspec_iff:
  "is_refspec alnum r \<longleftrightarrow> is_ref_name alnum r \<or>
     (\<exists>remote name. r = remote @ of_char CHR '':'' # name \<and> is_ref_name_component alnum remote \<and> is_ref_name alnum name)"
proof (cases "split_once (of_char CHR '':'') r")
  case None
  then have "of_char CHR '':'' \<notin> set r" by (simp only: split_once_None not_False_eq_True)
  then show ?thesis unfolding is_refspec_def None by auto
next
  case (Some ab)
  obtain a b where ab: "ab = (a, b)" by (cases ab)
  then have r: "r = a @ of_char CHR '':'' # b" "of_char CHR '':'' \<notin> set a" using Some by (auto simp: split_once_Some)
  have "a = remote \<and> b = name" if "r = remote @ of_char CHR '':'' # name" "is_ref_name_component alnum remote" for remote name
    using Some ab that component_excludes(2) split_once_Some [of "of_char CHR '':''" r remote name] by auto
  then show ?thesis using Some ab r ref_name_excludes(1) [of alnum r] by (auto simp: is_refspec_def)
qed

lemma utf8_encode_hex:
  assumes "c < 0x110000" and "utf8_encode_char c = b # bs" and "b < 128"
  shows "bs = [] \<and> c < 128 \<and> unat b = c"
proof (rule ccontr)
  assume neg: "\<not> ?thesis"
  have "\<not> c < 0x80" using neg assms by (auto simp: utf8_encode_char_def unat_of_nat)
  then obtain k where "b = word_of_nat k" "128 \<le> k" "k < 256"
    using assms(1,2) by (auto simp: utf8_encode_char_def simp del: of_nat_add split: if_splits)
  then have "128 \<le> unat b" by (simp add: unat_of_nat)
  then show False using assms(3) by (simp add: word_less_nat_alt)
qed

lemma as_bytes_ascii:
  assumes "list_all (\<lambda>c. c < 0x110000) s" and "\<forall>b \<in> set (as_bytes s). b < 128"
  shows "s = map unat (as_bytes s)"
  using assms
proof (induction s)
  case (Cons c s)
  obtain b bs where e: "utf8_encode_char c = b # bs" by (cases "utf8_encode_char c") (auto simp: utf8_encode_char_def split: if_splits)
  have "bs = [] \<and> c < 128 \<and> unat b = c"
    using Cons.prems e by (intro utf8_encode_hex) (auto simp: as_bytes_def)
  then show ?case using Cons e by (auto simp: as_bytes_def)
qed (simp add: as_bytes_def)

lemma hex_is_component: "b \<in> set HEX \<Longrightarrow> b < 128 \<and> is_ascii_alphanumeric (unat b)"
  by (auto simp: HEX_def is_ascii_alphanumeric_def is_ascii_alphabetic_def lit_def)

text \<open>Text in the shape of a checksum is always a valid ref name, so the check for it is needed in addition
  to the ref-name rule.\<close>

lemma checksum_shaped_is_ref_name:
  assumes "list_all (\<lambda>c. c < 0x110000) name" and "is_checksum_shaped name"
  shows "is_ref_name alnum name"
proof -
  obtain c where c: "is_checksum c" "as_bytes name = to_hex c"
    using assms(2) by (auto simp: is_checksum_shaped_def is_ok_iff from_hex_lower_iff)
  have hex: "b < 128 \<and> is_ascii_alphanumeric (unat b)" if "b \<in> set (as_bytes name)" for b
    using that c hex_is_component set_to_hex by metis
  have n: "name = map unat (as_bytes name)" using assms(1) hex by (intro as_bytes_ascii) auto
  have an: "x < 128 \<and> is_ascii_alphanumeric x" if "x \<in> set name" for x
  proof -
    from that n obtain b where "b \<in> set (as_bytes name)" "x = unat b" by (metis imageE list.set_map)
    then show ?thesis using hex [of b] by (simp add: word_less_nat_alt)
  qed
  have ne: "name \<noteq> []" using c(1) arg_cong [OF c(2), of length] by (auto simp: as_bytes_def is_checksum_def)
  have "of_char CHR ''/'' \<notin> set name" using an [of "of_char CHR ''/''"] by (auto simp: is_ascii_alphanumeric_def is_ascii_alphabetic_def)
  moreover have "\<not> starts_with (\<lambda>c. c = of_char CHR ''-'' \<or> c = of_char CHR ''.'') name"
    using an [OF hd_in_set [OF ne]] by (auto simp: starts_with_def is_ascii_alphanumeric_def is_ascii_alphabetic_def)
  then have "is_ref_name_component alnum name"
    using an ne by (simp add: is_ref_name_component_def list_all_iff)
  ultimately show ?thesis by (simp add: is_ref_name_iff split_on_no_occurrence)
qed

text \<open>C18: a ref name is a relative path that stays below its directory: each of its components is a plain
  file name, not \<open>.\<close> or \<open>..\<close>. A refspec is a ref name, or a remote and a ref name joined by a colon, and
  neither part holds a colon, so the two readings never overlap.\<close>

theorem refspec_names_a_path:
  assumes "is_refspec alnum r"
  shows "case split_once (of_char CHR '':'') r of
      None \<Rightarrow> list_all is_ref_component (split_on (of_char CHR ''/'') r)
    | Some (remote, name) \<Rightarrow> is_ref_component remote \<and> of_char CHR '':'' \<notin> set name \<and>
        list_all is_ref_component (split_on (of_char CHR ''/'') name)"
proof -
  have "list_all is_ref_component (split_on (of_char CHR ''/'') name) \<and> of_char CHR '':'' \<notin> set name"
    if "is_ref_name alnum name" for name
    using that component_is_ref_component ref_name_excludes(1) unfolding is_ref_name_iff list_all_iff by blast
  then show ?thesis
    using assms component_is_ref_component unfolding is_refspec_def by (cases "split_once (of_char CHR '':'') r") auto
qed

theorem refspec_names_a_path_witness:
  "is_refspec (\<lambda>_. False) (lit ''origin:os/main'') \<and>
   (case split_once (of_char CHR '':'') (lit ''origin:os/main'') of
      None \<Rightarrow> list_all is_ref_component (split_on (of_char CHR ''/'') (lit ''origin:os/main''))
    | Some (remote, name) \<Rightarrow> is_ref_component remote \<and> of_char CHR '':'' \<notin> set name \<and>
        list_all is_ref_component (split_on (of_char CHR ''/'') name))"
proof -
  have "is_refspec (\<lambda>_. False) (lit ''origin:os/main'')" by code_simp
  from refspec_names_a_path [OF this] this show ?thesis by (rule conjI [rotated])
qed

end
