(* ===== verification/Core_Refpattern.thy ===== *)
theory Core_Refpattern
  imports Core_Refname
begin

section \<open>Ref patterns and selectors\<close>

text \<open>
  \<^verbatim>\<open>crates/ostrya-core/src/refpattern.rs\<close>: patterns over the parts of a ref name, with \<open>*\<close> for one part
  and \<open>**\<close> for one or more parts, and selectors of positive and negative patterns. The matcher is a
  table with one row per pattern part, computed in two buffers that swap; patterns with at most a last
  \<open>**\<close> take a direct path. The theory proves both equal to a declarative reading of a pattern. The number
  of table cells computed is part of the model.
\<close>

datatype part = Literal_part ustr | One_part | Many_part

record ref_pattern =
  rp_text :: ustr
  rp_parts :: "part list"

record ref_selector =
  rs_positive :: "ref_pattern list"
  rs_negative :: "ref_pattern list"

definition parse_part :: "(nat \<Rightarrow> bool) \<Rightarrow> ustr \<Rightarrow> ustr \<Rightarrow> (core_error, part) result" where
  "parse_part alnum entry part =
     (if part = [] then Err (InvalidRefPattern entry ''the pattern has an empty part'')
      else if part = lit ''*'' then Ok One_part
      else if part = lit ''**'' then Ok Many_part
      else if of_char CHR ''*'' \<in> set part then Err (InvalidRefPattern entry ''`*` is valid only as a whole part'')
      else if is_ref_name_component alnum part then Ok (Literal_part part)
      else Err (InvalidRefPattern entry ''a part is not a valid ref-name component''))"

definition parse_pattern :: "(nat \<Rightarrow> bool) \<Rightarrow> ustr \<Rightarrow> ustr \<Rightarrow> (core_error, ref_pattern) result" where
  "parse_pattern alnum pattern entry =
     (if pattern = [] then Err (InvalidRefPattern entry ''the pattern is empty'')
      else if of_char CHR ''!'' \<in> set pattern then
        Err (InvalidRefPattern entry ''a `!` is valid only as the first character of a selector entry'')
      else andthen (try_map (parse_part alnum entry) (split_on (of_char CHR ''/'') pattern))
        (\<lambda>parts. Ok \<lparr>rp_text = pattern, rp_parts = parts\<rparr>))"

definition ref_pattern_parse :: "(nat \<Rightarrow> bool) \<Rightarrow> ustr \<Rightarrow> (core_error, ref_pattern) result" where
  "ref_pattern_parse alnum pattern = parse_pattern alnum pattern pattern"

text \<open>One cell, one row and all rows of the table. Row \<open>i\<close> tells which prefixes of the name the first \<open>i\<close>
  parts cover. The counter \<open>steps\<close> grows by one per cell.\<close>

definition match_cell :: "part \<Rightarrow> ustr list \<Rightarrow> bool list \<Rightarrow> bool list \<Rightarrow> nat \<Rightarrow> bool" where
  "match_cell part name prev cur j =
     (case part of
        Literal_part literal \<Rightarrow> prev ! (j - 1) \<and> name ! (j - 1) = literal
      | One_part \<Rightarrow> prev ! (j - 1)
      | Many_part \<Rightarrow> prev ! (j - 1) \<or> cur ! (j - 1))"

definition match_row :: "part \<Rightarrow> ustr list \<Rightarrow> bool list \<Rightarrow> nat \<Rightarrow> bool list \<times> nat \<Rightarrow> bool list \<times> nat" where
  "match_row part name prev n st =
     fold (\<lambda>j (cur, steps). (cur[j := match_cell part name prev cur j], steps + 1)) [1..<n + 1] st"

fun match_rows :: "part list \<Rightarrow> ustr list \<Rightarrow> bool list \<Rightarrow> bool list \<Rightarrow> nat \<Rightarrow> bool list \<times> nat" where
  "match_rows [] name prev cur steps = (prev, steps)"
| "match_rows (part # parts) name prev cur steps =
     (let (cur', steps') = match_row part name prev (length name) (cur[0 := False], steps)
      in match_rows parts name cur' prev steps')"

definition match_parts :: "part list \<Rightarrow> ustr list \<Rightarrow> nat \<Rightarrow> bool \<times> nat" where
  "match_parts parts name steps =
     (let m = length parts; n = length name in
      if n < m then (False, steps)
      else
        let prev = (replicate (n + 1) False)[0 := True];
            cur = replicate (n + 1) False;
            (prev', steps') = match_rows parts name prev cur steps
        in (prev' ! n, steps'))"

fun match_flat_from :: "part list \<Rightarrow> ustr list \<Rightarrow> ustr list option" where
  "match_flat_from [] name = Some name"
| "match_flat_from (part # parts) [] = None"
| "match_flat_from (part # parts) (piece # name) =
     (case part of
        Literal_part literal \<Rightarrow> if piece = literal then match_flat_from parts name else None
      | One_part \<Rightarrow> match_flat_from parts name
      | Many_part \<Rightarrow> None)"

definition match_flat :: "part list \<Rightarrow> ustr \<Rightarrow> bool" where
  "match_flat parts name =
     (let (head, last_many) = (case split_last parts of Some (Many_part, head) \<Rightarrow> (head, True) | _ \<Rightarrow> (parts, False))
      in case match_flat_from head (split_on (of_char CHR ''/'') name) of
           None \<Rightarrow> False
         | Some rest \<Rightarrow> (rest \<noteq> []) = last_many)"

definition pattern_matches :: "ref_pattern \<Rightarrow> ustr \<Rightarrow> bool" where
  "pattern_matches p name =
     (let head = (case split_last (rp_parts p) of Some (Many_part, head) \<Rightarrow> head | _ \<Rightarrow> rp_parts p)
      in if Many_part \<in> set head
         then fst (match_parts (rp_parts p) (split_on (of_char CHR ''/'') name) 0)
         else match_flat (rp_parts p) name)"

fun selector_parse_from ::
    "(nat \<Rightarrow> bool) \<Rightarrow> ustr list \<Rightarrow> ref_pattern list \<Rightarrow> ref_pattern list \<Rightarrow> (core_error, ref_selector) result" where
  "selector_parse_from alnum [] positive negative = Ok \<lparr>rs_positive = positive, rs_negative = negative\<rparr>"
| "selector_parse_from alnum (entry # entrs) positive negative =
     (case strip_prefix (of_char CHR ''!'') entry of
        Some rest \<Rightarrow> andthen (parse_pattern alnum rest entry) (\<lambda>p. selector_parse_from alnum entrs positive (negative @ [p]))
      | None \<Rightarrow> andthen (parse_pattern alnum entry entry) (\<lambda>p. selector_parse_from alnum entrs (positive @ [p]) negative))"

definition selector_parse :: "(nat \<Rightarrow> bool) \<Rightarrow> ustr list \<Rightarrow> (core_error, ref_selector) result" where
  "selector_parse alnum entrs = selector_parse_from alnum entrs [] []"

definition selector_matches :: "ref_selector \<Rightarrow> ustr \<Rightarrow> bool" where
  "selector_matches s name \<longleftrightarrow>
     (rs_positive s = [] \<or> list_ex (\<lambda>p. pattern_matches p name) (rs_positive s)) \<and>
     \<not> list_ex (\<lambda>p. pattern_matches p name) (rs_negative s)"

subsection \<open>What a pattern means\<close>

text \<open>The parts of a pattern, in order, cover all parts of a name.\<close>

inductive covers :: "part list \<Rightarrow> ustr list \<Rightarrow> bool" where
  covers_end: "covers [] []"
| covers_literal: "covers ps ns \<Longrightarrow> covers (Literal_part l # ps) (l # ns)"
| covers_one: "covers ps ns \<Longrightarrow> covers (One_part # ps) (n # ns)"
| covers_many: "ns \<noteq> [] \<Longrightarrow> covers ps ms \<Longrightarrow> covers (Many_part # ps) (ns @ ms)"

inductive_simps covers_Nil [simp]: "covers [] ns"
inductive_simps covers_Literal: "covers (Literal_part l # ps) ns"
inductive_simps covers_One: "covers (One_part # ps) ns"
inductive_simps covers_Many: "covers (Many_part # ps) ns"

lemmas covers_simps = covers_Literal covers_One covers_Many

lemma covers_append: "covers (ps @ qs) ns \<longleftrightarrow> (\<exists>a b. ns = a @ b \<and> covers ps a \<and> covers qs b)"
proof (induction ps arbitrary: ns)
  case (Cons p ps)
  show ?case
  proof (cases p)
    case (Literal_part l)
    then have "covers (p # ps @ qs) ns \<longleftrightarrow> (\<exists>a b. ns = (l # a) @ b \<and> covers ps a \<and> covers qs b)"
      by (auto simp: covers_simps Cons)
    also have "\<dots> \<longleftrightarrow> (\<exists>a b. ns = a @ b \<and> covers (p # ps) a \<and> covers qs b)"
      using Literal_part by (auto simp: covers_simps) (metis append_Cons)+
    finally show ?thesis by simp
  next
    case One_part
    then have "covers (p # ps @ qs) ns \<longleftrightarrow> (\<exists>n a b. ns = (n # a) @ b \<and> covers ps a \<and> covers qs b)"
      by (auto simp: covers_simps Cons)
    also have "\<dots> \<longleftrightarrow> (\<exists>a b. ns = a @ b \<and> covers (p # ps) a \<and> covers qs b)"
      using One_part by (auto simp: covers_simps) (metis append_Cons)+
    finally show ?thesis by simp
  next
    case Many_part
    have "covers (p # ps @ qs) ns \<longleftrightarrow> (\<exists>x a b. ns = x @ a @ b \<and> x \<noteq> [] \<and> covers ps a \<and> covers qs b)"
      using Many_part by (auto simp: covers_simps Cons)
    also have "\<dots> \<longleftrightarrow> (\<exists>a b. ns = a @ b \<and> covers (p # ps) a \<and> covers qs b)"
      using Many_part by (auto simp: covers_simps) (metis append.assoc)+
    finally show ?thesis by simp
  qed
qed simp

lemma covers_length: "covers ps ns \<Longrightarrow> length ps \<le> length ns"
proof (induction rule: covers.induct)
  case (covers_many ns ps ms)
  then show ?case by (cases ns) auto
qed auto

lemma covers_snoc:
  "covers (ps @ [Literal_part l]) (ns @ [n]) \<longleftrightarrow> covers ps ns \<and> n = l"
  "covers (ps @ [One_part]) (ns @ [n]) \<longleftrightarrow> covers ps ns"
  "covers (ps @ [Many_part]) (ns @ [n]) \<longleftrightarrow> covers ps ns \<or> covers (ps @ [Many_part]) ns"
  "covers (ps @ [p]) [] \<longleftrightarrow> False"
proof -
  show "covers (ps @ [Literal_part l]) (ns @ [n]) \<longleftrightarrow> covers ps ns \<and> n = l"
    by (auto simp: covers_append covers_simps)
  show "covers (ps @ [One_part]) (ns @ [n]) \<longleftrightarrow> covers ps ns"
    by (auto simp: covers_append covers_simps)
  have many: "covers (ps @ [Many_part]) ms \<longleftrightarrow> (\<exists>a b. ms = a @ b \<and> covers ps a \<and> b \<noteq> [])" for ms
    by (auto simp: covers_append covers_simps)
  show "covers (ps @ [Many_part]) (ns @ [n]) \<longleftrightarrow> covers ps ns \<or> covers (ps @ [Many_part]) ns"
  proof
    assume "covers (ps @ [Many_part]) (ns @ [n])"
    then obtain a b where ab: "ns @ [n] = a @ b" "covers ps a" "b \<noteq> []" by (auto simp: many)
    then obtain c where "b = c @ [n]" "ns = a @ c" by (cases b rule: rev_cases) auto
    then show "covers ps ns \<or> covers (ps @ [Many_part]) ns" using ab by (cases "c = []") (auto simp: many)
  next
    assume "covers ps ns \<or> covers (ps @ [Many_part]) ns"
    then show "covers (ps @ [Many_part]) (ns @ [n])" unfolding many by (metis append.assoc append_is_Nil_conv not_Cons_self2)
  qed
  show "covers (ps @ [p]) [] \<longleftrightarrow> False"
    using covers_length [of "ps @ [p]" "[]"] by auto
qed

subsection \<open>The table computes the meaning\<close>

fun row_val :: "part \<Rightarrow> ustr list \<Rightarrow> bool list \<Rightarrow> nat \<Rightarrow> bool" where
  "row_val part name prev 0 = False"
| "row_val part name prev (Suc j) =
     (case part of Literal_part l \<Rightarrow> prev ! j \<and> name ! j = l | One_part \<Rightarrow> prev ! j
      | Many_part \<Rightarrow> prev ! j \<or> row_val part name prev j)"

lemma match_row_eq:
  assumes "k < length cur"
  shows "\<exists>row. match_row part name prev k (cur[0 := False], s) = (row, s + k) \<and> length row = length cur \<and>
    (\<forall>j \<le> k. row ! j = row_val part name prev j)"
  using assms
proof (induction k)
  case 0
  then show ?case by (cases cur) (auto simp: match_row_def)
next
  case (Suc k)
  then obtain row where row: "match_row part name prev k (cur[0 := False], s) = (row, s + k)"
      "length row = length cur" "\<forall>j \<le> k. row ! j = row_val part name prev j"
    by auto
  then have "match_row part name prev (Suc k) (cur[0 := False], s) =
      (row[Suc k := match_cell part name prev row (Suc k)], s + Suc k)"
    by (simp add: match_row_def)
  moreover have "match_cell part name prev row (Suc k) = row_val part name prev (Suc k)"
    using row(3) by (simp add: match_cell_def split: part.split)
  ultimately show ?case using row Suc.prems by (auto simp: nth_list_update le_Suc_eq)
qed

lemma row_val_covers:
  assumes "\<forall>j \<le> length name. prev ! j \<longleftrightarrow> covers ps (take j name)" and "j \<le> length name"
  shows "row_val part name prev j \<longleftrightarrow> covers (ps @ [part]) (take j name)"
  using assms(2)
proof (induction j)
  case (Suc j)
  then show ?case using assms(1) by (cases part) (simp_all add: take_Suc_conv_app_nth covers_snoc)
qed (simp add: covers_snoc)

lemma match_rows_eq:
  assumes "length prev = length name + 1" and "length cur = length name + 1"
    and "\<forall>j \<le> length name. prev ! j \<longleftrightarrow> covers ps (take j name)"
  shows "\<exists>row. match_rows parts name prev cur s = (row, s + length parts * length name) \<and>
    (\<forall>j \<le> length name. row ! j \<longleftrightarrow> covers (ps @ parts) (take j name))"
  using assms
proof (induction parts arbitrary: prev cur ps s)
  case (Cons part parts)
  obtain row where row: "match_row part name prev (length name) (cur[0 := False], s) = (row, s + length name)"
      "length row = length cur" "\<forall>j \<le> length name. row ! j = row_val part name prev j"
    using match_row_eq [of "length name" cur part name prev s] Cons.prems(2) by auto
  have "\<forall>j \<le> length name. row ! j \<longleftrightarrow> covers (ps @ [part]) (take j name)"
    using row(3) row_val_covers [OF Cons.prems(3)] by simp
  then show ?case
    using Cons.IH [of row prev "ps @ [part]" "s + length name"] Cons.prems row
    by (simp add: algebra_simps)
qed simp

lemma match_parts_eq:
  "fst (match_parts parts name s) \<longleftrightarrow> covers parts name"
  "snd (match_parts parts name s) \<le> s + length parts * length name"
proof -
  define prev where "prev = (replicate (length name + 1) False)[0 := True]"
  have p: "prev ! j \<longleftrightarrow> covers [] (take j name)" if "j \<le> length name" for j
    using that by (cases j) (auto simp: prev_def)
  obtain row where "match_rows parts name prev (replicate (length name + 1) False) s =
      (row, s + length parts * length name)" "row ! length name \<longleftrightarrow> covers parts name"
    using match_rows_eq [of prev name "replicate (length name + 1) False" "[]" parts s] p by (auto simp: prev_def)
  then show "fst (match_parts parts name s) \<longleftrightarrow> covers parts name"
      "snd (match_parts parts name s) \<le> s + length parts * length name"
    using covers_length [of parts name] by (auto simp: match_parts_def Let_def prev_def split: prod.splits)
qed

lemma match_flat_from_eq:
  "Many_part \<notin> set parts \<Longrightarrow> match_flat_from parts ns = Some rest \<longleftrightarrow> (\<exists>a. ns = a @ rest \<and> covers parts a)"
proof (induction parts ns rule: match_flat_from.induct)
  case (2 part parts)
  then show ?case using covers_length [of "part # parts" "[]"] by auto
next
  case (3 part parts piece name)
  then show ?case by (cases part) (auto simp: covers_simps)
qed simp

lemma match_flat_eq:
  assumes "Many_part \<notin> set (case split_last parts of Some (Many_part, head) \<Rightarrow> head | _ \<Rightarrow> parts)"
  shows "match_flat parts name \<longleftrightarrow> covers parts (split_on (of_char CHR ''/'') name)"
proof (cases "\<exists>head. split_last parts = Some (Many_part, head)")
  case True
  then obtain head where h: "split_last parts = Some (Many_part, head)" by blast
  then have "parts = head @ [Many_part]" by (simp add: split_last_Some)
  moreover have "Many_part \<notin> set head" using assms h by simp
  moreover have "match_flat parts name \<longleftrightarrow> (\<exists>rest. match_flat_from head (split_on (of_char CHR ''/'') name) = Some rest \<and> rest \<noteq> [])"
    unfolding match_flat_def h by (auto split: option.splits)
  ultimately show ?thesis using match_flat_from_eq [of head] by (simp add: covers_append covers_Many) blast
next
  case False
  then have "(case split_last parts of Some (Many_part, head) \<Rightarrow> head | _ \<Rightarrow> parts) = parts"
      and c: "(case split_last parts of Some (Many_part, head) \<Rightarrow> (head, True) | _ \<Rightarrow> (parts, False)) = (parts, False)"
    by (auto split: option.splits part.splits)
  then have "Many_part \<notin> set parts" using assms by (simp only: not_False_eq_True)
  moreover have "match_flat parts name \<longleftrightarrow> match_flat_from parts (split_on (of_char CHR ''/'') name) = Some []"
    unfolding match_flat_def c by (auto split: option.splits)
  ultimately show ?thesis using match_flat_from_eq [of parts _ "[]"] by simp
qed

lemma pattern_matches_eq: "pattern_matches p name \<longleftrightarrow> covers (rp_parts p) (split_on (of_char CHR ''/'') name)"
  unfolding pattern_matches_def Let_def by (simp add: match_parts_eq match_flat_eq)

subsection \<open>Selectors\<close>

lemma selector_parse_from_iff:
  "selector_parse_from alnum es ps ns = Ok sel \<Longrightarrow>
     (\<forall>p. p \<in> set (rs_positive sel) \<longleftrightarrow> p \<in> set ps \<or>
        (\<exists>e \<in> set es. strip_prefix (of_char CHR ''!'') e = None \<and> parse_pattern alnum e e = Ok p)) \<and>
     (\<forall>p. p \<in> set (rs_negative sel) \<longleftrightarrow> p \<in> set ns \<or>
        (\<exists>e \<in> set es. \<exists>r. strip_prefix (of_char CHR ''!'') e = Some r \<and> parse_pattern alnum r e = Ok p)) \<and>
     (\<forall>e \<in> set es. strip_prefix (of_char CHR ''!'') e = None \<longrightarrow> is_ok (parse_pattern alnum e e))"
proof (induction es arbitrary: ps ns)
  case (Cons e es)
  show ?case
  proof (cases "strip_prefix (of_char CHR ''!'') e :: ustr option")
    case None
    then obtain p where "parse_pattern alnum e e = Ok p" "selector_parse_from alnum es (ps @ [p]) ns = Ok sel"
      using Cons.prems by (auto simp: result_simps)
    then show ?thesis using Cons.IH [of "ps @ [p]" ns] None by auto
  next
    case (Some r)
    then obtain p where "parse_pattern alnum r e = Ok p" "selector_parse_from alnum es ps (ns @ [p]) = Ok sel"
      using Cons.prems by (auto simp: result_simps)
    then show ?thesis using Cons.IH [of ps "ns @ [p]"] Some by auto
  qed
qed auto

text \<open>A ref name is a pattern that matches itself only.\<close>

lemma parse_part_literal:
  "is_ref_name_component alnum p \<Longrightarrow> parse_part alnum entry p = Ok (Literal_part p)"
  using component_excludes(5) [of alnum p] by (auto simp: parse_part_def is_ref_name_component_def lit_def)

lemma covers_literals: "covers (map Literal_part ps) ns \<longleftrightarrow> ns = ps"
  by (induction ps arbitrary: ns) (auto simp: covers_simps)

lemma split_on_inj: "split_on c xs = split_on c ys \<Longrightarrow> xs = ys"
  by (metis join_split_on)

lemma ref_name_pattern:
  assumes "is_ref_name alnum s"
  shows "\<exists>p. ref_pattern_parse alnum s = Ok p \<and> (\<forall>name. pattern_matches p name \<longleftrightarrow> name = s)"
proof -
  let ?parts = "split_on (of_char CHR ''/'') s"
  have comp: "\<forall>p \<in> set ?parts. is_ref_name_component alnum p" and ne: "s \<noteq> []"
    using assms by (auto simp: is_ref_name_def list_all_iff)
  have "try_map (parse_part alnum s) ?parts = Ok (map Literal_part ?parts)"
    using comp by (auto simp: try_map_Ok list_all2_conv_all_nth parse_part_literal)
  moreover have "of_char CHR ''!'' \<notin> set s"
    using set_split_on [of "of_char CHR ''!''" s "of_char CHR ''/''"] comp component_excludes(4) by auto
  ultimately have "ref_pattern_parse alnum s = Ok \<lparr>rp_text = s, rp_parts = map Literal_part ?parts\<rparr>"
    using ne by (simp add: ref_pattern_parse_def parse_pattern_def)
  then show ?thesis by (auto simp: pattern_matches_eq covers_literals dest: split_on_inj)
qed

text \<open>C19: a pattern matches a name exactly when its parts, in order, cover all parts of the name; the table
  and the direct path agree with this reading on every pattern.\<close>

theorem pattern_matches_covers:
  "pattern_matches p name \<longleftrightarrow> covers (rp_parts p) (split_on (of_char CHR ''/'') name)"
  by (rule pattern_matches_eq)

text \<open>The matcher computes at most one cell per pair of a pattern part and a name part.\<close>

lemma match_cost_bound: "snd (match_parts parts name s) \<le> s + length parts * length name"
  by (rule match_parts_eq)

text \<open>C20: a selector selects a name exactly when a positive entry matches it or there is no positive entry,
  and no negative entry matches it; the order of the entries has no effect.\<close>

theorem selector_selects:
  assumes "selector_parse alnum es = Ok sel"
  shows "selector_matches sel name \<longleftrightarrow>
    ((\<forall>e \<in> set es. \<exists>r. e = of_char CHR ''!'' # r) \<or>
     (\<exists>e \<in> set es. \<exists>p. parse_pattern alnum e e = Ok p \<and> covers (rp_parts p) (split_on (of_char CHR ''/'') name))) \<and>
    \<not> (\<exists>r p. of_char CHR ''!'' # r \<in> set es \<and> parse_pattern alnum r (of_char CHR ''!'' # r) = Ok p \<and>
        covers (rp_parts p) (split_on (of_char CHR ''/'') name))"
proof -
  have no_bang: "parse_pattern alnum (of_char CHR ''!'' # r) e \<noteq> Ok p" for r e p by (simp add: parse_pattern_def)
  note sel = selector_parse_from_iff [OF assms [unfolded selector_parse_def], unfolded strip_prefix_cases]
  have pos: "p \<in> set (rs_positive sel) \<longleftrightarrow> (\<exists>e \<in> set es. parse_pattern alnum e e = Ok p)" for p
    using sel no_bang by (metis (no_types, lifting) empty_iff list.set(1))
  have neg: "p \<in> set (rs_negative sel) \<longleftrightarrow>
      (\<exists>r. of_char CHR ''!'' # r \<in> set es \<and> parse_pattern alnum r (of_char CHR ''!'' # r) = Ok p)" for p
    using sel by auto
  have "rs_positive sel = [] \<longleftrightarrow> (\<forall>e \<in> set es. \<not> is_ok (parse_pattern alnum e e))"
    using pos by (metis is_ok_iff list.set_intros(1) neq_Nil_conv empty_iff list.set(1))
  also have "\<dots> \<longleftrightarrow> (\<forall>e \<in> set es. \<exists>r. e = of_char CHR ''!'' # r)"
    using sel no_bang is_ok_iff by metis
  finally show ?thesis
    unfolding selector_matches_def list_ex_iff pattern_matches_eq using pos neg by blast
qed

theorem selector_selects_witness:
  "selector_parse (\<lambda>_. False) [lit ''a/**'', lit ''!a/b''] =
     Ok \<lparr>rs_positive = [\<lparr>rp_text = lit ''a/**'', rp_parts = [Literal_part (lit ''a''), Many_part]\<rparr>],
        rs_negative = [\<lparr>rp_text = lit ''a/b'', rp_parts = [Literal_part (lit ''a''), Literal_part (lit ''b'')]\<rparr>]\<rparr> \<and>
   (\<exists>p. parse_pattern (\<lambda>_. False) (lit ''a/**'') (lit ''a/**'') = Ok p \<and>
      covers (rp_parts p) (split_on (of_char CHR ''/'') (lit ''a/c/d'')))"
proof -
  let ?sel = "\<lparr>rs_positive = [\<lparr>rp_text = lit ''a/**'', rp_parts = [Literal_part (lit ''a''), Many_part]\<rparr>],
        rs_negative = [\<lparr>rp_text = lit ''a/b'', rp_parts = [Literal_part (lit ''a''), Literal_part (lit ''b'')]\<rparr>]\<rparr>"
  have parse: "selector_parse (\<lambda>_. False) [lit ''a/**'', lit ''!a/b''] = Ok ?sel" by code_simp
  have "selector_matches ?sel (lit ''a/c/d'')" by code_simp
  moreover have "\<not> is_ok (parse_pattern (\<lambda>_. False) (lit ''!a/b'') (lit ''!a/b''))" by code_simp
  ultimately show ?thesis
    using selector_selects [OF parse, of "lit ''a/c/d''"] parse by (auto simp: is_ok_iff lit_def)
qed
end
