(* ===== verification/Delta_Rollsum.thy ===== *)
theory Delta_Rollsum imports Prelude
begin
section \<open>Content-defined chunks and the copy plan of a delta\<close>

text \<open>
  \<^verbatim>\<open>crates/ostrya/src/rollsum.rs\<close>: a rolling sum cuts source and target into chunks; each target chunk
  that occurs in the source becomes a copy run and each other chunk a payload run. Offsets and lengths
  are positions in byte slices, so they are natural numbers; the sums and the digest keep their widths.
\<close>

definition WINDOW :: nat where "WINDOW = 64"
definition MASK_BITS :: nat where "MASK_BITS = 13"
definition MASK :: u32 where "MASK = push_bit MASK_BITS 1 - 1"
definition MIN_CHUNK :: nat where "MIN_CHUNK = 2 * 1024"
definition MAX_CHUNK :: nat where "MAX_CHUNK = 64 * 1024"

datatype run = Copy_run (run_offset: nat) (run_length: nat) | Payload_run (run_offset: nat) (run_length: nat)

record plan =
  pl_runs :: "run list"
  pl_copied :: nat

record rollsum =
  ro_a :: u32
  ro_b :: u32
  ro_window :: bytes

definition rollsum_default :: rollsum where
  "rollsum_default = \<lparr>ro_a = 0, ro_b = 0, ro_window = replicate WINDOW 0\<rparr>"

definition rollsum_push :: "rollsum \<Rightarrow> u8 \<Rightarrow> nat \<Rightarrow> rollsum" where
  "rollsum_push r byte pos =
     (let slot = pos mod WINDOW; dropped = ro_window r ! slot;
          a = ro_a r + ucast byte - ucast dropped;
          b = ro_b r + a - of_nat WINDOW * ucast dropped
      in \<lparr>ro_a = a, ro_b = b, ro_window = (ro_window r)[slot := byte]\<rparr>)"

definition at_boundary :: "rollsum \<Rightarrow> bool" where
  "at_boundary r \<longleftrightarrow> ro_b r AND MASK = MASK"

fun chunk_scan :: "rollsum \<Rightarrow> nat \<Rightarrow> bytes \<Rightarrow> nat option" where
  "chunk_scan roll i [] = None"
| "chunk_scan roll i (byte # rest) =
     (let roll' = rollsum_push roll byte i in
      if i + 1 \<ge> MIN_CHUNK \<and> at_boundary roll' then Some (i + 1) else chunk_scan roll' (i + 1) rest)"

definition chunk_len :: "bytes \<Rightarrow> nat" where
  "chunk_len data =
     (let limit = min (length data) MAX_CHUNK in
      case chunk_scan rollsum_default 0 (take limit data) of Some n \<Rightarrow> n | None \<Rightarrow> limit)"

lemma chunk_scan_bounds:
  "chunk_scan roll i bs = Some n \<Longrightarrow> i < n \<and> n \<le> i + length bs \<and> MIN_CHUNK \<le> n"
proof (induction roll i bs rule: chunk_scan.induct)
  case (2 roll i byte rest)
  then show ?case by (fastforce simp: Let_def split: if_splits)
qed simp

lemma chunk_len_bounds:
  assumes "data \<noteq> []"
  shows "0 < chunk_len data" "chunk_len data \<le> length data" "chunk_len data \<le> MAX_CHUNK"
    "chunk_len data < length data \<Longrightarrow> MIN_CHUNK \<le> chunk_len data"
proof -
  define limit where "limit = min (length data) MAX_CHUNK"
  have lim: "0 < limit" "limit \<le> length data" "limit \<le> MAX_CHUNK" "limit < length data \<Longrightarrow> limit = MAX_CHUNK"
    using assms by (auto simp: limit_def MAX_CHUNK_def)
  have mm: "MIN_CHUNK \<le> MAX_CHUNK" by (simp add: MIN_CHUNK_def MAX_CHUNK_def)
  have "0 < chunk_len data \<and> chunk_len data \<le> limit \<and> (chunk_len data < length data \<longrightarrow> MIN_CHUNK \<le> chunk_len data)"
  proof (cases "chunk_scan rollsum_default 0 (take limit data)")
    case None
    then show ?thesis using lim mm by (auto simp: chunk_len_def Let_def simp flip: limit_def)
  next
    case (Some n)
    then show ?thesis using chunk_scan_bounds [OF Some] lim by (simp add: chunk_len_def Let_def flip: limit_def)
  qed
  then show "0 < chunk_len data" "chunk_len data \<le> length data" "chunk_len data \<le> MAX_CHUNK"
    "chunk_len data < length data \<Longrightarrow> MIN_CHUNK \<le> chunk_len data"
    using lim by auto
qed

function chunks_from :: "bytes \<Rightarrow> nat \<Rightarrow> (nat \<times> nat) list" where
  "chunks_from data start =
     (if start \<ge> length data then []
      else let len = chunk_len (drop start data) in (start, len) # chunks_from data (start + len))"
  by auto
termination chunks_from
proof (relation "measure (\<lambda>(data, start). length data - start)", simp)
  fix data :: bytes and start len
  assume "\<not> length data \<le> start" and "len = chunk_len (drop start data)"
  then show "((data, start + len), (data, start)) \<in> measure (\<lambda>(data, start). length data - start)"
    using chunk_len_bounds(1) [of "drop start data"] by simp
qed

declare chunks_from.simps [simp del]

definition chunks :: "bytes \<Rightarrow> (nat \<times> nat) list" where
  "chunks data = chunks_from data 0"

definition digest_of :: "bytes \<Rightarrow> u64" where
  "digest_of chunk = fold (\<lambda>byte hash. (hash XOR ucast byte) * 0x100000001b3) chunk 0xcbf29ce484222325"

definition index_source :: "bytes \<Rightarrow> (u64 \<rightharpoonup> nat list)" where
  "index_source source =
     fold (\<lambda>(offset, len) index.
         let d = digest_of (slice source offset (offset + len)) in
         index(d \<mapsto> (case index d of None \<Rightarrow> [] | Some l \<Rightarrow> l) @ [offset]))
       (chunks source) Map.empty"

text \<open>\<open>source[off..].starts_with(chunk)\<close>.\<close>

definition occurs_at :: "bytes \<Rightarrow> bytes \<Rightarrow> nat \<Rightarrow> bool" where
  "occurs_at source chunk off \<longleftrightarrow> take (length chunk) (drop off source) = chunk"

definition push_copy :: "nat \<Rightarrow> nat \<Rightarrow> plan \<Rightarrow> plan" where
  "push_copy source_offset len p =
     (let p' = p\<lparr>pl_copied := pl_copied p + len\<rparr> in
      case split_last (pl_runs p) of
        Some (Copy_run prev_off prev_len, runs) \<Rightarrow>
          if prev_off + prev_len = source_offset then p'\<lparr>pl_runs := runs @ [Copy_run prev_off (prev_len + len)]\<rparr>
          else p'\<lparr>pl_runs := pl_runs p @ [Copy_run source_offset len]\<rparr>
      | _ \<Rightarrow> p'\<lparr>pl_runs := pl_runs p @ [Copy_run source_offset len]\<rparr>)"

definition push_payload :: "nat \<Rightarrow> nat \<Rightarrow> plan \<Rightarrow> plan" where
  "push_payload target_offset len p =
     (case split_last (pl_runs p) of
        Some (Payload_run prev_off prev_len, runs) \<Rightarrow>
          if prev_off + prev_len = target_offset then p\<lparr>pl_runs := runs @ [Payload_run prev_off (prev_len + len)]\<rparr>
          else p\<lparr>pl_runs := pl_runs p @ [Payload_run target_offset len]\<rparr>
      | _ \<Rightarrow> p\<lparr>pl_runs := pl_runs p @ [Payload_run target_offset len]\<rparr>)"

definition contiguous_offset :: "plan \<Rightarrow> nat option" where
  "contiguous_offset p =
     (case split_last (pl_runs p) of Some (Copy_run source_offset len, _) \<Rightarrow> Some (source_offset + len) | _ \<Rightarrow> None)"

definition find_chunk :: "bytes \<Rightarrow> (u64 \<rightharpoonup> nat list) \<Rightarrow> bytes \<Rightarrow> nat option \<Rightarrow> nat option" where
  "find_chunk source index chunk contiguous =
     (case contiguous of
        Some off \<Rightarrow> if occurs_at source chunk off then Some off
          else List.find (occurs_at source chunk) (case index (digest_of chunk) of None \<Rightarrow> [] | Some l \<Rightarrow> l)
      | None \<Rightarrow> List.find (occurs_at source chunk) (case index (digest_of chunk) of None \<Rightarrow> [] | Some l \<Rightarrow> l))"

definition plan_step :: "bytes \<Rightarrow> bytes \<Rightarrow> (u64 \<rightharpoonup> nat list) \<Rightarrow> nat \<times> nat \<Rightarrow> plan \<Rightarrow> plan" where
  "plan_step source target index ck p =
     (let (offset, len) = ck; chunk = slice target offset (offset + len) in
      case find_chunk source index chunk (contiguous_offset p) of
        Some src_off \<Rightarrow> push_copy src_off len p
      | None \<Rightarrow> push_payload offset len p)"

definition plan_of :: "bytes \<Rightarrow> bytes \<Rightarrow> plan" where
  "plan_of source target =
     fold (plan_step source target (index_source source)) (chunks target) \<lparr>pl_runs = [], pl_copied = 0\<rparr>"

subsection \<open>The rolling sum depends on the last window only\<close>

text \<open>The reference: the newest byte has weight 1, and each older byte of the window one more.\<close>

fun weighted :: "bytes \<Rightarrow> u32" where
  "weighted [] = 0"
| "weighted (x # xs) = weighted xs + sum_list (map ucast (x # xs))"

definition recent :: "bytes \<Rightarrow> bytes" where
  "recent bs = take WINDOW (rev bs)"

definition rollsum_run :: "bytes \<Rightarrow> rollsum" where
  "rollsum_run bs = fold (\<lambda>i r. rollsum_push r (bs ! i) i) [0..<length bs] rollsum_default"

lemma weighted_snoc:
  "weighted (xs @ [y]) = weighted xs + of_nat (length xs + 1) * ucast y"
  by (induction xs) (simp_all add: algebra_simps)

lemma rollsum_run_snoc: "rollsum_run (bs @ [b]) = rollsum_push (rollsum_run bs) b (length bs)"
proof -
  have "fold (\<lambda>i r. rollsum_push r ((bs @ [b]) ! i) i) [0..<length bs] s = fold (\<lambda>i r. rollsum_push r (bs ! i) i) [0..<length bs] s" for s
    by (rule fold_cong) (auto simp: nth_append)
  then show ?thesis by (simp add: rollsum_run_def)
qed

lemma rollsum_window:
  "length (ro_window (rollsum_run bs)) = WINDOW"
  "i < WINDOW \<Longrightarrow> ro_window (rollsum_run bs) ! ((length bs + i) mod WINDOW) =
     (if WINDOW - i \<le> length bs then bs ! (length bs + i - WINDOW) else 0)"
proof -
  have "length (ro_window (rollsum_run bs)) = WINDOW \<and> (\<forall>i < WINDOW. ro_window (rollsum_run bs) ! ((length bs + i) mod WINDOW) =
     (if WINDOW - i \<le> length bs then bs ! (length bs + i - WINDOW) else 0))"
  proof (induction bs rule: rev_induct)
    case Nil
    then show ?case by (simp add: rollsum_run_def rollsum_default_def WINDOW_def)
  next
    case (snoc b bs)
    have len: "length (ro_window (rollsum_run (bs @ [b]))) = WINDOW"
      using snoc by (simp add: rollsum_run_snoc rollsum_push_def Let_def)
    have "ro_window (rollsum_run (bs @ [b])) ! ((length (bs @ [b]) + i) mod WINDOW) =
        (if WINDOW - i \<le> length (bs @ [b]) then (bs @ [b]) ! (length (bs @ [b]) + i - WINDOW) else 0)" if i: "i < WINDOW" for i
    proof (cases "i + 1 = WINDOW")
      case True
      then have "(length (bs @ [b]) + i) mod WINDOW = (length bs + WINDOW) mod WINDOW"
        by (metis add.assoc add.commute length_append_singleton plus_1_eq_Suc)
      then have "(length (bs @ [b]) + i) mod WINDOW = length bs mod WINDOW" by simp
      then show ?thesis using True snoc
        by (auto simp: rollsum_run_snoc rollsum_push_def Let_def WINDOW_def nth_append)
    next
      case False
      then have i1: "i + 1 < WINDOW" using i by simp
      have "length bs mod WINDOW \<noteq> (length bs + (i + 1)) mod WINDOW"
      proof
        assume "length bs mod WINDOW = (length bs + (i + 1)) mod WINDOW"
        then have "WINDOW dvd (length bs + (i + 1)) - length bs" by (metis mod_eq_dvd_iff_nat le_add1)
        then show False using i1 by (auto dest: dvd_imp_le)
      qed
      then have "ro_window (rollsum_run (bs @ [b])) ! ((length (bs @ [b]) + i) mod WINDOW) =
          ro_window (rollsum_run bs) ! ((length bs + (i + 1)) mod WINDOW)"
        by (simp add: rollsum_run_snoc rollsum_push_def Let_def)
      also have "\<dots> = (if WINDOW - (i + 1) \<le> length bs then bs ! (length bs + (i + 1) - WINDOW) else 0)"
        using snoc i1 by blast
      finally show ?thesis using i1 by (auto simp: nth_append)
    qed
    then show ?case using len by blast
  qed
  then show "length (ro_window (rollsum_run bs)) = WINDOW"
    "i < WINDOW \<Longrightarrow> ro_window (rollsum_run bs) ! ((length bs + i) mod WINDOW) =
       (if WINDOW - i \<le> length bs then bs ! (length bs + i - WINDOW) else 0)" by blast+
qed

lemma rollsum_run_eq:
  "ro_a (rollsum_run bs) = sum_list (map ucast (recent bs)) \<and> ro_b (rollsum_run bs) = weighted (recent bs)"
proof (induction bs rule: rev_induct)
  case Nil
  then show ?case by (simp add: rollsum_run_def rollsum_default_def recent_def)
next
  case (snoc b bs)
  define d where "d = ro_window (rollsum_run bs) ! (length bs mod WINDOW)"
  define short where "short = take (WINDOW - 1) (rev bs)"
  have new: "recent (bs @ [b]) = b # short" by (simp add: recent_def short_def WINDOW_def)
  have d: "d = (if WINDOW \<le> length bs then bs ! (length bs - WINDOW) else 0)"
    using rollsum_window(2) [of 0 bs] by (simp add: d_def WINDOW_def)
  have full: "recent bs = short @ [d] \<and> length short + 1 = WINDOW" if "WINDOW \<le> length bs"
  proof -
    have "recent bs = take (Suc (WINDOW - 1)) (rev bs)" by (simp add: recent_def WINDOW_def)
    also have "\<dots> = short @ [rev bs ! (WINDOW - 1)]"
      unfolding short_def using that by (intro take_Suc_conv_app_nth) (simp add: WINDOW_def)
    also have "rev bs ! (WINDOW - 1) = d" using that d by (simp add: rev_nth WINDOW_def)
    finally show ?thesis using that by (simp add: short_def WINDOW_def)
  qed
  have part: "recent bs = short \<and> d = 0" if "\<not> WINDOW \<le> length bs"
    using that d by (simp add: recent_def short_def)
  have old: "sum_list (map ucast (recent bs)) = sum_list (map ucast short) + (ucast d :: u32)"
      "weighted (recent bs) = weighted short + of_nat WINDOW * ucast d"
    using full part weighted_snoc [of short d] by (cases "WINDOW \<le> length bs"; simp)+
  show ?case using snoc old by (simp add: new rollsum_run_snoc rollsum_push_def Let_def flip: d_def)
qed


subsection \<open>Chunks cover the data\<close>

lemma chunks_from_cover:
  "list_all (\<lambda>(o', l). o' + l \<le> length data \<and> 0 < l \<and> l \<le> MAX_CHUNK \<and> (o' + l < length data \<longrightarrow> MIN_CHUNK \<le> l)) (chunks_from data start) \<and>
   concat (map (\<lambda>(o', l). slice data o' (o' + l)) (chunks_from data start)) = drop start data"
proof (induction data start rule: chunks_from.induct)
  case (1 data start)
  show ?case
  proof (cases "start \<ge> length data")
    case False
    define len where "len = chunk_len (drop start data)"
    have b: "0 < len" "start + len \<le> length data" "len \<le> MAX_CHUNK" "start + len < length data \<Longrightarrow> MIN_CHUNK \<le> len"
      using chunk_len_bounds [of "drop start data"] False by (auto simp: len_def)
    have step: "chunks_from data start = (start, len) # chunks_from data (start + len)"
      using False by (subst chunks_from.simps) (simp add: len_def Let_def)
    have "drop start data = slice data start (start + len) @ drop (start + len) data"
      using b by (simp add: slice_def add.commute flip: drop_drop)
    then show ?thesis using 1 [OF False len_def] b by (simp add: step)
  qed (simp add: chunks_from.simps)
qed

subsection \<open>The plan rebuilds the target\<close>

text \<open>What a run contributes, and that it stays inside its source.\<close>

fun run_bytes :: "bytes \<Rightarrow> bytes \<Rightarrow> run \<Rightarrow> bytes" where
  "run_bytes source target (Copy_run off len) = slice source off (off + len)"
| "run_bytes source target (Payload_run off len) = slice target off (off + len)"

fun run_within :: "bytes \<Rightarrow> bytes \<Rightarrow> run \<Rightarrow> bool" where
  "run_within source target (Copy_run off len) \<longleftrightarrow> off + len \<le> length source"
| "run_within source target (Payload_run off len) \<longleftrightarrow> off + len \<le> length target"

fun copy_length :: "run \<Rightarrow> nat" where
  "copy_length (Copy_run off len) = len"
| "copy_length (Payload_run off len) = 0"

definition plan_builds :: "bytes \<Rightarrow> bytes \<Rightarrow> plan \<Rightarrow> bytes \<Rightarrow> bool" where
  "plan_builds source target p out \<longleftrightarrow>
     concat (map (run_bytes source target) (pl_runs p)) = out \<and> list_all (run_within source target) (pl_runs p) \<and>
     pl_copied p = sum_list (map copy_length (pl_runs p))"

lemma slice_adjacent: "a \<le> b \<Longrightarrow> b \<le> c \<Longrightarrow> slice xs a b @ slice xs b c = slice xs a c"
proof -
  assume "a \<le> b" "b \<le> c"
  then obtain m n where "b = a + m" "c = a + m + n" by (metis le_Suc_ex)
  then show ?thesis by (simp add: slice_def take_add add.commute)
qed

lemma push_copy_builds:
  assumes "plan_builds source target p out" and "off + len \<le> length source"
  shows "plan_builds source target (push_copy off len p) (out @ slice source off (off + len))"
proof (cases "\<exists>o' l rs. pl_runs p = rs @ [Copy_run o' l] \<and> o' + l = off")
  case True
  then obtain o' l rs where p: "pl_runs p = rs @ [Copy_run o' l]" "o' + l = off" by blast
  then have "push_copy off len p = p\<lparr>pl_copied := pl_copied p + len, pl_runs := rs @ [Copy_run o' (l + len)]\<rparr>"
    by (simp add: push_copy_def split_last_def)
  then show ?thesis using assms p(1) slice_adjacent [of o' "o' + l" "o' + l + len" source]
    unfolding p(2) [symmetric] by (auto simp: plan_builds_def add.assoc)
next
  case False
  then have "push_copy off len p = p\<lparr>pl_copied := pl_copied p + len, pl_runs := pl_runs p @ [Copy_run off len]\<rparr>"
    by (auto simp: push_copy_def Let_def split_last_Some split: option.splits run.splits)
  then show ?thesis using assms by (simp add: plan_builds_def)
qed

lemma push_payload_builds:
  assumes "plan_builds source target p out" and "off + len \<le> length target"
  shows "plan_builds source target (push_payload off len p) (out @ slice target off (off + len))"
proof (cases "\<exists>o' l rs. pl_runs p = rs @ [Payload_run o' l] \<and> o' + l = off")
  case True
  then obtain o' l rs where p: "pl_runs p = rs @ [Payload_run o' l]" "o' + l = off" by blast
  then have "push_payload off len p = p\<lparr>pl_runs := rs @ [Payload_run o' (l + len)]\<rparr>"
    by (simp add: push_payload_def split_last_def)
  then show ?thesis using assms p(1) slice_adjacent [of o' "o' + l" "o' + l + len" target]
    unfolding p(2) [symmetric] by (auto simp: plan_builds_def add.assoc)
next
  case False
  then have "push_payload off len p = p\<lparr>pl_runs := pl_runs p @ [Payload_run off len]\<rparr>"
    by (auto simp: push_payload_def split_last_Some split: option.splits run.splits)
  then show ?thesis using assms by (simp add: plan_builds_def)
qed

lemma find_chunk_occurs: "find_chunk source index chunk c = Some off \<Longrightarrow> occurs_at source chunk off"
  by (auto simp: find_chunk_def find_Some_iff split: option.splits if_splits)

lemma occurs_at_slice:
  assumes "occurs_at source chunk off" and "chunk \<noteq> []"
  shows "off + length chunk \<le> length source" "slice source off (off + length chunk) = chunk"
proof -
  have "length (take (length chunk) (drop off source)) = length chunk" using assms(1) by (simp add: occurs_at_def)
  then have "length chunk \<le> length source - off" "0 < length chunk" using assms(2) by (auto simp: min_def split: if_splits)
  then show "off + length chunk \<le> length source" by linarith
  show "slice source off (off + length chunk) = chunk" using assms(1) by (simp add: occurs_at_def slice_def)
qed

lemma plan_step_builds:
  assumes "plan_builds source target p out" and "0 < len" and "off + len \<le> length target"
  shows "plan_builds source target (plan_step source target index (off, len) p) (out @ slice target off (off + len))"
proof (cases "find_chunk source index (slice target off (off + len)) (contiguous_offset p)")
  case None
  then show ?thesis using push_payload_builds assms by (simp add: plan_step_def)
next
  case (Some s)
  have "slice target off (off + len) \<noteq> []" "length (slice target off (off + len)) = len" using assms by (auto simp: slice_def)
  then show ?thesis
    using Some push_copy_builds [OF assms(1), of s len] occurs_at_slice [OF find_chunk_occurs [OF Some]]
    by (simp add: plan_step_def)
qed

lemma plan_of_builds: "plan_builds source target (plan_of source target) target"
proof -
  have "plan_builds source target (fold (plan_step source target index) cks p) (out @ concat (map (\<lambda>(o', l). slice target o' (o' + l)) cks))"
    if "list_all (\<lambda>(o', l). o' + l \<le> length target \<and> 0 < l) cks" "plan_builds source target p out" for cks p out index
    using that
  proof (induction cks arbitrary: p out)
    case (Cons ck cks)
    then show ?case using plan_step_builds [of source target p out "snd ck" "fst ck" index]
        Cons.IH [of "plan_step source target index ck p" "out @ slice target (fst ck) (fst ck + snd ck)"]
      by (auto simp: split_def)
  qed simp
  from this [of "chunks target" "\<lparr>pl_runs = [], pl_copied = 0\<rparr>" "[]"]
  show ?thesis using chunks_from_cover [of target 0]
    by (simp add: plan_of_def chunks_def plan_builds_def list_all_iff split_def)
qed

text \<open>C38: after any bytes, both sums of the rolling hash are functions of the last \<open>WINDOW\<close> bytes alone: the sum of
  the window, and the sum weighted by age. So a boundary depends on the content of one window.\<close>

theorem rollsum_is_window_sum:
  "ro_a (rollsum_run bs) = sum_list (map ucast (recent bs)) \<and> ro_b (rollsum_run bs) = weighted (recent bs)"
  by (rule rollsum_run_eq)

text \<open>C11: the runs of a plan, in order, rebuild the target from the source and the payload, each run lies inside
  its source, and \<open>copied\<close> counts the bytes of the copy runs.\<close>

theorem plan_rebuilds_target:
  "concat (map (run_bytes source target) (pl_runs (plan_of source target))) = target \<and>
   list_all (run_within source target) (pl_runs (plan_of source target)) \<and>
   pl_copied (plan_of source target) = sum_list (map copy_length (pl_runs (plan_of source target)))"
  using plan_of_builds [of source target] unfolding plan_builds_def .

text \<open>The chunks of data follow each other without a gap, none is empty or longer than \<open>MAX_CHUNK\<close>, and
  only the last can be shorter than \<open>MIN_CHUNK\<close>.\<close>

theorem chunks_partition:
  "concat (map (\<lambda>(o', l). slice data o' (o' + l)) (chunks data)) = data \<and>
   list_all (\<lambda>(o', l). 0 < l \<and> l \<le> MAX_CHUNK \<and> (MIN_CHUNK \<le> l \<or> o' + l = length data)) (chunks data)"
  using chunks_from_cover [of data 0] by (auto simp: chunks_def list_all_iff)

end
