(* ===== verification/Core_Keyfile.thy ===== *)
theory Core_Keyfile
  imports Core_Base "HOL-Library.AList"
begin

section \<open>Key files\<close>

text \<open>
  \<^verbatim>\<open>crates/ostrya-core/src/keyfile.rs\<close>: the parser, the writer and the accessors of the repository
  \<open>config\<close> format. A key file keeps its groups in order, with a hash index from group names to positions;
  the parser keeps a second hash map from the keys of a group to their positions. Text is a list of
  Unicode scalar values.
\<close>

record kf_group =
  kg_name :: ustr
  kg_entries :: "(ustr \<times> ustr) list"

record keyfile =
  kf_groups :: "kf_group list"
  kf_index :: "ustr \<rightharpoonup> nat"

definition keyfile_default :: keyfile where
  "keyfile_default = \<lparr>kf_groups = [], kf_index = Map.empty\<rparr>"

abbreviation LF :: nat where "LF \<equiv> 10"
abbreviation CR :: nat where "CR \<equiv> 13"
abbreviation TAB :: nat where "TAB \<equiv> 9"
abbreviation SPACE :: nat where "SPACE \<equiv> 32"
abbreviation BACKSLASH :: nat where "BACKSLASH \<equiv> 92"

definition ASCII_WS :: "nat \<Rightarrow> bool" where
  "ASCII_WS c \<longleftrightarrow> c = SPACE \<or> c = TAB"

text \<open>Decimal text of a number, and text in single quotes, for the messages.\<close>

fun display_nat :: "nat \<Rightarrow> ustr" where
  "display_nat n = (if n < 10 then [48 + n] else display_nat (n div 10) @ [48 + n mod 10])"

declare display_nat.simps [simp del]

definition quoted :: "ustr \<Rightarrow> ustr" where
  "quoted s = 39 # s @ [39]"

definition line_error :: "nat \<Rightarrow> ustr \<Rightarrow> core_error" where
  "line_error lineno msg = KeyFileError (lit ''line '' @ display_nat lineno @ lit '': '' @ msg)"

definition group_index_or_insert :: "keyfile \<Rightarrow> ustr \<Rightarrow> keyfile \<times> nat" where
  "group_index_or_insert kf name =
     (case kf_index kf name of
        Some i \<Rightarrow> (kf, i)
      | None \<Rightarrow>
          let groups = kf_groups kf @ [\<lparr>kg_name = name, kg_entries = []\<rparr>]
          in (kf\<lparr>kf_groups := groups, kf_index := (kf_index kf)(name \<mapsto> length groups - 1)\<rparr>, length groups - 1))"

text \<open>The state of the parse loop: the key file so far, the position of the current group, and the positions
  of the keys by group position and key.\<close>

record kf_state =
  ks_keyfile :: keyfile
  ks_current :: "nat option"
  ks_keys :: "nat \<times> ustr \<rightharpoonup> nat"

definition parse_header :: "nat \<Rightarrow> ustr \<Rightarrow> kf_state \<Rightarrow> (core_error, kf_state) result" where
  "parse_header lineno rest st =
     (case position (\<lambda>c. c = of_char CHR '']'') rest of
        None \<Rightarrow> Err (line_error lineno (lit ''group header is not closed with '' @ quoted (lit '']'')))
      | Some close \<Rightarrow>
          if trim_matches ASCII_WS (drop (close + 1) rest) \<noteq> [] then
            Err (line_error lineno (lit ''group header has trailing text after '' @ quoted (lit '']'')))
          else let name = take close rest in
            if name = [] then Err (line_error lineno (lit ''empty group name''))
            else if of_char CHR ''['' \<in> set name \<or> of_char CHR '']'' \<in> set name then
              Err (line_error lineno (lit ''group name '' @ quoted name @ lit '' contains '' @ quoted (lit ''['') @
                lit '' or '' @ quoted (lit '']'')))
            else let (kf, i) = group_index_or_insert (ks_keyfile st) name
              in Ok (st\<lparr>ks_keyfile := kf, ks_current := Some i\<rparr>))"

definition put_at :: "nat \<Rightarrow> ustr \<Rightarrow> ustr \<Rightarrow> kf_state \<Rightarrow> kf_state" where
  "put_at idx key v st =
     (let kf = ks_keyfile st; g = kf_groups kf ! idx; entrs = kg_entries g in
      case ks_keys st (idx, key) of
        Some at \<Rightarrow> st\<lparr>ks_keyfile := kf\<lparr>kf_groups :=
            (kf_groups kf)[idx := g\<lparr>kg_entries := entrs[at := (fst (entrs ! at), v)]\<rparr>]\<rparr>\<rparr>
      | None \<Rightarrow> st\<lparr>ks_keys := (ks_keys st)((idx, key) \<mapsto> length entrs),
          ks_keyfile := kf\<lparr>kf_groups := (kf_groups kf)[idx := g\<lparr>kg_entries := entrs @ [(key, v)]\<rparr>]\<rparr>\<rparr>)"

definition parse_entry :: "nat \<Rightarrow> ustr \<Rightarrow> kf_state \<Rightarrow> (core_error, kf_state) result" where
  "parse_entry lineno line st =
     (case position (\<lambda>c. c = of_char CHR ''='') line of
        None \<Rightarrow> Err (line_error lineno (lit ''expected a key=value pair''))
      | Some eq \<Rightarrow>
          let key = trim_matches ASCII_WS (take eq line);
              v = trim_start_matches ASCII_WS (drop (eq + 1) line) in
          if key = [] then Err (line_error lineno (lit ''empty key''))
          else case ks_current st of
            None \<Rightarrow> Err (line_error lineno (lit ''key '' @ quoted key @ lit '' precedes any group''))
          | Some idx \<Rightarrow> Ok (put_at idx key v st))"

definition strip_cr :: "ustr \<Rightarrow> ustr" where
  "strip_cr raw = (case strip_suffix CR raw of Some line \<Rightarrow> line | None \<Rightarrow> raw)"

definition kf_parse_line :: "nat \<Rightarrow> ustr \<Rightarrow> kf_state \<Rightarrow> (core_error, kf_state) result" where
  "kf_parse_line lineno raw st =
     (let line = strip_cr raw; trimmed = trim_matches ASCII_WS line in
      if trimmed = [] \<or> starts_with (\<lambda>c. c = of_char CHR ''#'') trimmed then Ok st
      else case strip_prefix (of_char CHR ''['') trimmed of
        Some rest \<Rightarrow> parse_header lineno rest st
      | None \<Rightarrow> parse_entry lineno line st)"

fun kf_parse_lines :: "nat \<Rightarrow> ustr list \<Rightarrow> kf_state \<Rightarrow> (core_error, kf_state) result" where
  "kf_parse_lines n [] st = Ok st"
| "kf_parse_lines n (raw # raws) st = andthen (kf_parse_line (n + 1) raw st) (kf_parse_lines (n + 1) raws)"

definition keyfile_parse :: "ustr \<Rightarrow> (core_error, keyfile) result" where
  "keyfile_parse input =
     (let body = (case strip_suffix LF input of Some b \<Rightarrow> b | None \<Rightarrow> input) in
      map_ok ks_keyfile (kf_parse_lines 0 (split_on LF body)
        \<lparr>ks_keyfile = keyfile_default, ks_current = None, ks_keys = Map.empty\<rparr>))"

subsection \<open>Lookups\<close>

definition kf_group_named :: "keyfile \<Rightarrow> ustr \<Rightarrow> kf_group option" where
  "kf_group_named kf name = map_option (\<lambda>i. kf_groups kf ! i) (kf_index kf name)"

definition has_group :: "keyfile \<Rightarrow> ustr \<Rightarrow> bool" where
  "has_group kf grp \<longleftrightarrow> kf_index kf grp \<noteq> None"

definition kf_group_names :: "keyfile \<Rightarrow> ustr list" where
  "kf_group_names kf = map kg_name (kf_groups kf)"

definition kf_keys :: "keyfile \<Rightarrow> ustr \<Rightarrow> ustr list" where
  "kf_keys kf grp = (case kf_group_named kf grp of None \<Rightarrow> [] | Some g \<Rightarrow> map fst (kg_entries g))"

definition kf_find :: "keyfile \<Rightarrow> ustr \<Rightarrow> ustr \<Rightarrow> ustr option" where
  "kf_find kf grp key =
     (case kf_group_named kf grp of
        None \<Rightarrow> None
      | Some g \<Rightarrow> map_option snd (List.find (\<lambda>(k, _). k = key) (kg_entries g)))"

definition get_value :: "keyfile \<Rightarrow> ustr \<Rightarrow> ustr \<Rightarrow> ustr option" where
  "get_value kf grp key = kf_find kf grp key"

fun unescape :: "ustr \<Rightarrow> (core_error, ustr) result" where
  "unescape [] = Ok []"
| "unescape (c # cs) =
     (if c \<noteq> BACKSLASH then map_ok (\<lambda>out. c # out) (unescape cs)
      else case cs of
        [] \<Rightarrow> Err (KeyFileError (lit ''value ends with a lone backslash''))
      | d # ds \<Rightarrow>
          if d = of_char CHR ''s'' then map_ok (\<lambda>out. SPACE # out) (unescape ds)
          else if d = of_char CHR ''n'' then map_ok (\<lambda>out. LF # out) (unescape ds)
          else if d = of_char CHR ''t'' then map_ok (\<lambda>out. TAB # out) (unescape ds)
          else if d = of_char CHR ''r'' then map_ok (\<lambda>out. CR # out) (unescape ds)
          else if d = BACKSLASH then map_ok (\<lambda>out. BACKSLASH # out) (unescape ds)
          else if d = of_char CHR '';'' then map_ok (\<lambda>out. of_char CHR '';'' # out) (unescape ds)
          else Err (KeyFileError (lit ''invalid escape '' @ quoted [BACKSLASH, d])))"

fun split_list_from :: "ustr \<Rightarrow> ustr \<Rightarrow> (core_error, ustr list) result" where
  "split_list_from current [] = Ok (if current = [] then [] else [current])"
| "split_list_from current (c # cs) =
     (if c = BACKSLASH then
        (case cs of
           [] \<Rightarrow> Err (KeyFileError (lit ''value ends with a lone backslash''))
         | d # ds \<Rightarrow> split_list_from (current @ [BACKSLASH, d]) ds)
      else if c = of_char CHR '';'' then map_ok (\<lambda>items. current # items) (split_list_from [] cs)
      else split_list_from (current @ [c]) cs)"

definition split_list :: "ustr \<Rightarrow> (core_error, ustr list) result" where
  "split_list raw = andthen (split_list_from [] raw) (try_map unescape)"

definition get_string :: "keyfile \<Rightarrow> ustr \<Rightarrow> ustr \<Rightarrow> (core_error, ustr option) result" where
  "get_string kf grp key = (case kf_find kf grp key of None \<Rightarrow> Ok None | Some v \<Rightarrow> map_ok Some (unescape v))"

definition not_a :: "string \<Rightarrow> ustr \<Rightarrow> ustr \<Rightarrow> ustr \<Rightarrow> core_error" where
  "not_a what v grp key =
     KeyFileError (lit ''value '' @ quoted v @ lit '' for '' @ grp @ lit ''.'' @ key @ lit '' is not '' @ lit what)"

definition get_bool :: "keyfile \<Rightarrow> ustr \<Rightarrow> ustr \<Rightarrow> (core_error, bool option) result" where
  "get_bool kf grp key =
     (case kf_find kf grp key of
        None \<Rightarrow> Ok None
      | Some v \<Rightarrow>
          if v = lit ''true'' \<or> v = lit ''1'' then Ok (Some True)
          else if v = lit ''false'' \<or> v = lit ''0'' then Ok (Some False)
          else Err (not_a ''a boolean'' v grp key))"

text \<open>\<open>str::parse::<i64>\<close>: an optional sign and decimal digits, in the range of 64 bits.\<close>

definition dec_value :: "ustr \<Rightarrow> int" where
  "dec_value ds = foldl (\<lambda>n d. n * 10 + (int d - 48)) 0 ds"

definition parse_i64 :: "ustr \<Rightarrow> int option" where
  "parse_i64 s =
     (let neg = starts_with (\<lambda>c. c = of_char CHR ''-'') s;
          ds = (if neg \<or> starts_with (\<lambda>c. c = of_char CHR ''+'') s then tl s else s);
          v = (if neg then - dec_value ds else dec_value ds) in
      if ds \<noteq> [] \<and> list_all (\<lambda>c. 48 \<le> c \<and> c \<le> 57) ds \<and> - (2 ^ 63) \<le> v \<and> v < 2 ^ 63 then Some v else None)"

definition get_integer :: "keyfile \<Rightarrow> ustr \<Rightarrow> ustr \<Rightarrow> (core_error, int option) result" where
  "get_integer kf grp key =
     (case kf_find kf grp key of
        None \<Rightarrow> Ok None
      | Some v \<Rightarrow>
          if starts_with (\<lambda>c. c = of_char CHR ''+'') v then Err (not_a ''an integer'' v grp key)
          else case parse_i64 v of
            None \<Rightarrow> Err (not_a ''an integer'' v grp key)
          | Some n \<Rightarrow> Ok (Some n))"

definition get_string_list :: "keyfile \<Rightarrow> ustr \<Rightarrow> ustr \<Rightarrow> (core_error, ustr list option) result" where
  "get_string_list kf grp key =
     (case kf_find kf grp key of None \<Rightarrow> Ok None | Some v \<Rightarrow> map_ok Some (split_list v))"

subsection \<open>Writes\<close>

definition validate_group :: "ustr \<Rightarrow> (core_error, unit) result" where
  "validate_group name =
     (if name = [] then Err (KeyFileError (lit ''group name is empty''))
      else if LF \<in> set name \<or> CR \<in> set name \<or> of_char CHR ''['' \<in> set name \<or> of_char CHR '']'' \<in> set name then
        Err (KeyFileError (lit ''group name '' @ quoted name @ lit '' contains a structural character''))
      else Ok ())"

definition validate_key :: "ustr \<Rightarrow> (core_error, unit) result" where
  "validate_key key =
     (if key = [] then Err (KeyFileError (lit ''key is empty''))
      else if starts_with ASCII_WS key \<or> ends_with ASCII_WS key then
        Err (KeyFileError (lit ''key '' @ quoted key @ lit '' has leading or trailing whitespace''))
      else if LF \<in> set key \<or> CR \<in> set key \<or> of_char CHR ''='' \<in> set key then
        Err (KeyFileError (lit ''key '' @ quoted key @ lit '' contains a structural character''))
      else if starts_with (\<lambda>c. c = of_char CHR ''#'') key \<or> starts_with (\<lambda>c. c = of_char CHR ''['') key then
        Err (KeyFileError (lit ''key '' @ quoted key @ lit '' begins with '' @ quoted (lit ''#'') @ lit '' or '' @
          quoted (lit ''['') @ lit '' and would not reparse''))
      else Ok ())"

definition validate_value :: "ustr \<Rightarrow> (core_error, unit) result" where
  "validate_value v =
     (if LF \<in> set v \<or> CR \<in> set v then
        Err (KeyFileError (lit ''value contains a newline; escape it as '' @ [BACKSLASH] @ lit ''n''))
      else if starts_with (\<lambda>c. c = SPACE \<or> c = TAB) v then
        Err (KeyFileError (lit ''value begins with whitespace; escape it as '' @ [BACKSLASH] @ lit ''s''))
      else Ok ())"

definition set_entry :: "ustr \<Rightarrow> ustr \<Rightarrow> (ustr \<times> ustr) list \<Rightarrow> (ustr \<times> ustr) list" where
  "set_entry key v entrs =
     (case position (\<lambda>(k, _). k = key) entrs of
        Some at \<Rightarrow> entrs[at := (fst (entrs ! at), v)]
      | None \<Rightarrow> entrs @ [(key, v)])"

definition set_value :: "keyfile \<Rightarrow> ustr \<Rightarrow> ustr \<Rightarrow> ustr \<Rightarrow> (core_error, keyfile) result" where
  "set_value kf grp key v =
     andthen (validate_group grp) (\<lambda>_.
     andthen (validate_key key) (\<lambda>_.
     andthen (validate_value v) (\<lambda>_.
       let (kf', idx) = group_index_or_insert kf grp;
           g = kf_groups kf' ! idx
       in Ok (kf'\<lparr>kf_groups := (kf_groups kf')[idx := g\<lparr>kg_entries := set_entry key v (kg_entries g)\<rparr>]\<rparr>))))"

fun escape_from :: "bool \<Rightarrow> ustr \<Rightarrow> ustr" where
  "escape_from leading [] = []"
| "escape_from leading (c # cs) =
     (if c = BACKSLASH then [BACKSLASH, BACKSLASH] @ escape_from False cs
      else if c = LF then [BACKSLASH, of_char CHR ''n''] @ escape_from False cs
      else if c = CR then [BACKSLASH, of_char CHR ''r''] @ escape_from False cs
      else if c = SPACE \<and> leading then [BACKSLASH, of_char CHR ''s''] @ escape_from leading cs
      else if c = TAB \<and> leading then [BACKSLASH, of_char CHR ''t''] @ escape_from leading cs
      else c # escape_from False cs)"

definition escape :: "ustr \<Rightarrow> ustr" where
  "escape s = escape_from True s"

definition set_string :: "keyfile \<Rightarrow> ustr \<Rightarrow> ustr \<Rightarrow> ustr \<Rightarrow> (core_error, keyfile) result" where
  "set_string kf grp key v = set_value kf grp key (escape v)"

definition list_item :: "ustr \<Rightarrow> ustr" where
  "list_item item =
     concat (map (\<lambda>c. if c = of_char CHR '';'' then [BACKSLASH, c] else [c]) (escape item)) @ [of_char CHR '';'']"

definition set_string_list :: "keyfile \<Rightarrow> ustr \<Rightarrow> ustr \<Rightarrow> ustr list \<Rightarrow> (core_error, keyfile) result" where
  "set_string_list kf grp key items = set_value kf grp key (concat (map list_item items))"

definition remove_key :: "keyfile \<Rightarrow> ustr \<Rightarrow> ustr \<Rightarrow> keyfile \<times> bool" where
  "remove_key kf grp key =
     (case kf_index kf grp of
        None \<Rightarrow> (kf, False)
      | Some i \<Rightarrow>
          let g = kf_groups kf ! i in
          case position (\<lambda>(k, _). k = key) (kg_entries g) of
            None \<Rightarrow> (kf, False)
          | Some at \<Rightarrow> (kf\<lparr>kf_groups := (kf_groups kf)[i := g\<lparr>kg_entries :=
              take at (kg_entries g) @ drop (at + 1) (kg_entries g)\<rparr>]\<rparr>, True))"

definition remove_group :: "keyfile \<Rightarrow> ustr \<Rightarrow> keyfile \<times> bool" where
  "remove_group kf grp =
     (case kf_index kf grp of
        None \<Rightarrow> (kf, False)
      | Some at \<Rightarrow>
          (kf\<lparr>kf_groups := take at (kf_groups kf) @ drop (at + 1) (kf_groups kf),
             kf_index := (\<lambda>name. map_option (\<lambda>i. if i > at then i - 1 else i) (((kf_index kf)(grp := None)) name))\<rparr>, True))"

definition display_group :: "kf_group \<Rightarrow> ustr" where
  "display_group g = [of_char CHR ''[''] @ kg_name g @ [of_char CHR '']'', LF] @
     concat (map (\<lambda>(key, v). key @ [of_char CHR ''=''] @ v @ [LF]) (kg_entries g))"

fun display_groups :: "nat \<Rightarrow> kf_group list \<Rightarrow> ustr" where
  "display_groups i [] = []"
| "display_groups i (g # gs) = (if i > 0 then [LF] else []) @ display_group g @ display_groups (i + 1) gs"

definition keyfile_display :: "keyfile \<Rightarrow> ustr" where
  "keyfile_display kf = display_groups 0 (kf_groups kf)"

subsection \<open>Trimming\<close>

lemma trim_end_prefix: "\<exists>zs. xs = trim_end_matches p xs @ zs \<and> (\<forall>z \<in> set zs. p z)"
proof -
  have "xs = rev (takeWhile p (rev xs) @ dropWhile p (rev xs))" by (simp only: takeWhile_dropWhile_id rev_rev_ident)
  then have "xs = trim_end_matches p xs @ rev (takeWhile p (rev xs))" unfolding rev_append trim_end_matches_def .
  then show ?thesis by (metis set_rev set_takeWhileD)
qed

lemma trim_end_not_ends: "\<not> ends_with p (trim_end_matches p xs)"
  by (metis ends_with_def hd_dropWhile last_rev rev_is_Nil_conv trim_end_matches_def)

lemma trim_matches_props:
  "\<not> starts_with p (trim_matches p xs)" "\<not> ends_with p (trim_matches p xs)"
  "set (trim_matches p xs) \<subseteq> set xs"
  "trim_matches p xs \<noteq> [] \<Longrightarrow> hd (trim_matches p xs) = hd (dropWhile p xs)"
proof -
  obtain zs where z: "dropWhile p xs = trim_matches p xs @ zs"
    using trim_end_prefix [of "dropWhile p xs" p] by (auto simp: trim_matches_def trim_start_matches_def)
  show "\<not> ends_with p (trim_matches p xs)" by (simp add: trim_matches_def trim_end_not_ends)
  show hd: "trim_matches p xs \<noteq> [] \<Longrightarrow> hd (trim_matches p xs) = hd (dropWhile p xs)" using z by simp
  show "\<not> starts_with p (trim_matches p xs)"
    using hd hd_dropWhile [of p xs] z by (auto simp: starts_with_def)
  show "set (trim_matches p xs) \<subseteq> set xs" using z by (metis Un_iff set_append set_dropWhileD subsetI)
qed

lemma trim_matches_id: "\<not> starts_with p xs \<Longrightarrow> \<not> ends_with p xs \<Longrightarrow> trim_matches p xs = xs"
proof -
  assume s: "\<not> starts_with p xs" and e: "\<not> ends_with p xs"
  have "dropWhile p xs = xs" using s by (cases xs) (auto simp: starts_with_def)
  moreover have "dropWhile p (rev xs) = rev xs" using e by (cases xs rule: rev_cases) (auto simp: ends_with_def)
  ultimately show ?thesis by (simp add: trim_matches_def trim_start_matches_def trim_end_matches_def)
qed

lemma trim_matches_Cons: "\<not> p x \<Longrightarrow> \<exists>ys. trim_matches p (x # xs) = x # ys"
  by (auto simp: trim_matches_def trim_start_matches_def trim_end_matches_def dropWhile_append rev_swap) (metis rev_rev_ident)

lemma trim_matches_Nil [simp]: "trim_matches p [] = []"
  by (simp add: trim_matches_def trim_start_matches_def trim_end_matches_def)

lemma strip_suffix_snoc [simp]:
  "strip_suffix c (xs @ [c]) = Some xs" "strip_suffix c [] = None"
  by (auto simp: strip_suffix_def)

lemma strip_cr_append: "ys \<noteq> [] \<Longrightarrow> strip_cr (xs @ ys) = xs @ strip_cr ys"
  by (simp add: strip_cr_def strip_suffix_def butlast_append)

lemma strip_cr_set: "set (strip_cr xs) \<subseteq> set xs"
  by (auto simp: strip_cr_def strip_suffix_def dest: in_set_butlastD)

lemma strip_cr_id: "\<not> ends_with (\<lambda>c. c = CR) xs \<longleftrightarrow> strip_cr xs = xs"
  by (cases xs rule: rev_cases) (auto simp: strip_cr_def strip_suffix_def ends_with_def)

lemma position_unique:
  "position p xs = Some i \<Longrightarrow> i < length xs \<and> p (xs ! i)"
  by (simp add: position_Some)

subsection \<open>Key files as ordered association lists\<close>

text \<open>The hash maps are caches: a key file is an association list from group names to association lists.\<close>

type_synonym kf_assoc = "(ustr \<times> (ustr \<times> ustr) list) list"

definition kf_of :: "kf_assoc \<Rightarrow> keyfile" where
  "kf_of gs = \<lparr>kf_groups = map (\<lambda>(n, es). \<lparr>kg_name = n, kg_entries = es\<rparr>) gs,
     kf_index = (\<lambda>name. position (\<lambda>(n, _). n = name) gs)\<rparr>"

definition kf_distinct :: "kf_assoc \<Rightarrow> bool" where
  "kf_distinct gs \<longleftrightarrow> distinct (map fst gs) \<and> (\<forall>(n, es) \<in> set gs. distinct (map fst es))"

definition put_group :: "ustr \<Rightarrow> kf_assoc \<Rightarrow> kf_assoc" where
  "put_group n gs = (if n \<in> fst ` set gs then gs else gs @ [(n, [])])"

definition on_group :: "ustr \<Rightarrow> ((ustr \<times> ustr) list \<Rightarrow> (ustr \<times> ustr) list) \<Rightarrow> kf_assoc \<Rightarrow> kf_assoc" where
  "on_group n f gs = map (\<lambda>(m, es). (m, if m = n then f es else es)) gs"

definition kf_ok :: "keyfile \<Rightarrow> bool" where
  "kf_ok kf \<longleftrightarrow>
     (\<forall>name i. kf_index kf name = Some i \<longleftrightarrow> i < length (kf_groups kf) \<and> kg_name (kf_groups kf ! i) = name) \<and>
     (\<forall>g \<in> set (kf_groups kf). distinct (map fst (kg_entries g)))"

lemma position_fst_Some:
  assumes "distinct (map fst gs)"
  shows "position (\<lambda>(n, _). n = name) gs = Some i \<longleftrightarrow> i < length gs \<and> fst (gs ! i) = name"
proof -
  have "fst x \<noteq> name" if "i < length gs" "fst (gs ! i) = name" "x \<in> set (take i gs)" for x
  proof -
    from that(3) obtain j where "j < i" "j < length gs" "x = gs ! j" by (auto simp: in_set_conv_nth)
    then show ?thesis using assms that nth_eq_iff_index_eq [of "map fst gs" j i] by auto
  qed
  then show ?thesis by (fastforce simp: position_Some split_def)
qed

lemma position_fst_None: "position (\<lambda>(n, _). n = name) gs = None \<longleftrightarrow> name \<notin> fst ` set gs"
  by (force simp: position_None split_def)

lemma kf_ok_iff: "kf_ok kf \<longleftrightarrow> (\<exists>gs. kf = kf_of gs \<and> kf_distinct gs)"
proof
  assume ok: "kf_ok kf"
  define gs where "gs = map (\<lambda>g. (kg_name g, kg_entries g)) (kf_groups kf)"
  have groups: "kf_groups kf = map (\<lambda>(n, es). \<lparr>kg_name = n, kg_entries = es\<rparr>) gs"
    by (auto simp: gs_def o_def intro!: nth_equalityI kf_group.equality)
  have idx: "kf_index kf name = Some i \<longleftrightarrow> i < length gs \<and> fst (gs ! i) = name" for name i
    using ok by (auto simp: kf_ok_def gs_def)
  have d: "distinct (map fst gs)"
    unfolding distinct_conv_nth by (metis idx length_map nth_map option.inject)
  have "kf_index kf = (\<lambda>name. position (\<lambda>(n, _). n = name) gs)"
  proof
    fix name
    show "kf_index kf name = position (\<lambda>(n, _). n = name) gs"
      using idx [of name] position_fst_Some [OF d, of name] by (metis not_None_eq)
  qed
  then have "kf = kf_of gs" using groups by (simp add: kf_of_def)
  moreover have "kf_distinct gs" using d ok by (auto simp: kf_distinct_def kf_ok_def gs_def)
  ultimately show "\<exists>gs. kf = kf_of gs \<and> kf_distinct gs" by blast
next
  assume "\<exists>gs. kf = kf_of gs \<and> kf_distinct gs"
  then obtain gs where gs: "kf = kf_of gs" "kf_distinct gs" by blast
  then show "kf_ok kf"
    by (auto simp: kf_ok_def kf_of_def kf_distinct_def position_fst_Some split: prod.splits)
qed

lemma kf_distinct_put_group: "kf_distinct gs \<Longrightarrow> kf_distinct (put_group n gs)"
  by (auto simp: kf_distinct_def put_group_def)

lemma map_fst_on_group [simp]: "map fst (on_group n f gs) = map fst gs"
  by (auto simp: on_group_def)

lemma kf_distinct_on_group:
  assumes "kf_distinct gs" and "\<And>es. distinct (map fst es) \<Longrightarrow> distinct (map fst (f es))"
  shows "kf_distinct (on_group n f gs)"
  using assms by (auto simp: kf_distinct_def on_group_def o_def split_def)

lemma group_index_or_insert_of:
  "\<exists>i. group_index_or_insert (kf_of gs) n = (kf_of (put_group n gs), i) \<and>
     position (\<lambda>(m, _). m = n) (put_group n gs) = Some i"
proof (cases "position (\<lambda>(m, _). m = n) gs")
  case None
  have app: "position (\<lambda>(m, _). m = x) (gs @ [(n, [])]) =
      (case position (\<lambda>(m, _). m = x) gs of None \<Rightarrow> if x = n then Some (length gs) else None | Some i \<Rightarrow> Some i)" for x
    by (induction gs) (auto split: option.splits)
  have "n \<notin> fst ` set gs" using None position_fst_None [of n gs] by blast
  moreover have "(\<lambda>x. position (\<lambda>(m, _). m = x) gs)(n \<mapsto> length gs) = (\<lambda>x. position (\<lambda>(m, _). m = x) (gs @ [(n, [])]))"
    using None by (auto simp: fun_eq_iff app split: option.splits)
  ultimately show ?thesis using None app [of n] by (simp add: group_index_or_insert_def put_group_def kf_of_def)
next
  case (Some i)
  then show ?thesis using position_fst_None [of n gs]
    by (auto simp: group_index_or_insert_def put_group_def kf_of_def)
qed

lemma update_group_of:
  assumes "kf_distinct gs" and "position (\<lambda>(m, _). m = n) gs = Some i"
  shows "(kf_of gs)\<lparr>kf_groups := (kf_groups (kf_of gs))[i := (kf_groups (kf_of gs) ! i)\<lparr>kg_entries := f (snd (gs ! i))\<rparr>]\<rparr> =
    kf_of (on_group n f gs)"
proof -
  have i: "i < length gs" "fst (gs ! i) = n" using assms by (simp_all add: kf_distinct_def position_fst_Some)
  have "fst (gs ! j) = n \<longleftrightarrow> j = i" if "j < length gs" for j
    using assms(1) i that nth_eq_iff_index_eq [of "map fst gs" j i] by (auto simp: kf_distinct_def)
  then have "(map (\<lambda>(n, es). \<lparr>kg_name = n, kg_entries = es\<rparr>) gs)
      [i := (map (\<lambda>(n, es). \<lparr>kg_name = n, kg_entries = es\<rparr>) gs ! i)\<lparr>kg_entries := f (snd (gs ! i))\<rparr>] =
      map (\<lambda>(n, es). \<lparr>kg_name = n, kg_entries = es\<rparr>) (on_group n f gs)"
    using i by (intro nth_equalityI) (auto simp: on_group_def nth_list_update split_def)
  moreover have "position (\<lambda>(m, _). m = x) (on_group n f gs) = position (\<lambda>(m, _). m = x) gs" for x
    unfolding on_group_def by (induction gs) auto
  ultimately show ?thesis by (simp add: kf_of_def)
qed

lemma groups_of_nth:
  "i < length gs \<Longrightarrow> kf_groups (kf_of gs) ! i = \<lparr>kg_name = fst (gs ! i), kg_entries = snd (gs ! i)\<rparr>"
  by (simp add: kf_of_def split_def)

lemma set_entry_update: "set_entry key v es = AList.update key v es"
proof (induction es)
  case (Cons e es)
  obtain k w where e: "e = (k, w)" by (cases e)
  show ?case
  proof (cases "k = key")
    case False
    then show ?thesis using Cons e by (auto simp: set_entry_def split: option.splits)
  qed (simp add: set_entry_def e)
qed (simp add: set_entry_def)

lemma set_value_of:
  assumes "kf_distinct gs"
  shows "set_value (kf_of gs) g k v = Ok kf' \<longleftrightarrow>
    validate_group g = Ok () \<and> validate_key k = Ok () \<and> validate_value v = Ok () \<and>
    kf' = kf_of (on_group g (AList.update k v) (put_group g gs))"
proof -
  obtain i where i: "group_index_or_insert (kf_of gs) g = (kf_of (put_group g gs), i)"
      "position (\<lambda>(m, _). m = g) (put_group g gs) = Some i"
    using group_index_or_insert_of by blast
  have "i < length (put_group g gs)" using i(2) by (simp add: position_Some)
  then show ?thesis
    using update_group_of [OF kf_distinct_put_group [OF assms] i(2), of "AList.update k v"] i(1)
    by (auto simp: set_value_def result_simps groups_of_nth set_entry_update)
qed

lemma delete_at:
  assumes "distinct (map fst es)" and "position (\<lambda>(k, _). k = key) es = Some at"
  shows "take at es @ drop (at + 1) es = AList.delete key es"
  using assms
proof (induction es arbitrary: at)
  case (Cons e es)
  obtain k w where e: "e = (k, w)" by (cases e)
  show ?case
  proof (cases "k = key")
    case True
    then have "AList.delete key es = es" using Cons.prems(1) e by (force simp: AList.delete_eq intro!: filter_True)
    then show ?thesis using Cons.prems e True by simp
  next
    case False
    then show ?thesis using Cons e by (auto split: option.splits)
  qed
qed simp

lemma kf_find_of: "kf_find (kf_of gs) g k = (case map_of gs g of None \<Rightarrow> None | Some es \<Rightarrow> map_of es k)"
proof -
  have find: "map_option snd (List.find (\<lambda>(m, _). m = x) xs) = map_of xs x" for x and xs :: "(ustr \<times> ustr) list"
    by (induction xs) auto
  have group: "kf_group_named (kf_of gs) g = map_option (\<lambda>es. \<lparr>kg_name = g, kg_entries = es\<rparr>) (map_of gs g)"
  proof (induction gs)
    case (Cons a gs)
    then show ?case by (cases "position (\<lambda>(n, _). n = g) gs") (auto simp: kf_group_named_def kf_of_def split_def)
  qed (simp add: kf_group_named_def kf_of_def)
  show ?thesis by (simp add: kf_find_def group find split: option.splits)
qed

lemma remove_key_of:
  assumes "kf_distinct gs"
  shows "fst (remove_key (kf_of gs) g k) = kf_of (on_group g (AList.delete k) gs)"
    and "snd (remove_key (kf_of gs) g k) \<longleftrightarrow> kf_find (kf_of gs) g k \<noteq> None"
proof -
  have "fst (remove_key (kf_of gs) g k) = kf_of (on_group g (AList.delete k) gs) \<and>
    (snd (remove_key (kf_of gs) g k) \<longleftrightarrow> kf_find (kf_of gs) g k \<noteq> None)"
  proof (cases "position (\<lambda>(m, _). m = g) gs")
    case None
    then have g: "g \<notin> fst ` set gs" using position_fst_None [of g gs] by blast
    then have "on_group g (AList.delete k) gs = gs" by (force simp: on_group_def intro!: map_idI)
    moreover have "map_of gs g = None" using g by (simp add: map_of_eq_None_iff)
    moreover have "kf_index (kf_of gs) g = None" using None by (simp add: kf_of_def)
    ultimately show ?thesis by (simp add: remove_key_def kf_find_of)
  next
    case (Some i)
    then have i: "i < length gs" "fst (gs ! i) = g" using assms by (simp_all add: kf_distinct_def position_fst_Some)
    define es where "es = snd (gs ! i)"
    have gi: "gs ! i = (g, es)" using i by (auto simp: es_def)
    then have mem: "(g, es) \<in> set gs" using i by (metis nth_mem)
    then have dist: "distinct (map fst es)" and m: "map_of gs g = Some es"
      using assms by (auto simp: kf_distinct_def)
    have idx: "kf_index (kf_of gs) g = Some i" using Some by (simp add: kf_of_def)
    show ?thesis
    proof (cases "position (\<lambda>(m, _). m = k) es")
      case None
      then have k: "k \<notin> fst ` set es" using position_fst_None [of k es] by blast
      then have "AList.delete k es = es" by (force simp: AList.delete_eq intro!: filter_True)
      moreover have "b = es" if "(g, b) \<in> set gs" for b
        using assms mem that by (auto simp: kf_distinct_def dest: eq_key_imp_eq_value)
      ultimately have "on_group g (AList.delete k) gs = gs" by (auto simp: on_group_def intro!: map_idI)
      moreover have "map_of es k = None" using k by (simp add: map_of_eq_None_iff)
      ultimately show ?thesis using None idx i gi m by (simp add: remove_key_def groups_of_nth kf_find_of)
    next
      case at: (Some at)
      have "map_of es k \<noteq> None" using at position_fst_None [of k es] by (auto simp: map_of_eq_None_iff)
      then show ?thesis
        using at idx i gi m delete_at [OF dist at] update_group_of [OF assms Some, of "AList.delete k"]
        by (simp add: remove_key_def groups_of_nth kf_find_of)
    qed
  qed
  then show "fst (remove_key (kf_of gs) g k) = kf_of (on_group g (AList.delete k) gs)"
    "snd (remove_key (kf_of gs) g k) \<longleftrightarrow> kf_find (kf_of gs) g k \<noteq> None" by blast+
qed

lemma remove_group_of:
  assumes "kf_distinct gs"
  shows "fst (remove_group (kf_of gs) g) = kf_of (AList.delete g gs)"
proof (cases "position (\<lambda>(m, _). m = g) gs")
  case None
  then have "g \<notin> fst ` set gs" using position_fst_None [of g gs] by blast
  then have "AList.delete g gs = gs" by (force simp: AList.delete_eq intro!: filter_True)
  then show ?thesis using None by (simp add: remove_group_def kf_of_def)
next
  case (Some at)
  have d: "distinct (map fst gs)" using assms by (simp add: kf_distinct_def)
  have pos: "map_option (\<lambda>i. if i > at then i - 1 else i) (if name = g then None else position (\<lambda>(n, _). n = name) gs) =
      position (\<lambda>(n, _). n = name) (AList.delete g gs)" for name
    using d Some
  proof (induction gs arbitrary: at)
    case (Cons a gs)
    obtain n es where a: "a = (n, es)" by (cases a)
    show ?case
    proof (cases "n = g")
      case True
      then have "AList.delete g gs = gs" using Cons.prems(1) a by (force simp: AList.delete_eq intro!: filter_True)
      moreover have "g \<notin> fst ` set gs" using Cons.prems(1) a True by simp
      ultimately show ?thesis using Cons.prems True a position_fst_None [of g gs]
        by (auto simp: option.map_comp o_def option.map_ident)
    next
      case False
      then obtain at' where at': "position (\<lambda>(m, _). m = g) gs = Some at'" "at = Suc at'" using Cons.prems a by auto
      have f: "(\<lambda>i. if i > at then i - 1 else i) \<circ> Suc = Suc \<circ> (\<lambda>i. if i > at' then i - 1 else i)"
        using at' by (auto simp: fun_eq_iff)
      have "map_option Suc (position (\<lambda>(n, _). n = name) (AList.delete g gs)) =
          map_option Suc (map_option (\<lambda>i. if i > at' then i - 1 else i) (if name = g then None else position (\<lambda>(n, _). n = name) gs))"
        using Cons.IH [OF _ at'(1)] Cons.prems(1) by simp
      then show ?thesis using False a f by (auto simp: option.map_comp)
    qed
  qed simp
  then show ?thesis
    using Some delete_at [OF d Some] map_append [symmetric]
    by (simp add: remove_group_def kf_of_def fun_eq_iff take_map drop_map flip: map_append)
qed

lemma kf_distinct_delete: "kf_distinct gs \<Longrightarrow> kf_distinct (AList.delete g gs)"
  using distinct_delete [of gs g] by (auto simp: kf_distinct_def AList.delete_eq)

subsection \<open>Reading back what was set\<close>

lemma map_of_put_group: "map_of (put_group n gs) m = (if m = n \<and> map_of gs n = None then Some [] else map_of gs m)"
proof -
  have "map_of gs n = None \<longleftrightarrow> n \<notin> fst ` set gs" by (simp add: map_of_eq_None_iff)
  then show ?thesis unfolding put_group_def by (auto simp: map_add_def split: option.splits)
qed

lemma map_of_on_group: "map_of (on_group n f gs) m = (if m = n then map_option f (map_of gs m) else map_of gs m)"
  by (induction gs) (auto simp: on_group_def)

lemma kf_find_set:
  assumes "kf_distinct gs"
  shows "kf_find (kf_of (on_group g (AList.update k v) (put_group g gs))) g' k' =
    (if g' = g \<and> k' = k then Some v else kf_find (kf_of gs) g' k')"
  by (auto simp: kf_find_of map_of_put_group map_of_on_group update_conv' split: option.splits)

lemma unescape_escape_from: "unescape (escape_from leading s) = Ok s"
  by (induction leading s rule: escape_from.induct) auto

lemma escape_from_valid:
  "LF \<notin> set (escape_from leading s)" "CR \<notin> set (escape_from leading s)"
  "\<not> starts_with ASCII_WS (escape_from True s)"
proof -
  show "LF \<notin> set (escape_from leading s)" "CR \<notin> set (escape_from leading s)"
    by (induction leading s rule: escape_from.induct) auto
  show "\<not> starts_with ASCII_WS (escape_from True s)"
    by (cases s) (auto simp: starts_with_def ASCII_WS_def)
qed

lemma validate_escape: "validate_value (escape s) = Ok ()"
  using escape_from_valid by (simp add: validate_value_def escape_def starts_with_def ASCII_WS_def)

definition semi :: "ustr \<Rightarrow> ustr" where
  "semi s = concat (map (\<lambda>c. if c = of_char CHR '';'' then [BACKSLASH, c] else [c]) s)"

lemma list_item_eq: "list_item item = semi (escape item) @ [of_char CHR '';'']"
  by (simp add: list_item_def semi_def)

lemma semi_simps [simp]:
  "semi [] = []" "semi (c # cs) = (if c = of_char CHR '';'' then [BACKSLASH, c] else [c]) @ semi cs"
  by (simp_all add: semi_def)

lemma split_semi_escape:
  "split_list_from cur (semi (escape_from leading s) @ of_char CHR '';'' # rest) =
     map_ok (\<lambda>items. (cur @ semi (escape_from leading s)) # items) (split_list_from [] rest)"
  by (induction leading s arbitrary: cur rule: escape_from.induct) auto

lemma unescape_semi_escape: "unescape (semi (escape_from leading s)) = Ok s"
  by (induction leading s rule: escape_from.induct) auto

lemma split_list_items: "split_list (concat (map list_item items)) = Ok items"
proof -
  have "split_list_from [] (concat (map list_item items)) = Ok (map (\<lambda>i. semi (escape i)) items)"
  proof (induction items)
    case (Cons i items)
    have "concat (map list_item (i # items)) = semi (escape_from True i) @ of_char CHR '';'' # concat (map list_item items)"
      by (simp add: list_item_eq escape_def)
    then show ?case using split_semi_escape [of "[]" True i "concat (map list_item items)"] Cons
      by (simp add: escape_def)
  qed simp
  then show ?thesis
    by (simp add: split_list_def try_map_Ok list_all2_conv_all_nth escape_def unescape_semi_escape)
qed

lemma set_semi: "set (semi s) \<subseteq> set s \<union> {BACKSLASH}"
  by (induction s) auto

lemma validate_items: "validate_value (concat (map list_item items)) = Ok ()"
proof -
  have nl: "LF \<notin> set (concat (map list_item items)) \<and> CR \<notin> set (concat (map list_item items))"
  proof -
    have "LF \<notin> set (list_item i) \<and> CR \<notin> set (list_item i)" for i
      using escape_from_valid(1) [of True i] escape_from_valid(2) [of True i] set_semi [of "escape i"]
      by (auto simp: list_item_eq escape_def)
    then show ?thesis by auto
  qed
  have "\<not> starts_with ASCII_WS (list_item i @ s)" for i s
  proof (cases "escape i")
    case (Cons c cs)
    then show ?thesis using escape_from_valid(3) [of i]
      by (auto simp: list_item_def starts_with_def ASCII_WS_def escape_def)
  qed (auto simp: list_item_def starts_with_def ASCII_WS_def)
  then have "\<not> starts_with ASCII_WS (concat (map list_item items))" by (cases items) (auto simp: starts_with_def [of _ "[]"])
  then show ?thesis using nl by (simp add: validate_value_def starts_with_def ASCII_WS_def)
qed

subsection \<open>The parser without its maps\<close>

text \<open>The classification of one line, and the parse on association lists, with the name of the current group
  in place of its position. The simulation shows that the maps of the parser do not change its result.\<close>

datatype kf_line = Blank_line | Header_line ustr | Entry_line ustr ustr

definition classify_header :: "nat \<Rightarrow> ustr \<Rightarrow> (core_error, kf_line) result" where
  "classify_header n rest =
     map_ok (\<lambda>st. Header_line (kg_name (kf_groups (ks_keyfile st) ! 0)))
       (parse_header n rest \<lparr>ks_keyfile = keyfile_default, ks_current = None, ks_keys = Map.empty\<rparr>)"

definition classify_entry :: "nat \<Rightarrow> ustr \<Rightarrow> (core_error, kf_line) result" where
  "classify_entry n line =
     (case position (\<lambda>c. c = of_char CHR ''='') line of
        None \<Rightarrow> Err (line_error n (lit ''expected a key=value pair''))
      | Some eq \<Rightarrow>
          let key = trim_matches ASCII_WS (take eq line) in
          if key = [] then Err (line_error n (lit ''empty key''))
          else Ok (Entry_line key (trim_start_matches ASCII_WS (drop (eq + 1) line))))"

definition classify :: "nat \<Rightarrow> ustr \<Rightarrow> (core_error, kf_line) result" where
  "classify n raw =
     (let line = strip_cr raw; trimmed = trim_matches ASCII_WS line in
      if trimmed = [] \<or> starts_with (\<lambda>c. c = of_char CHR ''#'') trimmed then Ok Blank_line
      else case strip_prefix (of_char CHR ''['') trimmed of
        Some rest \<Rightarrow> classify_header n rest
      | None \<Rightarrow> classify_entry n line)"

fun assoc_step :: "nat \<Rightarrow> kf_line \<Rightarrow> kf_assoc \<times> ustr option \<Rightarrow> (core_error, kf_assoc \<times> ustr option) result" where
  "assoc_step n Blank_line st = Ok st"
| "assoc_step n (Header_line name) (gs, cur) = Ok (put_group name gs, Some name)"
| "assoc_step n (Entry_line k v) (gs, cur) =
     (case cur of
        None \<Rightarrow> Err (line_error n (lit ''key '' @ quoted k @ lit '' precedes any group''))
      | Some g \<Rightarrow> Ok (on_group g (AList.update k v) gs, cur))"

fun assoc_lines :: "nat \<Rightarrow> ustr list \<Rightarrow> kf_assoc \<times> ustr option \<Rightarrow> (core_error, kf_assoc \<times> ustr option) result" where
  "assoc_lines n [] st = Ok st"
| "assoc_lines n (raw # raws) st =
     andthen (andthen (classify (n + 1) raw) (\<lambda>l. assoc_step (n + 1) l st)) (assoc_lines (n + 1) raws)"

lemma parse_header_classify:
  "parse_header n rest st = andthen (classify_header n rest) (\<lambda>l. case l of
     Header_line name \<Rightarrow> (let (kf, i) = group_index_or_insert (ks_keyfile st) name
       in Ok (st\<lparr>ks_keyfile := kf, ks_current := Some i\<rparr>)) | _ \<Rightarrow> Ok st)"
  by (auto simp: parse_header_def classify_header_def group_index_or_insert_def keyfile_default_def Let_def
      split: option.splits)

lemma parse_entry_classify:
  "parse_entry n line st = andthen (classify_entry n line) (\<lambda>l. case l of
     Entry_line k v \<Rightarrow> (case ks_current st of
         None \<Rightarrow> Err (line_error n (lit ''key '' @ quoted k @ lit '' precedes any group''))
       | Some idx \<Rightarrow> Ok (put_at idx k v st)) | _ \<Rightarrow> Ok st)"
  by (auto simp: parse_entry_def classify_entry_def Let_def split: option.splits)

definition kf_sim :: "kf_state \<Rightarrow> kf_assoc \<times> ustr option \<Rightarrow> bool" where
  "kf_sim st a \<longleftrightarrow>
     ks_keyfile st = kf_of (fst a) \<and> kf_distinct (fst a) \<and>
     (case snd a of None \<Rightarrow> ks_current st = None
        | Some g \<Rightarrow> \<exists>i. ks_current st = Some i \<and> position (\<lambda>(n, _). n = g) (fst a) = Some i) \<and>
     (\<forall>i k. ks_keys st (i, k) = (if i < length (fst a) then position (\<lambda>(x, _). x = k) (snd (fst a ! i)) else None))"

lemma sim_header:
  assumes "kf_sim st (gs, cur)" and "group_index_or_insert (ks_keyfile st) name = (kf, i)"
  shows "kf_sim (st\<lparr>ks_keyfile := kf, ks_current := Some i\<rparr>) (put_group name gs, Some name)"
proof -
  have "kf = kf_of (put_group name gs)" "position (\<lambda>(m, _). m = name) (put_group name gs) = Some i"
    using assms group_index_or_insert_of [of gs name] by (auto simp: kf_sim_def)
  then show ?thesis
    using assms(1) kf_distinct_put_group [of gs name] by (auto simp: kf_sim_def put_group_def nth_append)
qed

lemma position_update:
  "position (\<lambda>(x, _). x = k) (AList.update k' v es) =
     (if k = k' \<and> k \<notin> fst ` set es then Some (length es) else position (\<lambda>(x, _). x = k) es)"
  by (induction es) auto

lemma sim_entry:
  assumes sim: "kf_sim st (gs, Some g)" and cur: "ks_current st = Some i"
  shows "kf_sim (put_at i k v st) (on_group g (AList.update k v) gs, Some g)"
proof -
  have d: "kf_distinct gs" and kf: "ks_keyfile st = kf_of gs" and pos: "position (\<lambda>(n, _). n = g) gs = Some i"
    and keys: "\<And>j x. ks_keys st (j, x) = (if j < length gs then position (\<lambda>(y, _). y = x) (snd (gs ! j)) else None)"
    using sim cur by (auto simp: kf_sim_def)
  have i: "i < length gs" "fst (gs ! i) = g" using d pos by (simp_all add: kf_distinct_def position_fst_Some)
  have at: "fst (gs ! j) = g \<longleftrightarrow> j = i" if "j < length gs" for j
    using d i that nth_eq_iff_index_eq [of "map fst gs" j i] by (auto simp: kf_distinct_def)
  have pos': "position (\<lambda>(n, _). n = x) (on_group g f gs) = position (\<lambda>(n, _). n = x) gs" for x f
    unfolding on_group_def by (induction gs) auto
  have upd: "ks_keyfile (put_at i k v st) = kf_of (on_group g (AList.update k v) gs)"
    using update_group_of [OF d pos, of "AList.update k v"] kf keys [of i k] i
    by (auto simp: put_at_def Let_def groups_of_nth set_entry_update [symmetric] set_entry_def split: option.splits)
  have keys': "ks_keys (put_at i k v st) (j, x) =
      (if j < length gs then position (\<lambda>(y, _). y = x) (snd (on_group g (AList.update k v) gs ! j)) else None)" for j x
    using keys [of i k] keys [of j x] i at [of j] kf position_fst_None [of k "snd (gs ! i)"]
    by (auto simp: put_at_def Let_def on_group_def split_def position_update [unfolded split_def] groups_of_nth split: option.splits)
  have "ks_current (put_at i k v st) = ks_current st" by (simp add: put_at_def Let_def split: option.splits)
  then show ?thesis
    using upd keys' cur pos pos' kf_distinct_on_group [OF d distinct_update]
    by (simp add: kf_sim_def) (simp add: on_group_def)
qed

lemma sim_line:
  assumes sim: "kf_sim st (gs, cur)"
  shows "rel_result (=) kf_sim (kf_parse_line n raw st) (andthen (classify n raw) (\<lambda>l. assoc_step n l (gs, cur)))"
proof -
  define line where "line = strip_cr raw"
  define trimmed where "trimmed = trim_matches ASCII_WS line"
  consider "trimmed = [] \<or> starts_with (\<lambda>c. c = of_char CHR ''#'') trimmed"
    | rest where "\<not> (trimmed = [] \<or> starts_with (\<lambda>c. c = of_char CHR ''#'') trimmed)" "strip_prefix (of_char CHR ''['') trimmed = Some rest"
    | "\<not> (trimmed = [] \<or> starts_with (\<lambda>c. c = of_char CHR ''#'') trimmed)" "strip_prefix (of_char CHR ''['') trimmed = None"
    by blast
  then show ?thesis
  proof cases
    case 1
    then show ?thesis using sim
      by (simp add: kf_parse_line_def classify_def Let_def flip: line_def trimmed_def)
  next
    case (2 rest)
    have "\<exists>name. l = Header_line name" if "classify_header n rest = Ok l" for l
      using that by (auto simp: classify_header_def result_simps)
    then show ?thesis using 2 sim
      by (cases "classify_header n rest")
        (auto simp: kf_parse_line_def classify_def Let_def parse_header_classify intro: sim_header split: prod.splits
           simp flip: line_def trimmed_def)
  next
    case 3
    have "\<exists>k v. l = Entry_line k v" if "classify_entry n line = Ok l" for l
      using that by (auto simp: classify_entry_def Let_def split: option.splits if_splits)
    moreover have "rel_result (=) kf_sim
        (case ks_current st of None \<Rightarrow> Err (line_error n (lit ''key '' @ quoted k @ lit '' precedes any group''))
           | Some idx \<Rightarrow> Ok (put_at idx k v st)) (assoc_step n (Entry_line k v) (gs, cur))" for k v
      using sim sim_entry [of st gs _ _ k v] by (cases cur) (auto simp: kf_sim_def [of st])
    ultimately show ?thesis using 3
      by (cases "classify_entry n line")
        (auto simp: kf_parse_line_def classify_def Let_def parse_entry_classify simp flip: line_def trimmed_def)
  qed
qed

lemma sim_lines: "kf_sim st a \<Longrightarrow> rel_result (=) kf_sim (kf_parse_lines n raws st) (assoc_lines n raws a)"
proof (induction raws arbitrary: n st a)
  case (Cons raw raws)
  obtain gs cur where a: "a = (gs, cur)" by (cases a)
  have "rel_result (=) kf_sim (kf_parse_line (n + 1) raw st) (andthen (classify (n + 1) raw) (\<lambda>l. assoc_step (n + 1) l a))"
    using sim_line Cons.prems a by blast
  then show ?case using Cons.IH
    by (cases "kf_parse_line (n + 1) raw st"; cases "andthen (classify (n + 1) raw) (\<lambda>l. assoc_step (n + 1) l a)") auto
qed simp

definition assoc_parse :: "ustr \<Rightarrow> (core_error, kf_assoc) result" where
  "assoc_parse input =
     map_ok fst (assoc_lines 0 (split_on LF (case strip_suffix LF input of Some b \<Rightarrow> b | None \<Rightarrow> input)) ([], None))"

lemma keyfile_parse_assoc:
  "keyfile_parse input = map_ok kf_of (assoc_parse input)"
  "assoc_parse input = Ok gs \<Longrightarrow> kf_distinct gs"
proof -
  let ?lines = "split_on LF (case strip_suffix LF input of Some b \<Rightarrow> b | None \<Rightarrow> input)"
  have "kf_sim \<lparr>ks_keyfile = keyfile_default, ks_current = None, ks_keys = Map.empty\<rparr> ([], None)"
    by (simp add: kf_sim_def kf_of_def keyfile_default_def kf_distinct_def fun_eq_iff)
  from sim_lines [OF this, of 0 ?lines]
  show "keyfile_parse input = map_ok kf_of (assoc_parse input)" "assoc_parse input = Ok gs \<Longrightarrow> kf_distinct gs"
    by (cases "kf_parse_lines 0 ?lines \<lparr>ks_keyfile = keyfile_default, ks_current = None, ks_keys = Map.empty\<rparr>";
        cases "assoc_lines 0 ?lines ([], None)";
        auto simp: keyfile_parse_def assoc_parse_def Let_def kf_sim_def)+
qed

subsection \<open>Text that parses back\<close>

definition name_text :: "ustr \<Rightarrow> bool" where
  "name_text n \<longleftrightarrow> n \<noteq> [] \<and> of_char CHR ''['' \<notin> set n \<and> of_char CHR '']'' \<notin> set n \<and> LF \<notin> set n"

definition key_text :: "ustr \<Rightarrow> bool" where
  "key_text k \<longleftrightarrow> k \<noteq> [] \<and> \<not> ASCII_WS (hd k) \<and> \<not> ASCII_WS (last k) \<and> of_char CHR ''='' \<notin> set k \<and> LF \<notin> set k \<and>
     hd k \<noteq> of_char CHR ''#'' \<and> hd k \<noteq> of_char CHR ''[''"

definition value_text :: "ustr \<Rightarrow> bool" where
  "value_text v \<longleftrightarrow> LF \<notin> set v \<and> \<not> starts_with ASCII_WS v"

definition assoc_text :: "kf_assoc \<Rightarrow> bool" where
  "assoc_text gs \<longleftrightarrow> (\<forall>n es. (n, es) \<in> set gs \<longrightarrow>
     name_text n \<and> (\<forall>k v. (k, v) \<in> set es \<longrightarrow> key_text k \<and> value_text v))"

definition strip_crs :: "kf_assoc \<Rightarrow> kf_assoc" where
  "strip_crs gs = map (\<lambda>(n, es). (n, map (\<lambda>(k, v). (k, strip_cr v)) es)) gs"

lemma classify_blank: "classify n [] = Ok Blank_line"
  by (simp add: classify_def strip_cr_def)

lemma position_first: "p c \<Longrightarrow> \<forall>x \<in> set xs. \<not> p x \<Longrightarrow> position p (xs @ c # ys) = Some (length xs)"
  by (induction xs) auto

lemma classify_header_line:
  assumes "name_text name"
  shows "classify n (of_char CHR ''['' # name @ [of_char CHR '']'']) = Ok (Header_line name)"
proof -
  let ?l = "of_char CHR ''['' # name @ [of_char CHR '']''] :: ustr"
  have "strip_cr ?l = ?l" by (simp flip: strip_cr_id add: ends_with_def)
  moreover have "trim_matches ASCII_WS ?l = ?l"
    by (rule trim_matches_id) (auto simp: starts_with_def ends_with_def ASCII_WS_def)
  moreover have "position (\<lambda>c. c = of_char CHR '']'') (name @ [of_char CHR '']'']) = Some (length name)"
    using assms by (intro position_first) (auto simp: name_text_def)
  moreover have "classify_header n (name @ [of_char CHR '']'']) = Ok (Header_line name)"
    using calculation(3) assms
    by (simp add: classify_header_def parse_header_def name_text_def group_index_or_insert_def keyfile_default_def Let_def)
  ultimately show ?thesis by (simp add: classify_def strip_prefix_def starts_with_def)
qed

lemma trim_start_id: "\<not> starts_with p xs \<Longrightarrow> trim_start_matches p xs = xs"
  by (cases xs) (auto simp: starts_with_def trim_start_matches_def)

lemma classify_entry_line:
  assumes "key_text k" and "value_text v"
  shows "classify n (k @ of_char CHR ''='' # v) = Ok (Entry_line k (strip_cr v))"
proof -
  let ?l = "k @ of_char CHR ''='' # strip_cr v"
  have "strip_cr (k @ of_char CHR ''='' # v) = ?l"
    using strip_cr_append [of v "k @ [of_char CHR ''='']"] strip_cr_append [of "[of_char CHR ''='']" k]
    by (cases "v = []") (simp_all add: strip_cr_def strip_suffix_def)
  moreover obtain c cs where k: "k = c # cs" using assms(1) by (cases k) (auto simp: key_text_def)
  moreover obtain ys where "trim_matches ASCII_WS ?l = c # ys"
    using assms(1) k trim_matches_Cons [of ASCII_WS c] by (auto simp: key_text_def)
  moreover have "position (\<lambda>x. x = of_char CHR ''='') ?l = Some (length k)"
    using assms(1) by (intro position_first) (auto simp: key_text_def)
  moreover have "trim_matches ASCII_WS k = k"
    using assms(1) by (intro trim_matches_id) (auto simp: key_text_def starts_with_def ends_with_def)
  moreover have "trim_start_matches ASCII_WS (strip_cr v) = strip_cr v"
    using assms(2) by (intro trim_start_id, cases v)
      (auto simp: value_text_def starts_with_def strip_cr_def strip_suffix_def split: if_splits)
  ultimately show ?thesis using assms(1)
    by (simp add: classify_def classify_entry_def strip_prefix_def starts_with_def key_text_def)
qed

text \<open>The lines of the written form.\<close>

definition group_lines :: "ustr \<times> (ustr \<times> ustr) list \<Rightarrow> ustr list" where
  "group_lines g = (of_char CHR ''['' # fst g @ [of_char CHR '']'']) # map (\<lambda>(k, v). k @ of_char CHR ''='' # v) (snd g)"

fun file_lines :: "nat \<Rightarrow> kf_assoc \<Rightarrow> ustr list" where
  "file_lines i [] = []"
| "file_lines i (g # gs) = (if i > 0 then [[]] else []) @ group_lines g @ file_lines (i + 1) gs"

lemma display_file_lines: "keyfile_display (kf_of gs) = concat (map (\<lambda>l. l @ [LF]) (file_lines 0 gs))"
proof -
  have "concat (map (\<lambda>(k, v). k @ [of_char CHR ''=''] @ v @ [LF]) es) =
      concat (map (\<lambda>l. l @ [LF]) (map (\<lambda>(k, v). k @ of_char CHR ''='' # v) es))" for es :: "(ustr \<times> ustr) list"
    by (induction es) auto
  then have "display_group \<lparr>kg_name = fst g, kg_entries = snd g\<rparr> = concat (map (\<lambda>l. l @ [LF]) (group_lines g))" for g
    by (simp add: display_group_def group_lines_def)
  then have "display_groups i (map (\<lambda>(n, es). \<lparr>kg_name = n, kg_entries = es\<rparr>) gs) =
      concat (map (\<lambda>l. l @ [LF]) (file_lines i gs))" for i
    by (induction gs arbitrary: i) (auto simp: split_def)
  then show ?thesis by (simp add: keyfile_display_def kf_of_def)
qed

lemma split_written_lines:
  assumes "\<forall>l \<in> set ls. c \<notin> set l"
  shows "split_on c (case strip_suffix c (concat (map (\<lambda>l. l @ [c]) ls)) of Some b \<Rightarrow> b | None \<Rightarrow> concat (map (\<lambda>l. l @ [c]) ls)) =
    (if ls = [] then [[]] else ls)"
proof (cases ls rule: rev_cases)
  case (snoc ms m)
  have "concat (map (\<lambda>l. l @ [c]) ls) = join_on c ls @ [c]" if "ls \<noteq> []" for ls :: "'a list list"
    using that by (induction c ls rule: join_on.induct) auto
  moreover have "ls \<noteq> []" using snoc by simp
  ultimately show ?thesis using assms by (simp add: split_join_on)
qed simp

lemma assoc_lines_append:
  "assoc_lines n (xs @ ys) st = andthen (assoc_lines n xs st) (assoc_lines (n + length xs) ys)"
proof (induction xs arbitrary: n st)
  case (Cons x xs)
  have "assoc_lines (n + 1) (xs @ ys) = (\<lambda>st. andthen (assoc_lines (n + 1) xs st) (assoc_lines (n + 1 + length xs) ys))"
    using Cons by blast
  then show ?case by (simp add: andthen_assoc)
qed simp

lemma update_new: "k \<notin> fst ` set es \<Longrightarrow> AList.update k v es = es @ [(k, v)]"
  by (induction es) auto

lemma on_last_group: "g \<notin> fst ` set gs \<Longrightarrow> on_group g f (gs @ [(g, es)]) = gs @ [(g, f es)]"
  by (force simp: on_group_def intro!: map_idI)

lemma assoc_entries:
  assumes "\<forall>(k, v) \<in> set es'. key_text k \<and> value_text v" and "distinct (map fst (es @ es'))" and "g \<notin> fst ` set gs"
  shows "assoc_lines n (map (\<lambda>(k, v). k @ of_char CHR ''='' # v) es') (gs @ [(g, es)], Some g) =
    Ok (gs @ [(g, es @ map (\<lambda>(k, v). (k, strip_cr v)) es')], Some g)"
  using assms
proof (induction es' arbitrary: n es)
  case (Cons e es')
  obtain k v where e: "e = (k, v)" by (cases e)
  have "classify (n + 1) (k @ of_char CHR ''='' # v) = Ok (Entry_line k (strip_cr v))"
    using Cons.prems(1) e by (intro classify_entry_line) auto
  moreover have "k \<notin> fst ` set es" using Cons.prems(2) e by auto
  ultimately show ?case
    using Cons.IH [of "es @ [(k, strip_cr v)]" "n + 1"] Cons.prems e by (simp add: update_new on_last_group)
qed simp

lemma assoc_groups:
  assumes "assoc_text gs'" and "kf_distinct (gs @ gs')"
  shows "map_ok fst (assoc_lines n (file_lines i gs') (gs, cur)) = Ok (gs @ strip_crs gs')"
  using assms
proof (induction gs' arbitrary: n i gs cur)
  case (Cons g gs')
  obtain name es where g: "g = (name, es)" by (cases g)
  have new: "name \<notin> fst ` set gs" using Cons.prems(2) g by (auto simp: kf_distinct_def)
  have hdr: "classify m (of_char CHR ''['' # name @ [of_char CHR '']'']) = Ok (Header_line name)" for m
    using Cons.prems(1) g by (intro classify_header_line) (auto simp: assoc_text_def)
  have ents: "assoc_lines m (map (\<lambda>(k, v). k @ of_char CHR ''='' # v) es) (gs @ [(name, [])], Some name) =
      Ok (gs @ [(name, map (\<lambda>(k, v). (k, strip_cr v)) es)], Some name)" for m
    using assoc_entries [of es "[]" name gs m] Cons.prems g new by (auto simp: assoc_text_def kf_distinct_def)
  have grp: "assoc_lines m (group_lines g) (gs, cur) =
      Ok (gs @ [(name, map (\<lambda>(k, v). (k, strip_cr v)) es)], Some name)" for m cur
    using hdr ents new by (simp add: group_lines_def g put_group_def)
  have "kf_distinct ((gs @ [(name, map (\<lambda>(k, v). (k, strip_cr v)) es)]) @ gs')"
    using Cons.prems(2) g by (auto simp: kf_distinct_def o_def split_def)
  then have IH: "map_ok fst (assoc_lines m (file_lines (i + 1) gs') (gs @ [(name, map (\<lambda>(k, v). (k, strip_cr v)) es)], Some name)) =
      Ok (gs @ strip_crs (g # gs'))" for m
    using Cons.IH Cons.prems(1) g by (auto simp: assoc_text_def strip_crs_def)
  show ?case using IH grp by (cases "i = 0") (simp_all add: assoc_lines_append classify_blank)
qed (simp add: strip_crs_def)

lemma file_lines_text:
  "assoc_text gs \<Longrightarrow> l \<in> set (file_lines i gs) \<Longrightarrow> LF \<notin> set l"
  by (induction i gs rule: file_lines.induct)
    (auto simp: assoc_text_def group_lines_def name_text_def key_text_def value_text_def split: if_splits)

lemma parse_display:
  assumes "assoc_text gs" and "kf_distinct gs"
  shows "keyfile_parse (keyfile_display (kf_of gs)) = Ok (kf_of (strip_crs gs))"
proof -
  have "assoc_parse (keyfile_display (kf_of gs)) = Ok (strip_crs gs)"
  proof (cases "file_lines 0 gs = []")
    case True
    then have "gs = []" by (cases gs) (auto simp: group_lines_def)
    then show ?thesis by (simp add: assoc_parse_def display_file_lines classify_blank strip_crs_def)
  next
    case False
    then show ?thesis
      using split_written_lines [of "file_lines 0 gs" LF] file_lines_text [OF assms(1)] assoc_groups [of gs "[]" 0 0 None] assms
      by (simp add: assoc_parse_def display_file_lines)
  qed
  then show ?thesis by (simp add: keyfile_parse_assoc)
qed

subsection \<open>Every key file of the program\<close>

text \<open>Key files come from the empty file or a parse and change through the setters and removals only.\<close>

inductive kf_reach :: "keyfile \<Rightarrow> bool" where
  reach_default: "kf_reach keyfile_default"
| reach_parse: "keyfile_parse input = Ok kf \<Longrightarrow> kf_reach kf"
| reach_set_value: "kf_reach kf \<Longrightarrow> set_value kf g k v = Ok kf' \<Longrightarrow> kf_reach kf'"
| reach_set_string: "kf_reach kf \<Longrightarrow> set_string kf g k v = Ok kf' \<Longrightarrow> kf_reach kf'"
| reach_set_string_list: "kf_reach kf \<Longrightarrow> set_string_list kf g k items = Ok kf' \<Longrightarrow> kf_reach kf'"
| reach_remove_key: "kf_reach kf \<Longrightarrow> kf_reach (fst (remove_key kf g k))"
| reach_remove_group: "kf_reach kf \<Longrightarrow> kf_reach (fst (remove_group kf g))"

definition kf_inv :: "keyfile \<Rightarrow> bool" where
  "kf_inv kf \<longleftrightarrow> (\<exists>gs. kf = kf_of gs \<and> kf_distinct gs \<and> assoc_text gs)"

lemma kf_invI: "kf_distinct gs \<Longrightarrow> assoc_text gs \<Longrightarrow> kf_inv (kf_of gs)"
  by (auto simp: kf_inv_def)

lemma kf_invE:
  assumes "kf_inv kf"
  obtains gs where "kf = kf_of gs" "kf_distinct gs" "assoc_text gs"
  using assms by (auto simp: kf_inv_def)

lemma classify_text:
  assumes "LF \<notin> set raw" and "classify n raw = Ok l"
  shows "case l of Blank_line \<Rightarrow> True | Header_line name \<Rightarrow> name_text name | Entry_line k v \<Rightarrow> key_text k \<and> value_text v"
proof -
  define line where "line = strip_cr raw"
  define trimmed where "trimmed = trim_matches ASCII_WS line"
  have lf: "LF \<notin> set line" using assms(1) strip_cr_set by (auto simp: line_def)
  have tr: "set trimmed \<subseteq> set line" by (simp add: trimmed_def trim_matches_props)
  consider "l = Blank_line" | rest where "trimmed = of_char CHR ''['' # rest" "classify_header n rest = Ok l"
    | "trimmed \<noteq> []" "hd trimmed \<noteq> of_char CHR ''#''" "hd trimmed \<noteq> of_char CHR ''[''" "classify_entry n line = Ok l"
  proof (cases "trimmed = [] \<or> starts_with (\<lambda>c. c = of_char CHR ''#'') trimmed")
    case True
    then show ?thesis using that(1) assms(2) by (simp add: classify_def Let_def flip: line_def trimmed_def)
  next
    case False
    then have c: "(case strip_prefix (of_char CHR ''['') trimmed of Some rest \<Rightarrow> classify_header n rest
        | None \<Rightarrow> classify_entry n line) = Ok l"
      using assms(2) by (simp add: classify_def Let_def flip: line_def trimmed_def)
    show ?thesis
    proof (cases "strip_prefix (of_char CHR ''['') trimmed")
      case None
      then have "hd trimmed \<noteq> of_char CHR ''[''" using False by (cases trimmed) (simp_all add: strip_prefix_cases)
      then show ?thesis using that(3) c None False by (auto simp: starts_with_def)
    next
      case (Some rest)
      then have "trimmed = of_char CHR ''['' # rest" by (simp only: strip_prefix_cases)
      then show ?thesis using that(2) c unfolding Some by simp
    qed
  qed
  then show ?thesis
  proof cases
    case (2 rest)
    then obtain name where "l = Header_line name" "name \<noteq> []" "of_char CHR ''['' \<notin> set name" "of_char CHR '']'' \<notin> set name"
        "set name \<subseteq> set rest"
      by (auto simp: classify_header_def parse_header_def result_simps Let_def group_index_or_insert_def keyfile_default_def
          split: option.splits if_splits dest: in_set_takeD)
    then show ?thesis using 2 lf tr by (auto simp: name_text_def)
  next
    case 3
    obtain eq where eq: "position (\<lambda>c. c = of_char CHR ''='') line = Some eq"
        "trim_matches ASCII_WS (take eq line) \<noteq> []"
        "l = Entry_line (trim_matches ASCII_WS (take eq line)) (trim_start_matches ASCII_WS (drop (eq + 1) line))"
      using 3(4) by (auto simp: classify_entry_def Let_def split: option.splits if_splits)
    let ?k = "trim_matches ASCII_WS (take eq line)" and ?v = "trim_start_matches ASCII_WS (drop (eq + 1) line)"
    have "line = take eq line @ drop eq line" by simp
    moreover have ne: "dropWhile ASCII_WS (take eq line) \<noteq> []"
      using eq(2) unfolding trim_matches_def trim_start_matches_def trim_end_matches_def
      by (metis dropWhile.simps(1) rev.simps(1))
    ultimately have "hd (dropWhile ASCII_WS line) = hd (dropWhile ASCII_WS (take eq line))"
      by (metis dropWhile_append1 dropWhile_eq_Nil_conv hd_append2)
    then have hd: "hd ?k = hd trimmed" using 3(1) eq(2) trim_matches_props(4) unfolding trimmed_def by metis
    have sub: "set ?k \<subseteq> set (take eq line)" by (rule trim_matches_props(3))
    then have "of_char CHR ''='' \<notin> set ?k" "LF \<notin> set ?k"
      using eq(1) lf by (auto simp: position_Some dest: in_set_takeD)
    moreover have "\<not> ASCII_WS (hd ?k)" "\<not> ASCII_WS (last ?k)"
      using eq(2) trim_matches_props(1,2) [of ASCII_WS "take eq line"] by (auto simp: starts_with_def ends_with_def)
    moreover have "value_text ?v"
      using lf hd_dropWhile [of ASCII_WS "drop (eq + 1) line"]
      by (auto simp: value_text_def trim_start_matches_def starts_with_def dest: set_dropWhileD in_set_dropD)
    ultimately show ?thesis using eq hd 3 by (simp add: key_text_def)
  qed simp
qed

lemma assoc_text_put_group: "assoc_text gs \<Longrightarrow> name_text n \<Longrightarrow> assoc_text (put_group n gs)"
  by (auto simp: assoc_text_def put_group_def)

lemma assoc_text_update:
  assumes "assoc_text gs" and "key_text k" and "value_text v"
  shows "assoc_text (on_group g (AList.update k v) gs)"
proof -
  have sub: "x = (k, v) \<or> x \<in> set es" if "x \<in> set (AList.update k v es)" for x and es :: "(ustr \<times> ustr) list"
    using that by (induction es) (auto split: if_splits)
  show ?thesis
    using assms unfolding assoc_text_def on_group_def by (auto split: if_splits dest!: sub)
qed

lemma assoc_text_delete: "assoc_text gs \<Longrightarrow> assoc_text (on_group g (AList.delete k) gs)"
  unfolding assoc_text_def on_group_def AList.delete_eq by (auto split: if_splits)

lemma assoc_lines_text:
  "\<forall>l \<in> set ls. LF \<notin> set l \<Longrightarrow> assoc_text (fst st) \<Longrightarrow> assoc_lines n ls st = Ok st' \<Longrightarrow> assoc_text (fst st')"
proof (induction ls arbitrary: n st)
  case (Cons l ls)
  obtain x st1 where s: "classify (n + 1) l = Ok x" "assoc_step (n + 1) x st = Ok st1" "assoc_lines (n + 1) ls st1 = Ok st'"
    using Cons.prems(3) by (auto simp: result_simps)
  have "assoc_text (fst st1)"
    using classify_text [OF _ s(1)] s(2) Cons.prems(1,2)
    by (cases x; cases st) (auto intro: assoc_text_put_group assoc_text_update split: option.splits)
  then show ?case using Cons.IH [OF _ _ s(3)] Cons.prems(1) by auto
qed simp

lemma kf_inv_parse: "keyfile_parse input = Ok kf \<Longrightarrow> kf_inv kf"
proof -
  assume "keyfile_parse input = Ok kf"
  then obtain gs where gs: "assoc_parse input = Ok gs" "kf = kf_of gs" by (auto simp: keyfile_parse_assoc(1) result_simps)
  moreover have "assoc_text gs"
    using gs(1) split_on_no_sep assoc_lines_text [where st = "([], None)" and n = 0]
    by (fastforce simp: assoc_parse_def result_simps assoc_text_def)
  ultimately show ?thesis using keyfile_parse_assoc(2) by (auto simp: kf_inv_def)
qed

lemma kf_inv_set:
  assumes "kf_inv kf" and "set_value kf g k v = Ok kf'"
  shows "kf_inv kf'"
proof -
  obtain gs where gs: "kf = kf_of gs" "kf_distinct gs" "assoc_text gs" using assms(1) by (auto simp: kf_inv_def)
  have v: "validate_group g = Ok ()" "validate_key k = Ok ()" "validate_value v = Ok ()"
      and kf': "kf' = kf_of (on_group g (AList.update k v) (put_group g gs))"
    using assms(2) gs by (auto simp: set_value_of)
  have "name_text g" "key_text k" "value_text v"
    using v by (auto simp: validate_group_def validate_key_def validate_value_def name_text_def key_text_def value_text_def
        starts_with_def ends_with_def ASCII_WS_def split: if_splits)
  then show ?thesis unfolding kf' using gs
    by (intro kf_invI kf_distinct_on_group kf_distinct_put_group distinct_update assoc_text_update assoc_text_put_group)
qed

lemma kf_reach_inv: "kf_reach kf \<Longrightarrow> kf_inv kf"
proof (induction rule: kf_reach.induct)
  case reach_default
  show ?case by (auto simp: kf_inv_def kf_of_def keyfile_default_def kf_distinct_def assoc_text_def intro!: exI [of _ "[]"])
next
  case (reach_remove_key kf g k)
  from reach_remove_key.IH obtain gs where "kf = kf_of gs" "kf_distinct gs" "assoc_text gs" by (rule kf_invE)
  then show ?case by (simp add: remove_key_of kf_invI kf_distinct_on_group distinct_delete assoc_text_delete)
next
  case (reach_remove_group kf g)
  from reach_remove_group.IH obtain gs where "kf = kf_of gs" "kf_distinct gs" "assoc_text gs" by (rule kf_invE)
  moreover from this have "assoc_text (AList.delete g gs)" by (auto simp: assoc_text_def AList.delete_eq)
  ultimately show ?case by (simp add: remove_group_of kf_invI kf_distinct_delete)
qed (simp_all add: kf_inv_parse kf_inv_set set_string_def set_string_list_def)

definition ends_in_cr :: "keyfile \<Rightarrow> bool" where
  "ends_in_cr kf \<longleftrightarrow> (\<exists>g \<in> set (kf_groups kf). \<exists>(k, v) \<in> set (kg_entries g). ends_with (\<lambda>c. c = CR) v)"

lemma kf_of_inj: "kf_of gs = kf_of gs' \<longleftrightarrow> gs = gs'"
proof
  have "map (\<lambda>g. (kg_name g, kg_entries g)) (kf_groups (kf_of gs)) = gs" for gs by (simp add: kf_of_def o_def split_def)
  then show "kf_of gs = kf_of gs' \<Longrightarrow> gs = gs'" by metis
qed simp

lemma strip_crs_id: "strip_crs gs = gs \<longleftrightarrow> \<not> ends_in_cr (kf_of gs)"
proof -
  have "strip_crs gs = gs \<longleftrightarrow> (\<forall>(n, es) \<in> set gs. map (\<lambda>(k, v). (k, strip_cr v)) es = es)"
    by (induction gs) (auto simp: strip_crs_def)
  also have "\<dots> \<longleftrightarrow> (\<forall>(n, es) \<in> set gs. \<forall>(k, v) \<in> set es. strip_cr v = v)"
  proof -
    have "map (\<lambda>(k, v). (k, strip_cr v)) es = es \<longleftrightarrow> (\<forall>(k, v) \<in> set es. strip_cr v = v)" for es :: "(ustr \<times> ustr) list"
      by (induction es) auto
    then show ?thesis by simp
  qed
  finally show ?thesis unfolding strip_cr_id [symmetric] by (auto simp: ends_in_cr_def kf_of_def split_def)
qed

lemma reach_display:
  assumes "kf_reach kf"
  shows "keyfile_parse (keyfile_display kf) = Ok kf \<longleftrightarrow> \<not> ends_in_cr kf"
proof -
  obtain gs where gs: "kf = kf_of gs" "kf_distinct gs" "assoc_text gs" using kf_reach_inv [OF assms] by (auto simp: kf_inv_def)
  then show ?thesis using parse_display [OF gs(3,2)] by (simp add: kf_of_inj strip_crs_id)
qed


subsection \<open>Properties\<close>

text \<open>C14: writing a key file of the program and parsing the text gives the same key file exactly when no value
  ends with a carriage return. The setters refuse such values, so only a parsed value can end so.\<close>

theorem keyfile_display_parses_back:
  assumes "kf_reach kf"
  shows "keyfile_parse (keyfile_display kf) = Ok kf \<longleftrightarrow> \<not> ends_in_cr kf"
  using assms by (rule reach_display)

theorem keyfile_display_parses_back_witness:
  "keyfile_display (kf_of [(lit ''core'', [(lit ''mode'', lit ''bare'')])]) = lit ''[core]'' @ LF # lit ''mode=bare'' @ [LF] \<and>
   keyfile_parse (lit ''[core]'' @ LF # lit ''mode=bare'' @ [LF]) = Ok (kf_of [(lit ''core'', [(lit ''mode'', lit ''bare'')])])"
proof -
  let ?gs = "[(lit ''core'', [(lit ''mode'', lit ''bare'')])] :: kf_assoc"
  have disp: "keyfile_display (kf_of ?gs) = lit ''[core]'' @ LF # lit ''mode=bare'' @ [LF]" by code_simp
  have e: "kf_of [] = keyfile_default" by (simp add: kf_of_def keyfile_default_def)
  have s: "set_value keyfile_default (lit ''core'') (lit ''mode'') (lit ''bare'') = Ok (kf_of ?gs)"
    unfolding e [symmetric] set_value_of [of "[]", unfolded kf_distinct_def, simplified]
    by (simp add: validate_group_def validate_key_def validate_value_def starts_with_def ends_with_def ASCII_WS_def
        put_group_def on_group_def)
  have reach: "kf_reach (kf_of ?gs)" using s by (blast intro: kf_reach.intros)
  have "\<not> ends_in_cr (kf_of ?gs)" by (simp add: ends_in_cr_def kf_of_def ends_with_def)
  then have "keyfile_parse (keyfile_display (kf_of ?gs)) = Ok (kf_of ?gs)"
    using keyfile_display_parses_back [OF reach] by blast
  then show ?thesis using disp unfolding disp by blast
qed



text \<open>C17: the two hash maps of the parser never change its result: the parser gives the key file, or the error,
  of a parse that works on association lists alone.\<close>

theorem keyfile_parse_needs_no_maps: "keyfile_parse input = map_ok kf_of (assoc_parse input)"
  by (rule keyfile_parse_assoc(1))

text \<open>C15: a successful \<open>set_string\<close> makes \<open>get_string\<close> return the same text, whatever its characters, and
  changes the value of no other key; \<open>set_string_list\<close> and \<open>get_string_list\<close> do so for lists.\<close>

theorem keyfile_set_get:
  assumes "kf_reach kf"
  shows "(set_string kf g k v = Ok kf' \<longrightarrow> get_string kf' g k = Ok (Some v) \<and>
      (\<forall>g' k'. (g', k') \<noteq> (g, k) \<longrightarrow> get_value kf' g' k' = get_value kf g' k')) \<and>
    (set_string_list kf g k items = Ok kf'' \<longrightarrow> get_string_list kf'' g k = Ok (Some items) \<and>
      (\<forall>g' k'. (g', k') \<noteq> (g, k) \<longrightarrow> get_value kf'' g' k' = get_value kf g' k'))"
proof -
  obtain gs where gs: "kf = kf_of gs" "kf_distinct gs" using kf_reach_inv [OF assms] by (auto simp: kf_inv_def)
  then show ?thesis
    using kf_find_set [OF gs(2)] unescape_escape_from [of True v] split_list_items [of items]
    by (auto simp: set_string_def set_string_list_def get_string_def get_string_list_def get_value_def set_value_of escape_def)
qed

theorem keyfile_set_get_witness:
  "\<exists>kf'. set_string keyfile_default (lit ''core'') (lit ''mode'') (SPACE # lit ''a;b'' @ [LF]) = Ok kf' \<and>
     get_string kf' (lit ''core'') (lit ''mode'') = Ok (Some (SPACE # lit ''a;b'' @ [LF]))"
proof -
  have "is_ok (set_string keyfile_default (lit ''core'') (lit ''mode'') (SPACE # lit ''a;b'' @ [LF]))" by code_simp
  then obtain kf' where "set_string keyfile_default (lit ''core'') (lit ''mode'') (SPACE # lit ''a;b'' @ [LF]) = Ok kf'"
    by (auto simp: is_ok_iff)
  then show ?thesis using keyfile_set_get [OF reach_default] by blast
qed

text \<open>A setter never fails because of the value that \<open>set_string\<close> or \<open>set_string_list\<close> escapes: it fails only
  for the group name or the key.\<close>

lemma keyfile_escaped_value_valid:
  "is_ok (set_string kf g k v) \<longleftrightarrow> is_ok (validate_group g) \<and> is_ok (validate_key k)"
  by (auto simp: set_string_def set_value_def is_ok_iff result_simps validate_escape Let_def split: prod.splits)

text \<open>C40: a parsed value can end with a carriage return, and then the written text parses to another key file.\<close>

theorem keyfile_display_loses_cr:
  "\<exists>input kf kf'. keyfile_parse input = Ok kf \<and> keyfile_parse (keyfile_display kf) = Ok kf' \<and>
     get_value kf (lit ''a'') (lit ''k'') = Some (lit ''v'' @ [CR]) \<and> get_value kf' (lit ''a'') (lit ''k'') = Some (lit ''v'')"
proof -
  let ?input = "lit ''[a]'' @ LF # lit ''k=v'' @ [CR, CR, LF]"
  have "is_ok (keyfile_parse ?input)" by code_simp
  moreover have "is_ok (andthen (keyfile_parse ?input) (\<lambda>kf. keyfile_parse (keyfile_display kf)))" by code_simp
  moreover have "map_ok (\<lambda>kf. get_value kf (lit ''a'') (lit ''k'')) (keyfile_parse ?input) = Ok (Some (lit ''v'' @ [CR]))"
    by code_simp
  moreover have "map_ok (\<lambda>kf. get_value kf (lit ''a'') (lit ''k'')) (andthen (keyfile_parse ?input) (\<lambda>kf. keyfile_parse (keyfile_display kf))) =
      Ok (Some (lit ''v''))"
    by code_simp
  ultimately show ?thesis by (auto simp: is_ok_iff result_simps) (metis (no_types))
qed

end
