(* ===== verification/Core_Filehdr.thy ===== *)
theory Core_Filehdr
  imports Core_Dirmeta
begin

section \<open>File headers, framing, and the content checksum\<close>

text \<open>
  \<^verbatim>\<open>crates/ostrya-core/src/filehdr.rs\<close>. The header of a content object has three serialized forms: the
  content form \<^verbatim>\<open>(uuuusa(ayay))\<close>, the archive form \<^verbatim>\<open>(tuuuusa(ayay))\<close> with the uncompressed size, and
  the stat form \<^verbatim>\<open>(uuua(ayay))\<close> of a bare-user file. A framed header has its length in four big-endian
  bytes and four zero bytes before it. The SHA-256 state of the \<open>sha2\<close> crate is a parameter: a
  \<open>hasher\<close> with a start, an update and a finish.
\<close>

record file_header =
  fh_uid :: u32
  fh_gid :: u32
  fh_mode :: u32
  fh_symlink_target :: bytes
  fh_xattrs :: xattrs

definition is_symlink :: "file_header \<Rightarrow> bool" where
  "is_symlink h \<longleftrightarrow> fh_mode h AND S_IFMT = S_IFLNK"

definition fh_validate :: "file_header \<Rightarrow> (core_error, unit) result" where
  "fh_validate h =
     (if fh_mode h AND S_IFMT = S_IFREG then
        if fh_symlink_target h = [] then Ok ()
        else Err (InvalidFileHeader ''regular file with a symlink target'')
      else if fh_mode h AND S_IFMT = S_IFLNK then Ok ()
      else Err (InvalidFileHeader ''mode is not a regular file or symlink''))"

definition fh_build :: "u32 \<Rightarrow> u32 \<Rightarrow> u32 \<Rightarrow> u32 \<Rightarrow> bytes \<Rightarrow> bytes \<Rightarrow> (core_error, file_header) result" where
  "fh_build uid gid mode rdev target xattrs =
     (if rdev \<noteq> 0 then Err (InvalidFileHeader ''rdev is not zero'')
      else
        andthen (xattrs_from_gvariant xattrs) (\<lambda>xs.
        let header = \<lparr>fh_uid = uid, fh_gid = gid, fh_mode = mode, fh_symlink_target = target, fh_xattrs = xs\<rparr> in
        andthen (fh_validate header) (\<lambda>_. Ok header)))"

text \<open>The members of the content form and of the archive form.\<close>

abbreviation header_body_enc :: "(u32 \<times> u32 \<times> u32 \<times> u32 \<times> bytes \<times> xattrs) enc_body" where
  "header_body_enc \<equiv>
     enc_member be32_enc (enc_member be32_enc (enc_member be32_enc (enc_member be32_enc
       (enc_member str_enc (enc_last xattrs_enc)))))"

abbreviation header_body_dec :: "'x decoder \<Rightarrow> (u32 \<times> u32 \<times> u32 \<times> u32 \<times> bytes \<times> 'x) dec_body" where
  "header_body_dec d \<equiv>
     dec_member be32_dec (dec_member be32_dec (dec_member be32_dec (dec_member be32_dec
       (dec_member str_dec (dec_last d)))))"

definition fh_parse :: "bytes \<Rightarrow> (core_error, file_header) result" where
  "fh_parse data =
     andthen (from_gv (decode (tuple_dec (header_body_dec bytes_dec)) data))
       (\<lambda>(uid, gid, mode, rdev, target, xattrs). fh_build uid gid mode rdev target xattrs)"

definition fh_enc :: "file_header encoder" where
  "fh_enc = \<lparr>e_alignment = 4, e_fixed = None,
     encode = (\<lambda>h out. encode (tuple_enc header_body_enc)
       (fh_uid h, fh_gid h, fh_mode h, 0, fh_symlink_target h, fh_xattrs h) out)\<rparr>"

definition fh_serialize :: "file_header \<Rightarrow> (core_error, bytes) result" where
  "fh_serialize h = andthen (fh_validate h) (\<lambda>_. from_gv (encode_to_vec fh_enc h))"

definition fh_parse_stat_metadata :: "bytes \<Rightarrow> (core_error, file_header) result" where
  "fh_parse_stat_metadata data =
     andthen (from_gv (decode (dirmeta_tuple_dec bytes_dec) data))
       (\<lambda>(uid, gid, mode, xattrs). fh_build uid gid mode 0 [] xattrs)"

definition fh_serialize_stat_metadata :: "file_header \<Rightarrow> (core_error, bytes) result" where
  "fh_serialize_stat_metadata h =
     andthen (fh_validate h) (\<lambda>_.
       from_gv (encode_to_vec dirmeta_tuple_enc (fh_uid h, fh_gid h, fh_mode h, fh_xattrs h)))"

definition fh_parse_archive :: "bytes \<Rightarrow> (core_error, file_header \<times> u64) result" where
  "fh_parse_archive data =
     andthen (from_gv (decode (tuple_dec (dec_member be64_dec (header_body_dec bytes_dec))) data))
       (\<lambda>(sz, uid, gid, mode, rdev, target, xattrs).
          andthen (fh_build uid gid mode rdev target xattrs) (\<lambda>h. Ok (h, sz)))"

definition archive_fields :: "file_header \<Rightarrow> u64 \<Rightarrow> u64 \<times> u32 \<times> u32 \<times> u32 \<times> u32 \<times> bytes \<times> xattrs" where
  "archive_fields h sz = (sz, fh_uid h, fh_gid h, fh_mode h, 0, fh_symlink_target h, fh_xattrs h)"

abbreviation archive_enc :: "(u64 \<times> u32 \<times> u32 \<times> u32 \<times> u32 \<times> bytes \<times> xattrs) encoder" where
  "archive_enc \<equiv> tuple_enc (enc_member be64_enc header_body_enc)"

definition fh_serialize_archive :: "file_header \<Rightarrow> u64 \<Rightarrow> (core_error, bytes) result" where
  "fh_serialize_archive h sz =
     andthen (fh_validate h) (\<lambda>_. from_gv (encode_to_vec archive_enc (archive_fields h sz)))"

definition u32_try_from :: "core_error \<Rightarrow> nat \<Rightarrow> (core_error, u32) result" where
  "u32_try_from e n = (if n < 2 ^ 32 then Ok (of_nat n) else Err e)"

definition write_framed_with :: "bytes \<Rightarrow> (bytes \<Rightarrow> (gv_error, bytes) result) \<Rightarrow> (core_error, bytes) result" where
  "write_framed_with out enc =
     (let out = [] @ replicate 8 0 in
      andthen (from_gv (enc out)) (\<lambda>out.
      andthen (u32_try_from (InvalidFileHeader ''header exceeds the framing length limit'') (length out - 8)) (\<lambda>len.
      Ok (to_be_bytes len @ drop 4 out))))"

definition write_framed :: "file_header \<Rightarrow> bytes \<Rightarrow> (core_error, bytes) result" where
  "write_framed h out = andthen (fh_validate h) (\<lambda>_. write_framed_with out (encode fh_enc h))"

definition write_framed_archive :: "file_header \<Rightarrow> u64 \<Rightarrow> bytes \<Rightarrow> (core_error, bytes) result" where
  "write_framed_archive h sz out =
     andthen (fh_validate h) (\<lambda>_. write_framed_with out (encode archive_enc (archive_fields h sz)))"

definition frame :: "bytes \<Rightarrow> (core_error, bytes) result" where
  "frame header =
     andthen (u32_try_from (InvalidFileHeader ''header exceeds the framing length limit'') (length header)) (\<lambda>len.
       Ok (to_be_bytes len @ replicate 4 0 @ header))"

definition split_framed :: "bytes \<Rightarrow> (core_error, bytes \<times> bytes) result" where
  "split_framed data =
     (if length data < 8 then Err (InvalidFileHeader ''framed stream is shorter than its length prefix'')
      else
        let len = unat (from_be_bytes (take 4 data) :: u32) in
        if slice data 4 8 \<noteq> replicate 4 0 then Err (InvalidFileHeader ''framing padding is not zero'')
        else if 8 + len < usize_bound \<and> 8 + len \<le> length data
        then Ok (slice data 8 (8 + len), drop (8 + len) data)
        else Err (InvalidFileHeader ''framed header length is out of bounds''))"

subsection \<open>The content hasher\<close>

record 'h hasher =
  h_new :: 'h
  h_update :: "'h \<Rightarrow> bytes \<Rightarrow> 'h"
  h_finalize :: "'h \<Rightarrow> bytes"

definition content_hasher_new :: "'h hasher \<Rightarrow> file_header \<Rightarrow> (core_error, 'h) result" where
  "content_hasher_new H header =
     andthen (fh_serialize header) (\<lambda>serialized.
     andthen (u32_try_from (InvalidFileHeader ''header exceeds the framing length limit'') (length serialized)) (\<lambda>len.
     Ok (h_update H (h_update H (h_update H (h_new H) (to_be_bytes len)) (replicate 4 0)) serialized)))"

definition content_hasher_update :: "'h hasher \<Rightarrow> 'h \<Rightarrow> bytes \<Rightarrow> 'h" where
  "content_hasher_update H h payload = h_update H h payload"

definition content_hasher_finish :: "'h hasher \<Rightarrow> 'h \<Rightarrow> checksum" where
  "content_hasher_finish H h = h_finalize H h"

subsection \<open>The three forms parse back\<close>

definition fh_mode_ok :: "file_header \<Rightarrow> bool" where
  "fh_mode_ok h \<longleftrightarrow> (fh_mode h AND S_IFMT = S_IFREG \<and> fh_symlink_target h = []) \<or> fh_mode h AND S_IFMT = S_IFLNK"

lemma fh_validate_Ok [result_simps]: "fh_validate h = Ok u \<longleftrightarrow> fh_mode_ok h"
  by (auto simp: fh_validate_def fh_mode_ok_def S_IFREG_def S_IFLNK_def)

lemma fh_build_Ok [result_simps]:
  "fh_build uid gid mode rdev target xb = Ok h \<longleftrightarrow>
     rdev = 0 \<and> fh_uid h = uid \<and> fh_gid h = gid \<and> fh_mode h = mode \<and> fh_symlink_target h = target \<and>
     xattrs_from_gvariant xb = Ok (fh_xattrs h) \<and> fh_mode_ok h"
  by (cases h) (auto simp: fh_build_def Let_def andthen_Ok fh_validate_Ok)

lemmas header_members = be32_member [OF be32_member [OF be32_member [OF be32_member [OF str_member [OF xattrs_last]]]]]

lemmas header_via = via_same [OF via_same [OF via_same [OF via_same [OF via_same [OF body_via_last [OF xattrs_dec_via]]]]]]

interpretation header_c: gv_codec "tuple_enc header_body_enc" "tuple_dec (header_body_dec xattrs_dec)"
  "\<lambda>(u, g, m, r, t, xs). utf8_valid t \<and> xattrs_ok xs"
  using codec_members.gv_codec_tuple [OF header_members] by (simp add: case_prod_unfold)

interpretation archive_c: gv_codec archive_enc "tuple_dec (dec_member be64_dec (header_body_dec xattrs_dec))"
  "\<lambda>(s, u, g, m, r, t, xs). utf8_valid t \<and> xattrs_ok xs"
  using codec_members.gv_codec_tuple [OF be64_member [OF header_members]] by (simp add: case_prod_unfold)

lemma header_tuple_iff:
  assumes "length data < usize_bound"
  shows "(\<exists>xb. decode (tuple_dec (header_body_dec bytes_dec)) data = Ok (u, g, m, r, t, xb) \<and>
      xattrs_from_gvariant xb = Ok xs) \<longleftrightarrow>
    utf8_valid t \<and> xattrs_ok xs \<and> encode (tuple_enc header_body_enc) (u, g, m, r, t, xs) [] = Ok data"
  using header_c.dec_iff [OF assms, of "(u, g, m, r, t, xs)"]
  unfolding dec_viaD [OF dec_via_tuple [OF header_via]] by (auto simp: result_simps)

lemma archive_tuple_iff:
  assumes "length data < usize_bound"
  shows "(\<exists>xb. decode (tuple_dec (dec_member be64_dec (header_body_dec bytes_dec))) data = Ok (s, u, g, m, r, t, xb) \<and>
      xattrs_from_gvariant xb = Ok xs) \<longleftrightarrow>
    utf8_valid t \<and> xattrs_ok xs \<and> encode archive_enc (s, u, g, m, r, t, xs) [] = Ok data"
  using archive_c.dec_iff [OF assms, of "(s, u, g, m, r, t, xs)"]
  unfolding dec_viaD [OF dec_via_tuple [OF via_same [OF header_via]]] by (auto simp: result_simps)

definition fh_typed :: "file_header \<Rightarrow> bool" where
  "fh_typed h \<longleftrightarrow> utf8_valid (fh_symlink_target h) \<and> xattrs_ok (fh_xattrs h)"

lemma fh_parse_iff:
  assumes "length data < usize_bound"
  shows "fh_parse data = Ok h \<longleftrightarrow> fh_typed h \<and> fh_serialize h = Ok data"
proof -
  have "fh_parse data = Ok h \<longleftrightarrow> fh_mode_ok h \<and>
      (\<exists>xb. decode (tuple_dec (header_body_dec bytes_dec)) data =
        Ok (fh_uid h, fh_gid h, fh_mode h, 0, fh_symlink_target h, xb) \<and> xattrs_from_gvariant xb = Ok (fh_xattrs h))"
    by (auto simp: fh_parse_def result_simps)
  then show ?thesis
    using header_tuple_iff [OF assms]
    by (auto simp: fh_serialize_def fh_enc_def encode_to_vec_def fh_typed_def result_simps)
qed

lemma fh_parse_archive_iff:
  assumes "length data < usize_bound"
  shows "fh_parse_archive data = Ok (h, sz) \<longleftrightarrow> fh_typed h \<and> fh_serialize_archive h sz = Ok data"
proof -
  have "fh_parse_archive data = Ok (h, sz) \<longleftrightarrow> fh_mode_ok h \<and>
      (\<exists>xb. decode (tuple_dec (dec_member be64_dec (header_body_dec bytes_dec))) data =
        Ok (sz, fh_uid h, fh_gid h, fh_mode h, 0, fh_symlink_target h, xb) \<and> xattrs_from_gvariant xb = Ok (fh_xattrs h))"
    by (auto simp: fh_parse_archive_def result_simps)
  then show ?thesis
    using archive_tuple_iff [OF assms]
    by (auto simp: fh_serialize_archive_def archive_fields_def encode_to_vec_def fh_typed_def result_simps)
qed

lemma fh_parse_stat_iff:
  assumes "length data < usize_bound"
  shows "fh_parse_stat_metadata data = Ok h \<longleftrightarrow>
    xattrs_ok (fh_xattrs h) \<and> fh_symlink_target h = [] \<and> fh_serialize_stat_metadata h = Ok data"
proof -
  have "fh_parse_stat_metadata data = Ok h \<longleftrightarrow> fh_mode_ok h \<and> fh_symlink_target h = [] \<and>
      (\<exists>xb. decode (dirmeta_tuple_dec bytes_dec) data = Ok (fh_uid h, fh_gid h, fh_mode h, xb) \<and>
        xattrs_from_gvariant xb = Ok (fh_xattrs h))"
    by (auto simp: fh_parse_stat_metadata_def result_simps)
  then show ?thesis
    using dirmeta_tuple_iff [OF assms]
    by (auto simp: fh_serialize_stat_metadata_def encode_to_vec_def result_simps)
qed

subsection \<open>Framing\<close>

lemma u32_try_from_Ok [result_simps]: "u32_try_from e n = Ok w \<longleftrightarrow> n < 2 ^ 32 \<and> w = of_nat n"
  by (auto simp: u32_try_from_def)

lemma unat_of_nat_u32: "n < 2 ^ 32 \<Longrightarrow> unat (of_nat n :: u32) = n"
  by (simp add: unat_of_nat take_bit_nat_eq_self)

lemma split_framed_iff: "split_framed data = Ok (hdr, payload) \<longleftrightarrow> (\<exists>f. frame hdr = Ok f \<and> data = f @ payload)"
proof
  assume "split_framed data = Ok (hdr, payload)"
  then have len: "8 \<le> length data" and pad: "slice data 4 8 = replicate 4 0"
    and fits: "8 + unat (from_be_bytes (take 4 data) :: u32) \<le> length data"
    and hdr: "hdr = slice data 8 (8 + unat (from_be_bytes (take 4 data) :: u32))"
    and payload: "payload = drop (8 + unat (from_be_bytes (take 4 data) :: u32)) data"
    by (auto simp: split_framed_def Let_def not_less split: if_splits)
  let ?w = "from_be_bytes (take 4 data) :: u32"
  have lw: "length hdr = unat ?w" using hdr fits by (simp add: slice_def)
  have w: "to_be_bytes ?w = take 4 data" using len by (simp add: to_from_be_bytes)
  have "drop 8 data = hdr @ payload"
    unfolding hdr payload slice_def by (simp add: add.commute [of 8] drop_drop [symmetric] del: drop_drop)
  then have "data = take 4 data @ slice data 4 8 @ hdr @ payload"
    using append_take_drop_id [of 8 data] take_slice [of 4 8 data] by simp
  moreover have "unat ?w < 2 ^ 32" using unsigned_less [of ?w] by simp
  ultimately have "frame hdr = Ok (take 4 data @ replicate 4 0 @ hdr) \<and> data = (take 4 data @ replicate 4 0 @ hdr) @ payload"
    using w pad lw by (simp add: frame_def u32_try_from_def)
  then show "\<exists>f. frame hdr = Ok f \<and> data = f @ payload" by blast
next
  assume "\<exists>f. frame hdr = Ok f \<and> data = f @ payload"
  then have len: "length hdr < 2 ^ 32"
    and data: "data = to_be_bytes (of_nat (length hdr) :: u32) @ replicate 4 0 @ hdr @ payload"
    by (auto simp: frame_def result_simps)
  have "take 4 data = to_be_bytes (of_nat (length hdr) :: u32)" "drop 4 data = replicate 4 0 @ hdr @ payload"
    by (simp_all add: data)
  moreover have "drop 8 data = hdr @ payload" by (simp add: data)
  ultimately show "split_framed data = Ok (hdr, payload)"
    using len by (simp add: split_framed_def slice_def from_to_be_bytes unat_of_nat_u32 data)
qed

lemma header_align: "e_alignment (tuple_enc header_body_enc) = 4" "e_alignment archive_enc = 8"
  by code_simp+

lemma write_framed_with_eq:
  assumes "enc (replicate 8 0) = map_ok (\<lambda>bs. replicate 8 0 @ bs) (enc [])"
  shows "write_framed_with out enc = andthen (from_gv (enc [])) frame"
proof (cases "enc []")
  case (Ok bs)
  moreover have "drop 4 (replicate 8 0 @ bs) = replicate 4 0 @ bs" by simp
  ultimately show ?thesis
    by (simp add: write_framed_with_def Let_def assms frame_def)
qed (simp add: write_framed_with_def Let_def assms)

lemma write_framed_eq: "write_framed h out = andthen (fh_serialize h) frame"
proof -
  have "encode fh_enc h (replicate 8 0) = map_ok (\<lambda>bs. replicate 8 0 @ bs) (encode fh_enc h [])"
    unfolding fh_enc_def encoder.simps by (rule header_c.e_append) (simp add: header_align)
  from write_framed_with_eq [OF this] show ?thesis
    by (simp add: write_framed_def fh_serialize_def encode_to_vec_def andthen_assoc)
qed

lemma write_framed_archive_eq: "write_framed_archive h sz out = andthen (fh_serialize_archive h sz) frame"
proof -
  have "encode archive_enc (archive_fields h sz) (replicate 8 0) =
      map_ok (\<lambda>bs. replicate 8 0 @ bs) (encode archive_enc (archive_fields h sz) [])"
    by (rule archive_c.e_append) (simp add: header_align)
  from write_framed_with_eq [OF this] show ?thesis
    by (simp add: write_framed_archive_def fh_serialize_archive_def encode_to_vec_def andthen_assoc)
qed

text \<open>
  What the documentation of the \<open>sha2\<close> crate promises: the digest of a hasher depends on the
  concatenation of the updates only, and is the one-shot digest of it.
\<close>

definition digest_laws :: "'h hasher \<Rightarrow> (bytes \<Rightarrow> bytes) \<Rightarrow> bool" where
  "digest_laws H sha \<longleftrightarrow>
     (\<forall>chunks. h_finalize H (fold (\<lambda>b h. h_update H h b) chunks (h_new H)) = sha (concat chunks))"

lemma content_hash_eq:
  assumes "digest_laws H sha" and "content_hasher_new H header = Ok h"
  shows "\<exists>f. andthen (fh_serialize header) frame = Ok f \<and>
    content_hasher_finish H (fold (\<lambda>p h. content_hasher_update H h p) chunks h) = sha (f @ concat chunks)"
proof -
  obtain s where s: "fh_serialize header = Ok s" "length s < 2 ^ 32"
    and h: "h = fold (\<lambda>b h. h_update H h b) [to_be_bytes (of_nat (length s) :: u32), replicate 4 0, s] (h_new H)"
    using assms(2) by (auto simp: content_hasher_new_def result_simps)
  have f: "andthen (fh_serialize header) frame = Ok (to_be_bytes (of_nat (length s) :: u32) @ replicate 4 0 @ s)"
    using s by (simp add: frame_def u32_try_from_def)
  have "content_hasher_finish H (fold (\<lambda>p h. content_hasher_update H h p) chunks h) =
      h_finalize H (fold (\<lambda>b h. h_update H h b)
        ([to_be_bytes (of_nat (length s) :: u32), replicate 4 0, s] @ chunks) (h_new H))"
    unfolding h by (simp add: content_hasher_finish_def content_hasher_update_def)
  also have "\<dots> = sha (concat ([to_be_bytes (of_nat (length s) :: u32), replicate 4 0, s] @ chunks))"
    using assms(1) unfolding digest_laws_def by blast
  also have "\<dots> = sha ((to_be_bytes (of_nat (length s) :: u32) @ replicate 4 0 @ s) @ concat chunks)" by simp
  finally show ?thesis using f by blast
qed

subsection \<open>Properties\<close>

abbreviation sample_header :: file_header where
  "sample_header \<equiv> \<lparr>fh_uid = 1, fh_gid = 2, fh_mode = 0x81a4, fh_symlink_target = [], fh_xattrs = []\<rparr>"

abbreviation sample_header_bytes :: bytes where
  "sample_header_bytes \<equiv> [0, 0, 0, 1, 0, 0, 0, 2, 0, 0, 0x81, 0xa4, 0, 0, 0, 0, 0, 17]"

lemma header_tuple_eq:
  "encode (tuple_enc header_body_enc) (u, g, m, r, t, xs) [] =
     andthen (str_encode t []) (\<lambda>tb. map_ok (\<lambda>xb. struct_bytes None [(4, Some 4, to_be_bytes u), (4, Some 4, to_be_bytes g),
       (4, Some 4, to_be_bytes m), (4, Some 4, to_be_bytes r), (1, None, tb), (1, None, xb)]) (encode xattrs_enc xs []))"
proof -
  have mem: "enc_members header_body_enc" using header_members by (simp add: codec_members_def)
  have "struct_fixed [(4, Some 4), (4, Some 4), (4, Some 4), (4, Some 4), (Suc 0, None), (Suc 0, None)] = None" by code_simp
  then show ?thesis
    by (subst enc_members.tuple_enc_eq [OF mem]; cases "str_encode t []"; cases "encode xattrs_enc xs []")
      (simp_all add: enc_member_def enc_last_def be32_enc_def str_enc_def xattrs_enc_lay with_bytes_def)
qed

lemma sample_header_serialize: "fh_serialize sample_header = Ok sample_header_bytes"
proof -
  have be: "to_be_bytes (1 :: u32) = [0, 0, 0, 1]" "to_be_bytes (2 :: u32) = [0, 0, 0, 2]"
    "to_be_bytes (0x81a4 :: u32) = [0, 0, 0x81, 0xa4]" "to_be_bytes (0 :: u32) = [0, 0, 0, 0]"
    by (simp_all add: to_be_bytes_def to_le_bytes_def le_bytes_numeral)
  have "struct_bytes None [(4, Some 4, [0, 0, 0, 1]), (4, Some 4, [0, 0, 0, 2]), (4, Some 4, [0, 0, 0x81, 0xa4]),
      (4, Some 4, [0, 0, 0, 0]), (1, None, [0]), (1, None, [])] = sample_header_bytes"
    "str_encode [] [] = Ok [0]" by code_simp+
  then have "encode (tuple_enc header_body_enc) (1, 2, 0x81a4, 0, [], []) [] = Ok sample_header_bytes"
    unfolding header_tuple_eq xattrs_enc_Nil be by simp
  then show ?thesis
    by (simp add: fh_serialize_def fh_validate_def S_IFMT_def S_IFREG_def encode_to_vec_def fh_enc_def)
qed

text \<open>C8: \<open>FileHeader::parse\<close> accepts bytes with a header exactly when \<open>serialize\<close> writes these bytes for
  it, and the archive form does so together with the uncompressed size. A parsed header is a regular file
  without a target or a symlink, with canonical xattrs.\<close>

theorem file_header_parse_serialize:
  assumes "length data < usize_bound"
  shows "(fh_parse data = Ok h \<longleftrightarrow> fh_typed h \<and> fh_serialize h = Ok data) \<and>
    (fh_parse_archive data = Ok (h, sz) \<longleftrightarrow> fh_typed h \<and> fh_serialize_archive h sz = Ok data) \<and>
    (fh_parse_stat_metadata data = Ok h \<longleftrightarrow>
       xattrs_ok (fh_xattrs h) \<and> fh_symlink_target h = [] \<and> fh_serialize_stat_metadata h = Ok data)"
  using fh_parse_iff [OF assms] fh_parse_archive_iff [OF assms] fh_parse_stat_iff [OF assms] by blast

theorem file_header_parse_serialize_witness: "fh_parse sample_header_bytes = Ok sample_header"
  using file_header_parse_serialize [of sample_header_bytes sample_header 0] sample_header_serialize
  by (simp add: fh_typed_def xattrs_ok_def)

text \<open>C33: \<open>split_framed\<close> returns a header and a payload exactly when the stream is the framed header
  followed by the payload.\<close>

theorem split_framed_inverts_frame:
  "split_framed data = Ok (hdr, payload) \<longleftrightarrow> (\<exists>f. frame hdr = Ok f \<and> data = f @ payload)"
  by (rule split_framed_iff)

text \<open>C34: the functions that write a framed header into one buffer give the bytes, and the errors, of
  serializing the header first and framing it then, in the content form and in the archive form.\<close>

theorem write_framed_is_frame_of_serialize:
  "write_framed h out = andthen (fh_serialize h) frame \<and>
   write_framed_archive h sz out = andthen (fh_serialize_archive h sz) frame"
  using write_framed_eq write_framed_archive_eq by blast

text \<open>C9: for a hasher that digests the concatenation of its updates, the content checksum is the digest
  of the framed header followed by the payload, however the payload is split into chunks.\<close>

theorem content_checksum_digests_frame:
  assumes "digest_laws H sha" and "content_hasher_new H header = Ok h"
  shows "\<exists>f. andthen (fh_serialize header) frame = Ok f \<and>
    content_hasher_finish H (fold (\<lambda>p h. content_hasher_update H h p) chunks h) = sha (f @ concat chunks)"
  using assms by (rule content_hash_eq)

definition concat_hasher :: "bytes hasher" where
  "concat_hasher = \<lparr>h_new = [], h_update = (\<lambda>h b. h @ b), h_finalize = (\<lambda>h. take 32 h)\<rparr>"

lemma concat_hasher_laws: "digest_laws concat_hasher (take 32)"
proof -
  have "fold (\<lambda>b h. h @ b) chunks acc = acc @ concat chunks" for chunks and acc :: bytes
    by (induction chunks arbitrary: acc) auto
  then show ?thesis by (simp add: digest_laws_def concat_hasher_def)
qed

theorem content_checksum_digests_frame_witness:
  "\<exists>h f. content_hasher_new concat_hasher sample_header = Ok h \<and> andthen (fh_serialize sample_header) frame = Ok f \<and>
     content_hasher_finish concat_hasher (fold (\<lambda>p h. content_hasher_update concat_hasher h p) [[1], [2, 3]] h) =
       take 32 (f @ [1, 2, 3])"
proof -
  obtain h where h: "content_hasher_new concat_hasher sample_header = Ok h"
    by (simp add: content_hasher_new_def sample_header_serialize u32_try_from_def)
  from content_checksum_digests_frame [OF concat_hasher_laws h, of "[[1], [2, 3]]"] h show ?thesis by auto
qed

end
