(* ===== verification/Repo_Base.thy ===== *)
theory Repo_Base imports Core_Keyfile Core_Filehdr
begin
section \<open>The error type of the repository crate, and byte sinks\<close>

text \<open>
  \<^verbatim>\<open>crates/ostrya/src/error.rs\<close>: the error of \<open>ostrya\<close>, with the variants that the modelled operations
  return; an I/O error keeps no detail. \<open>from_core\<close> is the conversion of \<open>?\<close>. A byte sink is what the code
  writes to through \<open>AsyncWrite\<close>: its \<open>write_all\<close> fails or takes all bytes.
\<close>

datatype repo_error =
    Io_error
  | Core_error core_error
  | ObjectNotFound checksum object_type
  | RefNotFound ustr
  | RemoteNotFound ustr
  | RemoteExists ustr
  | InvalidRefspec ustr
  | AmbiguousRefspec ustr
  | NoParentCommit checksum
  | InvalidFormat msg
  | Unsupported ustr
  | InvalidInput ustr
  | LockTimeout int
  | ChecksumMismatch (mismatch_expected: checksum) (mismatch_actual: checksum)
  | InsufficientFreeSpace u64
  | Pull_error ustr

definition from_core :: "(core_error, 'a) result \<Rightarrow> (repo_error, 'a) result" where
  "from_core m = map_err Core_error m"

lemma from_core_Ok [result_simps]: "from_core m = Ok x \<longleftrightarrow> m = Ok x"
  by (simp add: from_core_def result_simps)

lemma from_core_simps [simp]: "from_core (Ok x) = Ok x" "from_core (Err e) = Err (Core_error e)"
  by (simp_all add: from_core_def)

type_synonym 's byte_writer = "'s \<Rightarrow> bytes \<Rightarrow> (repo_error, 's) result"

text \<open>\<open>slice::chunks\<close> for a positive size, and a write of a slice in such pieces.\<close>

function chunks_of :: "nat \<Rightarrow> 'a list \<Rightarrow> 'a list list" where
  "chunks_of n xs = (if n = 0 \<or> xs = [] then [] else take n xs # chunks_of n (drop n xs))"
  by auto
termination chunks_of by (relation "measure (\<lambda>(n, xs). length xs)") auto

declare chunks_of.simps [simp del]

fun write_each :: "'s byte_writer \<Rightarrow> bytes list \<Rightarrow> 's \<Rightarrow> (repo_error, 's) result" where
  "write_each wr [] s = Ok s"
| "write_each wr (c # cs) s = andthen (wr s c) (write_each wr cs)"

lemma concat_chunks_of: "0 < n \<Longrightarrow> concat (chunks_of n xs) = xs"
proof (induction n xs rule: chunks_of.induct)
  case (1 n xs)
  then show ?case by (cases "xs = []") (simp_all add: chunks_of.simps)
qed

locale byte_sink =
  fixes wr :: "'s byte_writer" and content :: "'s \<Rightarrow> bytes"
  assumes wr_content: "wr s bs = Ok s' \<Longrightarrow> content s' = content s @ bs"
begin

lemma write_each_content: "write_each wr cs s = Ok s' \<Longrightarrow> content s' = content s @ concat cs"
  by (induction cs arbitrary: s) (auto simp: result_simps dest: wr_content)

lemma write_chunks_content:
  "0 < n \<Longrightarrow> write_each wr (chunks_of n bs) s = Ok s' \<Longrightarrow> content s' = content s @ bs"
  using write_each_content concat_chunks_of by metis

end

locale total_sink = byte_sink +
  assumes wr_total: "\<exists>s'. wr s bs = Ok s'"
begin

lemma write_each_total: "\<exists>s'. write_each wr cs s = Ok s'"
proof (induction cs arbitrary: s)
  case (Cons c cs)
  obtain s1 where "wr s c = Ok s1" using wr_total by blast
  then show ?case using Cons by simp
qed simp

end

text \<open>The in-memory sink: \<open>Vec<u8>\<close>.\<close>

definition vec_write :: "bytes byte_writer" where
  "vec_write v bs = Ok (v @ bs)"

interpretation vec_sink: total_sink vec_write "\<lambda>v. v"
  by unfold_locales (auto simp: vec_write_def)

end
