(* ===== verification/Delta_Bspatch.thy ===== *)
theory Delta_Bspatch imports Repo_Base Core_Varint
begin
section \<open>The bspatch decoder\<close>

text \<open>
  \<^verbatim>\<open>crates/ostrya/src/bspatch.rs\<close>: applies a bsdiff patch to a source and streams the output to a sink. A
  patch is a sequence of blocks of a control block, a diff run and an extra run. Positions are \<open>usize\<close>
  values: natural numbers, with the checked additions written out.
\<close>

definition OUT_CHUNK :: nat where "OUT_CHUNK = 128 * 1024"

definition bad :: "bytes \<Rightarrow> repo_error" where
  "bad msg = InvalidFormat (Msg msg)"

definition checked_add :: "nat \<Rightarrow> nat \<Rightarrow> nat option" where
  "checked_add a b = (if a + b < usize_bound then Some (a + b) else None)"

definition offtin :: "bytes \<Rightarrow> int" where
  "offtin buf =
     (let y = foldl (\<lambda>y i. y * 256 + uint (buf ! i)) (uint (buf ! 7 AND 0x7f)) (rev [0..<7]) in
      if buf ! 7 AND 0x80 \<noteq> 0 then - y else y)"

definition to_len :: "int \<Rightarrow> bytes \<Rightarrow> (repo_error, nat) result" where
  "to_len v which =
     (if v < 0 then Err (InvalidFormat (Msg (lit ''bspatch negative '' @ which @ lit '' length''))) else Ok (nat v))"

definition apply_seek :: "nat \<Rightarrow> int \<Rightarrow> (repo_error, nat) result" where
  "apply_seek pos seek =
     (let next = int pos + seek in
      if next < 0 then Err (bad (lit ''bspatch source seek before start''))
      else Ok (nat (next mod int usize_bound)))"

text \<open>The diff run: the source bytes plus the overlay, written in bounded pieces.\<close>

function write_diff :: "'s byte_writer \<Rightarrow> bytes \<Rightarrow> nat \<Rightarrow> bytes \<Rightarrow> nat \<Rightarrow> nat \<Rightarrow> nat \<Rightarrow> 's \<Rightarrow> (repo_error, 's) result" where
  "write_diff wr source spos stream cur diff_len i out =
     (if i < diff_len then
        let n = min (diff_len - i) OUT_CHUNK;
            scratch = map (\<lambda>j. source ! (spos + i + j) + stream ! (cur + i + j)) [0..<n]
        in andthen (wr out scratch) (\<lambda>out'. write_diff wr source spos stream cur diff_len (i + n) out')
      else Ok out)"
  by auto
termination write_diff
  by (relation "measure (\<lambda>(wr, source, spos, stream, cur, diff_len, i, out). diff_len - i)") (auto simp: OUT_CHUNK_def)

declare write_diff.simps [simp del]

text \<open>The positions of the loop: the bytes produced, the source position, and the stream position.\<close>

record bspatch_state =
  bp_produced :: nat
  bp_spos :: nat
  bp_cur :: nat

definition bspatch_block ::
    "'s byte_writer \<Rightarrow> bytes \<Rightarrow> bytes \<Rightarrow> nat \<Rightarrow> bspatch_state \<Rightarrow> 's \<Rightarrow> (repo_error, bspatch_state \<times> 's) result" where
  "bspatch_block wr source stream new_size st out =
     (let cur = bp_cur st; spos = bp_spos st; produced = bp_produced st in
      andthen (ok_or (bad (lit ''bspatch control offset overflow'')) (checked_add cur 24)) (\<lambda>ctrl_end.
      if ctrl_end > length stream then Err (bad (lit ''bspatch stream truncated at control block''))
      else
      andthen (to_len (offtin (slice stream cur (cur + 8))) (lit ''diff'')) (\<lambda>diff_len.
      andthen (to_len (offtin (slice stream (cur + 8) (cur + 16))) (lit ''extra'')) (\<lambda>extra_len.
      let seek = offtin (slice stream (cur + 16) (cur + 24)) in
      andthen (ok_or (bad (lit ''bspatch diff run overflow'')) (checked_add ctrl_end diff_len)) (\<lambda>diff_end.
      andthen (ok_or (bad (lit ''bspatch extra run overflow'')) (checked_add diff_end extra_len)) (\<lambda>extra_end.
      if extra_end > length stream then Err (bad (lit ''bspatch stream truncated at data run''))
      else if produced + diff_len + extra_len > new_size then Err (bad (lit ''bspatch output exceeds declared size''))
      else
      andthen (ok_or (bad (lit ''bspatch source run overflow'')) (checked_add spos diff_len)) (\<lambda>src_end.
      if src_end > length source then Err (bad (lit ''bspatch reads past end of source''))
      else
      andthen (write_diff wr source spos stream ctrl_end diff_len 0 out) (\<lambda>out1.
      andthen (write_each wr (chunks_of OUT_CHUNK (slice stream diff_end extra_end)) out1) (\<lambda>out2.
      andthen (apply_seek src_end seek) (\<lambda>spos'.
      if spos' > length source then Err (bad (lit ''bspatch source seek past end''))
      else Ok (\<lparr>bp_produced = produced + (diff_len + extra_len), bp_spos = spos', bp_cur = extra_end\<rparr>, out2)))))))))))"

lemma bspatch_block_progress:
  assumes "bspatch_block wr source stream new_size st out = Ok (st', out')"
  shows "bp_cur st < bp_cur st'" "bp_cur st' \<le> length stream" "bp_produced st' \<le> new_size"
  using assms
  by (auto simp: bspatch_block_def result_simps Let_def checked_add_def split: if_splits)

function bspatch_from ::
    "'s byte_writer \<Rightarrow> bytes \<Rightarrow> bytes \<Rightarrow> nat \<Rightarrow> bspatch_state \<Rightarrow> 's \<Rightarrow> (repo_error, 's) result" where
  "bspatch_from wr source stream new_size st out =
     (if bp_produced st < new_size
      then andthen (bspatch_block wr source stream new_size st out)
        (\<lambda>(st', out'). bspatch_from wr source stream new_size st' out')
      else Ok out)"
  by auto
termination bspatch_from
proof (relation "measure (\<lambda>(wr, source, stream, new_size, st, out). length stream - bp_cur st)", simp)
  fix wr :: "'s byte_writer" and source stream new_size st out x st' out'
  assume "bspatch_block wr source stream new_size st out = Ok x" and "(st', out') = x"
  then show "((wr, source, stream, new_size, st', out'), (wr, source, stream, new_size, st, out))
      \<in> measure (\<lambda>(wr, source, stream, new_size, st, out). length stream - bp_cur st)"
    using bspatch_block_progress [of wr source stream new_size st out st' out'] by auto
qed

declare bspatch_from.simps [simp del]

definition bspatch :: "'s byte_writer \<Rightarrow> bytes \<Rightarrow> bytes \<Rightarrow> nat \<Rightarrow> 's \<Rightarrow> (repo_error, 's) result" where
  "bspatch wr source stream new_size out =
     bspatch_from wr source stream new_size \<lparr>bp_produced = 0, bp_spos = 0, bp_cur = 0\<rparr> out"

subsection \<open>The format, written declaratively\<close>

text \<open>A block of a patch: the overlay bytes, the verbatim bytes and the seek. \<open>patch_output\<close> is what the blocks
  make of a source, and \<open>None\<close> if a block reads or seeks outside it.\<close>

record patch_block =
  pb_diff :: bytes
  pb_extra :: bytes
  pb_seek :: int

definition off_bytes :: "int \<Rightarrow> bytes" where
  "off_bytes v = (let m = le_bytes 8 (nat \<bar>v\<bar>) in if v < 0 then m[7 := m ! 7 OR 0x80] else m)"

definition block_bytes :: "patch_block \<Rightarrow> bytes" where
  "block_bytes b = off_bytes (int (length (pb_diff b))) @ off_bytes (int (length (pb_extra b))) @ off_bytes (pb_seek b) @
     pb_diff b @ pb_extra b"

fun patch_output :: "bytes \<Rightarrow> nat \<Rightarrow> patch_block list \<Rightarrow> bytes option" where
  "patch_output source spos [] = Some []"
| "patch_output source spos (b # bs) =
     (let src_end = spos + length (pb_diff b); next = int src_end + pb_seek b in
      if src_end \<le> length source \<and> 0 \<le> next \<and> next \<le> int (length source) \<and> \<bar>pb_seek b\<bar> < 2 ^ 63
      then map_option (\<lambda>out. map2 (+) (slice source spos src_end) (pb_diff b) @ pb_extra b @ out)
        (patch_output source (nat next) bs)
      else None)"

lemma off_bytes_length [simp]: "length (off_bytes v) = 8"
  by (simp add: off_bytes_def Let_def)

lemma offtin_off_bytes:
  assumes "\<bar>v\<bar> < 2 ^ 63"
  shows "offtin (off_bytes v) = v"
proof -
  define m where "m = nat \<bar>v\<bar>"
  have m: "m < 2 ^ 63" using assms by (simp add: m_def nat_less_iff)
  define b where "b = le_bytes 8 m"
  obtain b0 b1 b2 b3 b4 b5 b6 b7 where bs: "b = [b0, b1, b2, b3, b4, b5, b6, b7]"
  proof -
    have "length b = 8" by (simp add: b_def)
    then show ?thesis using that by (auto simp: numeral_eq_Suc length_Suc_conv)
  qed
  have val: "le_val b = m" using m by (simp add: b_def le_val_le_bytes)
  have hi: "b7 < 0x80"
  proof (rule ccontr)
    assume "\<not> b7 < 0x80"
    then have "128 \<le> unat b7" by (simp add: word_less_nat_alt)
    then show False using val m by (simp add: bs)
  qed
  have u7: "unat b7 < 128" using hi by (simp add: word_less_nat_alt)
  have mask: "unat (b7 AND 0x7f) = unat b7" "unat ((b7 OR 0x80) AND 0x7f) = unat b7"
    using u7 by (simp_all add: unat_and_7f unat_or_high)
  have sign: "b7 AND 0x80 = 0" "(b7 OR 0x80) AND 0x80 \<noteq> 0" using u7 by (simp_all add: high_bit unat_or_high)
  have idx: "rev [0..<7] = [6, 5, 4, 3, 2, 1, 0::nat]" by code_simp
  have fold7: "foldl (\<lambda>y i. y * 256 + uint ([b0, b1, b2, b3, b4, b5, b6, x] ! i)) z (rev [0..<7]) =
      ((((((z * 256 + uint b6) * 256 + uint b5) * 256 + uint b4) * 256 + uint b3) * 256 + uint b2) * 256 + uint b1) * 256 + uint b0"
    for x z unfolding idx by simp
  have "int (le_val b) = uint b0 + 256 * (uint b1 + 256 * (uint b2 + 256 * (uint b3 + 256 * (uint b4 + 256 * (uint b5 +
      256 * (uint b6 + 256 * uint b7))))))"
    by (simp add: bs)
  then have mag: "((((((uint b7 * 256 + uint b6) * 256 + uint b5) * 256 + uint b4) * 256 + uint b3) * 256 + uint b2) * 256 + uint b1) * 256 + uint b0 = int m"
    using val by (simp add: algebra_simps)
  have mask': "uint (b7 AND 0x7f) = uint b7" "uint ((b7 OR 0x80) AND 0x7f) = uint b7"
    using mask by (simp_all only: uint_nat)
  have n7: "[b0, b1, b2, b3, b4, b5, b6, x] ! 7 = x" for x :: u8 by simp
  have "offtin b = int m"
    unfolding offtin_def bs n7 fold7 mask' mag Let_def sign(1) by simp
  moreover have "offtin [b0, b1, b2, b3, b4, b5, b6, b7 OR 0x80] = - int m"
    unfolding offtin_def n7 fold7 mask' mag Let_def using sign(2) by simp
  then have "offtin (b[7 := b7 OR 0x80]) = - int m" by (simp add: bs)
  moreover have "b ! 7 = b7" unfolding bs by (rule n7)
  moreover have "v = (if v < 0 then - int m else int m)" by (simp add: m_def)
  ultimately show ?thesis unfolding off_bytes_def m_def [symmetric] b_def [symmetric] Let_def by (auto split: if_splits)
qed

subsection \<open>What the loop does to a sink\<close>

definition overlay :: "bytes \<Rightarrow> nat \<Rightarrow> bytes \<Rightarrow> nat \<Rightarrow> nat \<Rightarrow> nat \<Rightarrow> bytes" where
  "overlay source spos stream cur i d = map (\<lambda>j. source ! (spos + j) + stream ! (cur + j)) [i..<d]"

context byte_sink
begin

lemma write_diff_content:
  "write_diff wr source spos stream cur d i s = Ok s' \<Longrightarrow> content s' = content s @ overlay source spos stream cur i d"
proof (induction "d - i" arbitrary: i s rule: less_induct)
  case less
  show ?case
  proof (cases "i < d")
    case True
    define n where "n = min (d - i) OUT_CHUNK"
    have n: "0 < n" "i + n \<le> d" using True by (auto simp: n_def OUT_CHUNK_def)
    let ?scratch = "map (\<lambda>j. source ! (spos + i + j) + stream ! (cur + i + j)) [0..<n]"
    obtain s1 where s1: "wr s ?scratch = Ok s1" "write_diff wr source spos stream cur d (i + n) s1 = Ok s'"
      using less.prems True by (subst (asm) write_diff.simps) (auto simp: Let_def result_simps simp flip: n_def)
    have "?scratch = overlay source spos stream cur i (i + n)"
      unfolding overlay_def by (rule nth_equalityI) (auto simp: add.assoc)
    moreover have "overlay source spos stream cur i d = overlay source spos stream cur i (i + n) @ overlay source spos stream cur (i + n) d"
      unfolding overlay_def map_append [symmetric] using n upt_add_eq_append [of i "i + n" "d - (i + n)"] by simp
    ultimately show ?thesis using less.hyps [OF _ s1(2)] wr_content [OF s1(1)] n by simp
  next
    case False
    then show ?thesis using less.prems by (subst (asm) write_diff.simps) (simp add: overlay_def)
  qed
qed

lemma bspatch_block_content:
  assumes "bspatch_block wr source stream n st s = Ok (st', s')"
  shows "\<exists>out. content s' = content s @ out \<and> bp_produced st' = bp_produced st + length out"
proof -
  obtain d e c out1 where o: "write_diff wr source (bp_spos st) stream (bp_cur st + 24) d 0 s = Ok out1"
      "write_each wr (chunks_of OUT_CHUNK (slice stream (bp_cur st + 24 + d) (bp_cur st + 24 + d + e))) out1 = Ok s'"
      "bp_produced st' = bp_produced st + (d + e)" "bp_cur st + 24 + d + e \<le> length stream"
    using assms by (auto simp: bspatch_block_def Let_def result_simps checked_add_def split: if_splits)
  have "content s' = content s @ overlay source (bp_spos st) stream (bp_cur st + 24) 0 d @
      slice stream (bp_cur st + 24 + d) (bp_cur st + 24 + d + e)"
    using write_diff_content [OF o(1)] write_chunks_content [OF _ o(2)] by (simp add: OUT_CHUNK_def)
  then show ?thesis using o(3,4) by (auto simp: overlay_def)
qed

lemma bspatch_from_content:
  assumes "bspatch_from wr source stream n st s = Ok s'" and "bp_produced st \<le> n"
  shows "\<exists>out. content s' = content s @ out \<and> bp_produced st + length out = n"
  using assms
proof (induction "length stream - bp_cur st" arbitrary: st s rule: less_induct)
  case less
  show ?case
  proof (cases "bp_produced st < n")
    case True
    then obtain st1 s1 where b: "bspatch_block wr source stream n st s = Ok (st1, s1)" "bspatch_from wr source stream n st1 s1 = Ok s'"
      using less.prems(1) by (subst (asm) bspatch_from.simps) (auto simp: result_simps)
    note p = bspatch_block_progress [OF b(1)]
    obtain o1 where o1: "content s1 = content s @ o1" "bp_produced st1 = bp_produced st + length o1"
      using bspatch_block_content [OF b(1)] by blast
    have "length stream - bp_cur st1 < length stream - bp_cur st" using p by linarith
    from less.hyps [OF this b(2) p(3)] obtain o2 where "content s' = content s1 @ o2" "bp_produced st1 + length o2 = n" by blast
    then show ?thesis using o1 by (intro exI [of _ "o1 @ o2"]) simp
  next
    case False
    then show ?thesis using less.prems by (subst (asm) bspatch_from.simps) auto
  qed
qed

lemma bspatch_content:
  "bspatch wr source stream n s = Ok s' \<Longrightarrow> \<exists>out. content s' = content s @ out \<and> length out = n"
  using bspatch_from_content [of source stream n] by (fastforce simp: bspatch_def)

end

context total_sink
begin

lemma write_diff_total: "\<exists>s'. write_diff wr source spos stream cur d i s = Ok s'"
proof (induction "d - i" arbitrary: i s rule: less_induct)
  case less
  define n where "n = min (d - i) OUT_CHUNK"
  obtain s1 where "wr s (map (\<lambda>j. source ! (spos + i + j) + stream ! (cur + i + j)) [0..<n]) = Ok s1"
    using wr_total by blast
  moreover have "i < d \<Longrightarrow> d - (i + n) < d - i" by (auto simp: n_def OUT_CHUNK_def)
  ultimately show ?case using less by (subst write_diff.simps) (auto simp: Let_def simp flip: n_def)
qed

lemma bspatch_block_encoded:
  assumes stream: "stream = pre @ block_bytes b @ post" and cur: "bp_cur st = length pre"
    and len: "length stream < usize_bound" "length source < 2 ^ 63"
    and src: "bp_spos st + length (pb_diff b) \<le> length source"
    and seek: "\<bar>pb_seek b\<bar> < 2 ^ 63" "0 \<le> int (bp_spos st + length (pb_diff b)) + pb_seek b"
      "int (bp_spos st + length (pb_diff b)) + pb_seek b \<le> int (length source)"
    and out: "bp_produced st + length (pb_diff b) + length (pb_extra b) \<le> n"
    and small: "length (pb_diff b) < 2 ^ 63" "length (pb_extra b) < 2 ^ 63"
  shows "\<exists>s'. bspatch_block wr source stream n st s = Ok (\<lparr>bp_produced = bp_produced st + (length (pb_diff b) + length (pb_extra b)),
      bp_spos = nat (int (bp_spos st + length (pb_diff b)) + pb_seek b), bp_cur = length pre + length (block_bytes b)\<rparr>, s') \<and>
    content s' = content s @ map2 (+) (slice source (bp_spos st) (bp_spos st + length (pb_diff b))) (pb_diff b) @ pb_extra b"
proof -
  let ?d = "length (pb_diff b)" and ?e = "length (pb_extra b)" and ?p = "length pre"
  have sl: "slice stream ?p (?p + 8) = off_bytes (int ?d)" "slice stream (?p + 8) (?p + 16) = off_bytes (int ?e)"
    "slice stream (?p + 16) (?p + 24) = off_bytes (pb_seek b)"
    "slice stream (?p + 24 + ?d) (?p + 24 + ?d + ?e) = pb_extra b"
    by (simp_all add: stream block_bytes_def slice_def)
  have off: "offtin (off_bytes (int ?d)) = int ?d" "offtin (off_bytes (int ?e)) = int ?e" "offtin (off_bytes (pb_seek b)) = pb_seek b"
    using small seek(1) by (simp_all add: offtin_off_bytes)
  have bl: "length (block_bytes b) = 24 + ?d + ?e" by (simp add: block_bytes_def)
  have fit: "?p + 24 + ?d + ?e \<le> length stream" by (simp add: stream bl)
  obtain s1 where s1: "write_diff wr source (bp_spos st) stream (?p + 24) ?d 0 s = Ok s1" using write_diff_total by blast
  obtain s2 where s2: "write_each wr (chunks_of OUT_CHUNK (pb_extra b)) s1 = Ok s2" using write_each_total by blast
  have "overlay source (bp_spos st) stream (?p + 24) 0 ?d = map2 (+) (slice source (bp_spos st) (bp_spos st + ?d)) (pb_diff b)"
    using src by (intro nth_equalityI) (auto simp: overlay_def slice_def stream block_bytes_def nth_append)
  then have c: "content s2 = content s @ map2 (+) (slice source (bp_spos st) (bp_spos st + ?d)) (pb_diff b) @ pb_extra b"
    using write_diff_content [OF s1] write_chunks_content [OF _ s2] by (simp add: OUT_CHUNK_def)
  have sk: "apply_seek (bp_spos st + ?d) (pb_seek b) = Ok (nat (int (bp_spos st + ?d) + pb_seek b))"
    using seek(2,3) len(2) by (simp add: apply_seek_def Let_def)
  show ?thesis
    using s1 s2 c sk sl off fit src out seek len cur
    by (simp add: bspatch_block_def Let_def to_len_def checked_add_def bl)
qed

lemma bspatch_from_encoded:
  assumes "patch_output source (bp_spos st) bs = Some out" and "stream = pre @ concat (map block_bytes bs) @ post"
    and "bp_cur st = length pre" and "length stream < usize_bound" and "length source < 2 ^ 63"
    and "bp_produced st + length out = n" and "n < 2 ^ 63"
  shows "\<exists>s'. bspatch_from wr source stream n st s = Ok s' \<and> content s' = content s @ out"
  using assms
proof (induction bs arbitrary: st s out pre)
  case Nil
  then show ?case by (simp add: bspatch_from.simps)
next
  case (Cons b bs)
  define src_end where "src_end = bp_spos st + length (pb_diff b)"
  have b: "src_end \<le> length source" "0 \<le> int src_end + pb_seek b" "int src_end + pb_seek b \<le> int (length source)" "\<bar>pb_seek b\<bar> < 2 ^ 63"
    using Cons.prems(1) by (auto simp: Let_def src_end_def split: if_splits)
  obtain rest where rest: "patch_output source (nat (int src_end + pb_seek b)) bs = Some rest"
      "out = map2 (+) (slice source (bp_spos st) src_end) (pb_diff b) @ pb_extra b @ rest"
    using Cons.prems(1) by (auto simp: Let_def src_end_def split: if_splits)
  have outlen: "length out = length (pb_diff b) + length (pb_extra b) + length rest"
    using rest(2) b(1) by (simp add: src_end_def)
  show ?case
  proof (cases "bp_produced st < n")
    case True
    have "\<exists>s'. bspatch_block wr source stream n st s = Ok (\<lparr>bp_produced = bp_produced st + (length (pb_diff b) + length (pb_extra b)),
        bp_spos = nat (int src_end + pb_seek b), bp_cur = length pre + length (block_bytes b)\<rparr>, s') \<and>
        content s' = content s @ map2 (+) (slice source (bp_spos st) src_end) (pb_diff b) @ pb_extra b"
      unfolding src_end_def
      by (rule bspatch_block_encoded [where post = "concat (map block_bytes bs) @ post"])
        (use Cons.prems b outlen in \<open>auto simp: src_end_def\<close>)
    then obtain s1 where s1: "bspatch_block wr source stream n st s = Ok (\<lparr>bp_produced = bp_produced st + (length (pb_diff b) + length (pb_extra b)),
        bp_spos = nat (int src_end + pb_seek b), bp_cur = length pre + length (block_bytes b)\<rparr>, s1)"
      "content s1 = content s @ map2 (+) (slice source (bp_spos st) src_end) (pb_diff b) @ pb_extra b" by blast
    have "\<exists>s'. bspatch_from wr source stream n \<lparr>bp_produced = bp_produced st + (length (pb_diff b) + length (pb_extra b)),
        bp_spos = nat (int src_end + pb_seek b), bp_cur = length pre + length (block_bytes b)\<rparr> s1 = Ok s' \<and> content s' = content s1 @ rest"
      using Cons.prems outlen rest(1) by (intro Cons.IH [where pre = "pre @ block_bytes b"]) auto
    then show ?thesis using s1 True rest(2) by (subst bspatch_from.simps) auto
  next
    case False
    then show ?thesis using Cons.prems by (subst bspatch_from.simps) auto
  qed
qed

lemma bspatch_encoded:
  assumes "patch_output source 0 bs = Some out" and "length (concat (map block_bytes bs)) < usize_bound"
    and "length source < 2 ^ 63" and "length out < 2 ^ 63"
  shows "\<exists>s'. bspatch wr source (concat (map block_bytes bs)) (length out) s = Ok s' \<and> content s' = content s @ out"
  unfolding bspatch_def using assms by (intro bspatch_from_encoded [where pre = "[]" and post = "[]"]) auto

end

text \<open>C13: whatever the stream holds, a patch that applies produces exactly the declared number of bytes, and the
  bytes already in the sink stay.\<close>

theorem bspatch_writes_declared_size:
  assumes "bspatch vec_write source stream new_size v = Ok v'"
  shows "take (length v) v' = v \<and> length v' = length v + new_size"
  using vec_sink.bspatch_content [OF assms] by auto

text \<open>C12: on the encoding of patch blocks that stay inside the source, the decoder produces the bytes the blocks
  describe: the source runs plus their overlays, and the extra runs.\<close>

theorem bspatch_applies_blocks:
  assumes "patch_output source 0 bs = Some out" and "length (concat (map block_bytes bs)) < usize_bound"
    and "length source < 2 ^ 63" and "length out < 2 ^ 63"
  shows "bspatch vec_write source (concat (map block_bytes bs)) (length out) v = Ok (v @ out)"
  using vec_sink.bspatch_encoded [OF assms] by auto

definition sample_blocks :: "patch_block list" where
  "sample_blocks = [\<lparr>pb_diff = [1, 0], pb_extra = [9], pb_seek = -1\<rparr>, \<lparr>pb_diff = [0, 255], pb_extra = [], pb_seek = 0\<rparr>]"

lemma sample_patch_output: "patch_output [10, 20, 30] 0 sample_blocks = Some [11, 20, 9, 20, 29]"
  by code_simp

lemma sample_patch_length:
  "length ([11, 20, 9, 20, 29] :: bytes) = 5" "length (concat (map block_bytes sample_blocks)) < usize_bound"
  by (simp_all add: sample_blocks_def block_bytes_def)

theorem bspatch_applies_blocks_witness:
  "bspatch vec_write [10, 20, 30] (concat (map block_bytes sample_blocks)) 5 [] = Ok [11, 20, 9, 20, 29]"
  using bspatch_applies_blocks [OF sample_patch_output sample_patch_length(2), of "[]"]
  unfolding sample_patch_length(1) by simp

theorem bspatch_writes_declared_size_witness:
  "\<exists>v'. bspatch vec_write [10, 20, 30] (concat (map block_bytes sample_blocks)) 5 [7] = Ok v' \<and> length v' = 6"
proof -
  obtain v' where v': "bspatch vec_write [10, 20, 30] (concat (map block_bytes sample_blocks)) 5 [7] = Ok v'"
    using vec_sink.bspatch_encoded [OF sample_patch_output sample_patch_length(2), of "[7]"]
    unfolding sample_patch_length(1) by auto
  then show ?thesis using bspatch_writes_declared_size [OF v'] by auto
qed

end
