(* ===== verification/Repo_Op.thy ===== *)
theory Repo_Op imports Repo_Base
begin

section \<open>Operations with state and errors\<close>

text \<open>A fallible operation that also changes a state: the state it leaves is kept on failure too, as the source keeps
  what an operation did before its \<open>?\<close> returned.\<close>

type_synonym ('s, 'a) op = "'s \<Rightarrow> 's \<times> (repo_error, 'a) result"

definition op_ret :: "'a \<Rightarrow> ('s, 'a) op" where
  "op_ret a s = (s, Ok a)"

definition op_fail :: "repo_error \<Rightarrow> ('s, 'a) op" where
  "op_fail e s = (s, Err e)"

definition op_lift :: "(repo_error, 'a) result \<Rightarrow> ('s, 'a) op" where
  "op_lift r s = (s, r)"

definition op_get :: "('s \<Rightarrow> 'a) \<Rightarrow> ('s, 'a) op" where
  "op_get f s = (s, Ok (f s))"

definition op_modify :: "('s \<Rightarrow> 's) \<Rightarrow> ('s, unit) op" where
  "op_modify f s = (f s, Ok ())"

definition op_bind :: "('s, 'a) op \<Rightarrow> ('a \<Rightarrow> ('s, 'b) op) \<Rightarrow> ('s, 'b) op" where
  "op_bind m f s = (case m s of (s', Ok a) \<Rightarrow> f a s' | (s', Err e) \<Rightarrow> (s', Err e))"

lemma op_simps [simp]:
  "op_ret a s = (s, Ok a)" "op_fail e s = (s, Err e)" "op_lift r s = (s, r)" "op_get f s = (s, Ok (f s))"
  "op_modify g s = (g s, Ok ())"
  by (simp_all add: op_ret_def op_fail_def op_lift_def op_get_def op_modify_def)

lemma op_bind_cong [fundef_cong]:
  assumes "m = m'" and "s = s'" and "\<And>a t. m' s' = (t, Ok a) \<Longrightarrow> f a t = f' a t"
  shows "op_bind m f s = op_bind m' f' s'"
  using assms by (auto simp: op_bind_def split: prod.splits result.splits)

lemma op_bind_Ok [result_simps]:
  "op_bind m f s = (s', Ok b) \<longleftrightarrow> (\<exists>t a. m s = (t, Ok a) \<and> f a t = (s', Ok b))"
  by (auto simp: op_bind_def split: prod.splits result.splits)

lemma op_bind_run:
  "m s = (t, Ok a) \<Longrightarrow> op_bind m f s = f a t"
  "m s = (t, Err e) \<Longrightarrow> op_bind m f s = (t, Err e)"
  by (simp_all add: op_bind_def)

text \<open>A triple: from a state with \<open>P\<close> the operation succeeds in a state with \<open>Q\<close> of its result, or fails in a state
  with \<open>E\<close>.\<close>

definition op_valid :: "('s \<Rightarrow> bool) \<Rightarrow> ('s, 'a) op \<Rightarrow> ('a \<Rightarrow> 's \<Rightarrow> bool) \<Rightarrow> ('s \<Rightarrow> bool) \<Rightarrow> bool" where
  "op_valid P m Q E \<longleftrightarrow> (\<forall>s. P s \<longrightarrow> (case m s of (s', Ok a) \<Rightarrow> Q a s' | (s', Err e) \<Rightarrow> E s'))"

lemma op_validD:
  "op_valid P m Q E \<Longrightarrow> P s \<Longrightarrow> m s = (s', Ok a) \<Longrightarrow> Q a s'"
  "op_valid P m Q E \<Longrightarrow> P s \<Longrightarrow> m s = (s', Err e) \<Longrightarrow> E s'"
  by (auto simp: op_valid_def)

lemma op_validI:
  assumes "\<And>s s' a. P s \<Longrightarrow> m s = (s', Ok a) \<Longrightarrow> Q a s'" and "\<And>s s' e. P s \<Longrightarrow> m s = (s', Err e) \<Longrightarrow> E s'"
  shows "op_valid P m Q E"
  using assms by (auto simp: op_valid_def split: prod.splits result.splits)

lemma op_valid_keeps:
  assumes "op_valid P m Q P" and "P s" and "m s = (s', r)" and "\<And>a. Q a s' \<Longrightarrow> P s'"
  shows "P s'"
  using op_validD [OF assms(1,2)] assms(3,4) by (cases r) auto

lemma op_valid_bind:
  assumes "op_valid P m Q E" and "\<And>a. op_valid (Q a) (f a) R E"
  shows "op_valid P (op_bind m f) R E"
  using assms by (fastforce simp: op_valid_def op_bind_def split: prod.splits result.splits)

lemma op_valid_weaken:
  assumes "op_valid P' m Q' E'" and "\<And>s. P s \<Longrightarrow> P' s" and "\<And>a s. Q' a s \<Longrightarrow> Q a s" and "\<And>s. E' s \<Longrightarrow> E s"
  shows "op_valid P m Q E"
  using assms by (fastforce simp: op_valid_def split: prod.splits result.splits)

lemma op_valid_ret: "(\<And>s. P s \<Longrightarrow> Q a s) \<Longrightarrow> op_valid P (op_ret a) Q E"
  by (simp add: op_valid_def)

lemma op_valid_fail: "(\<And>s. P s \<Longrightarrow> E s) \<Longrightarrow> op_valid P (op_fail e) Q E"
  by (simp add: op_valid_def)

lemma op_valid_get: "(\<And>s. P s \<Longrightarrow> Q (g s) s) \<Longrightarrow> op_valid P (op_get g) Q E"
  by (simp add: op_valid_def)

lemma op_valid_modify: "(\<And>s. P s \<Longrightarrow> Q () (h s)) \<Longrightarrow> op_valid P (op_modify h) Q E"
  by (simp add: op_valid_def)

lemma op_valid_lift: "op_valid P (op_lift r) (\<lambda>a s. r = Ok a \<and> P s) P"
  by (auto simp: op_valid_def split: result.splits)

text \<open>An operation that first looks at the state is, at each state, an operation that does not.\<close>

lemma op_valid_at:
  assumes "\<And>s. P s \<Longrightarrow> m s = f s s" and "\<And>s. P s \<Longrightarrow> op_valid P (f s) Q E"
  shows "op_valid P m Q E"
  using assms by (simp add: op_valid_def)

lemma op_valid_if:
  "(b \<Longrightarrow> op_valid P m Q E) \<Longrightarrow> (\<not> b \<Longrightarrow> op_valid P m' Q E) \<Longrightarrow> op_valid P (if b then m else m') Q E"
  by simp

end
