(* ===== verification/Repo_Txn.thy ===== *)
theory Repo_Txn imports Repo_Op Core_Sizes "HOL-Library.AList"
begin

section \<open>Transactions: writing, staging and publishing objects\<close>

text \<open>
  \<^verbatim>\<open>crates/ostrya/src/write.rs\<close> and the staged set of \<^verbatim>\<open>transaction.rs\<close>. A write computes the identity of an
  object, compares it with the expected checksum, puts the object as a file into the staging directory, and
  records it; the commit renames the recorded files into \<open>objects/\<close>. The operations work on a \<open>txn\<close>: the two
  directories as maps from names to files, and the staged set. A file is its logical content and a flag that
  its data is on stable storage; the storage form of a mode (compression, xattrs, inode mode) is not
  modelled. What the system calls and the configuration answer is a parameter, the record \<open>env\<close>, and SHA-256
  is its \<open>hasher\<close>. A \<open>HashMap\<close> that the code counts or iterates is an association list.
\<close>

subsection \<open>Headers\<close>

definition PERM_MASK :: u32 where "PERM_MASK = 0xfff"
definition SYMLINK_MODE :: u32 where "SYMLINK_MODE = S_IFLNK OR 0x1ff"
definition CANONICAL_PERM_MASK :: u32 where "CANONICAL_PERM_MASK = 0x1ed"

record file_meta =
  fm_uid :: u32
  fm_gid :: u32
  fm_mode :: u32
  fm_xattrs :: xattrs

definition file_meta_regular :: "u32 \<Rightarrow> u32 \<Rightarrow> u32 \<Rightarrow> file_meta" where
  "file_meta_regular uid gid perm =
     \<lparr>fm_uid = uid, fm_gid = gid, fm_mode = S_IFREG OR (perm AND PERM_MASK), fm_xattrs = xattrs_empty\<rparr>"

definition file_meta_is_symlink :: "file_meta \<Rightarrow> bool" where
  "file_meta_is_symlink m \<longleftrightarrow> fm_mode m AND S_IFMT = S_IFLNK"

definition regular_header :: "file_meta \<Rightarrow> file_header" where
  "regular_header m = \<lparr>fh_uid = fm_uid m, fh_gid = fm_gid m, fh_mode = fm_mode m,
     fh_symlink_target = [], fh_xattrs = fm_xattrs m\<rparr>"

definition symlink_header :: "file_meta \<Rightarrow> bytes \<Rightarrow> file_header" where
  "symlink_header m target =
     (let ft = fm_mode m AND S_IFMT in
      \<lparr>fh_uid = fm_uid m, fh_gid = fm_gid m,
       fh_mode = (if ft = 0 \<or> ft = S_IFREG then SYMLINK_MODE else fm_mode m),
       fh_symlink_target = target, fh_xattrs = fm_xattrs m\<rparr>)"

definition canonical_header :: "repo_mode \<Rightarrow> file_header \<Rightarrow> file_header" where
  "canonical_header mode h =
     (if mode = BareUserOnly then
        let h = h\<lparr>fh_uid := 0, fh_gid := 0, fh_xattrs := xattrs_empty\<rparr> in
        if fh_mode h AND S_IFMT \<noteq> S_IFLNK
        then h\<lparr>fh_mode := (fh_mode h AND S_IFMT) OR (fh_mode h AND CANONICAL_PERM_MASK)\<rparr> else h
      else h)"

definition canonical_dirmeta :: "dirmeta \<Rightarrow> dirmeta" where
  "canonical_dirmeta m = \<lparr>dm_uid = 0, dm_gid = 0,
     dm_mode = (dm_mode m AND S_IFMT) OR (dm_mode m AND CANONICAL_PERM_MASK), dm_xattrs = xattrs_empty\<rparr>"

subsection \<open>The state\<close>

datatype blocks = Written | Linked | Reflinked

record stage_outcome =
  so_deduped :: bool
  so_on_disk_size :: u64
  so_blocks :: blocks
  so_unpacked :: u64
  so_staging_name :: bytes
  so_dest :: bytes

record size_record =
  sr_compressed :: u64
  sr_unpacked :: u64
  sr_objtype :: object_type

record txn_stats =
  ts_metadata_total :: u32
  ts_metadata_written :: u32
  ts_content_total :: u32
  ts_content_written :: u32
  ts_content_bytes_written :: u64
  ts_content_bytes_unpacked :: u64
  ts_devino_cache_hits :: u32
  ts_filtered :: u32

record staged_object =
  st_name :: bytes
  st_dest :: bytes

type_synonym object_key = "checksum \<times> object_type"

record staged =
  sg_objects :: "(object_key \<times> staged_object) list"
  sg_images :: "(checksum \<times> staged_object) list"
  sg_complete :: "checksum list"
  sg_sizes :: "(checksum \<times> size_record) list"
  sg_size_scope :: "(checksum \<times> object_type) list option"
  sg_free_budget :: u64
  sg_stats :: txn_stats
  sg_presynced :: "nat option"

datatype stored = Stored_meta bytes | Stored_file file_header bytes | Stored_symlink file_header

type_synonym directory = "bytes \<rightharpoonup> stored \<times> bool"

record txn =
  tx_mode :: repo_mode
  tx_fsync_override :: "bool option"
  tx_per_object_fsync_override :: "bool option"
  tx_objects :: directory
  tx_files :: directory
  tx_staged :: staged

text \<open>The answers of the environment: the configuration, and for each kind of system call its failure or value.
  \<open>ev_open_temp\<close> tells whether the temp file is anonymous; \<open>ev_stage\<close> gives the size on disk.\<close>

record 'h env =
  ev_hasher :: "'h hasher"
  ev_fsync :: "(repo_error, bool) result"
  ev_per_object_fsync :: "(repo_error, bool) result"
  ev_verity :: "(repo_error, unit) result"
  ev_zlib_level :: "(repo_error, int) result"
  ev_open_temp :: "(repo_error, bool) result"
  ev_write :: "bytes \<Rightarrow> repo_error option"
  ev_flush :: "repo_error option"
  ev_exists :: "bytes \<Rightarrow> repo_error option"
  ev_clone :: "repo_error option"
  ev_read :: "bytes \<Rightarrow> repo_error option"
  ev_stage :: "bytes \<Rightarrow> stored \<Rightarrow> (repo_error, u64) result"
  ev_syncfs :: "repo_error option"
  ev_fanout :: "bytes \<Rightarrow> repo_error option"
  ev_rename :: "bytes \<Rightarrow> repo_error option"
  ev_fsync_dirs :: "repo_error option"
  ev_publish_images :: "repo_error option"

definition call_result :: "repo_error option \<Rightarrow> (repo_error, unit) result" where
  "call_result r = (case r of None \<Rightarrow> Ok () | Some e \<Rightarrow> Err e)"

definition sha_digest :: "'h hasher \<Rightarrow> bytes \<Rightarrow> checksum" where
  "sha_digest H bs = h_finalize H (h_update H (h_new H) bs)"

definition fsync_flags :: "'h env \<Rightarrow> txn \<Rightarrow> (repo_error, bool \<times> bool) result" where
  "fsync_flags env t =
     andthen (ev_fsync env) (\<lambda>configured.
     andthen (ev_per_object_fsync env) (\<lambda>configured_per_object.
     Ok (case tx_fsync_override t of Some b \<Rightarrow> b | None \<Rightarrow> configured,
         case tx_per_object_fsync_override t of Some b \<Rightarrow> b | None \<Rightarrow> configured_per_object)))"

definition flat_name :: "checksum \<Rightarrow> object_type \<Rightarrow> repo_mode \<Rightarrow> bytes" where
  "flat_name c ty mode = to_hex c @ [of_char CHR ''.''] @ extension ty mode"

definition dedup :: "bytes \<Rightarrow> stage_outcome" where
  "dedup dest = \<lparr>so_deduped = True, so_on_disk_size = 0, so_blocks = Written, so_unpacked = 0,
     so_staging_name = [], so_dest = dest\<rparr>"

definition fresh_outcome :: "u64 \<Rightarrow> u64 \<Rightarrow> bytes \<Rightarrow> bytes \<Rightarrow> stage_outcome" where
  "fresh_outcome on_disk unpacked name dest = \<lparr>so_deduped = False, so_on_disk_size = on_disk, so_blocks = Written,
     so_unpacked = unpacked, so_staging_name = name, so_dest = dest\<rparr>"

subsection \<open>Files\<close>

text \<open>\<open>linkat\<close> and \<open>symlinkat\<close> keep an existing entry, and the code takes \<open>EEXIST\<close> for success; \<open>renameat\<close> replaces it.\<close>

definition link_file :: "bytes \<Rightarrow> stored \<Rightarrow> bool \<Rightarrow> txn \<Rightarrow> txn" where
  "link_file name obj durable t =
     (if tx_files t name = None then t\<lparr>tx_files := (tx_files t)(name \<mapsto> (obj, durable))\<rparr> else t)"

definition rename_file :: "bytes \<Rightarrow> stored \<Rightarrow> bool \<Rightarrow> txn \<Rightarrow> txn" where
  "rename_file name obj durable t = t\<lparr>tx_files := (tx_files t)(name \<mapsto> (obj, durable))\<rparr>"

definition materialize :: "bool \<Rightarrow> bytes \<Rightarrow> stored \<Rightarrow> bool \<Rightarrow> txn \<Rightarrow> txn" where
  "materialize anonymous name obj durable t =
     (if anonymous then link_file name obj durable t else rename_file name obj durable t)"

definition object_exists :: "'h env \<Rightarrow> bytes \<Rightarrow> (txn, bool) op" where
  "object_exists env dest =
     op_bind (op_lift (call_result (ev_exists env dest))) (\<lambda>_. op_get (\<lambda>t. tx_objects t dest \<noteq> None))"

definition stage_content_blocking ::
    "'h env \<Rightarrow> repo_mode \<Rightarrow> bool \<Rightarrow> bool \<Rightarrow> checksum \<Rightarrow> file_header \<Rightarrow> bytes \<Rightarrow> bool \<Rightarrow> u64 \<Rightarrow> (txn, stage_outcome) op" where
  "stage_content_blocking env mode fsync per_object c header payload anonymous unpacked =
     (let dest = loose_path c File mode in
      op_bind (object_exists env dest) (\<lambda>exists.
      if exists then op_ret (dedup dest)
      else
        let name = flat_name c File mode; obj = Stored_file header payload in
        op_bind (op_lift (ev_stage env name obj)) (\<lambda>on_disk.
        op_bind (op_modify (materialize anonymous name obj (fsync \<and> per_object))) (\<lambda>_.
        op_ret (fresh_outcome on_disk unpacked name dest)))))"

definition read_only_mode :: repo_error where
  "read_only_mode = Unsupported (lit ''bare-split-xattrs is read-only; the port does not write it'')"

definition stage_symlink_blocking ::
    "'h env \<Rightarrow> repo_mode \<Rightarrow> bool \<Rightarrow> bool \<Rightarrow> checksum \<Rightarrow> file_header \<Rightarrow> (txn, stage_outcome) op" where
  "stage_symlink_blocking env mode fsync per_object c header =
     (let dest = loose_path c File mode in
      op_bind (object_exists env dest) (\<lambda>exists.
      if exists then op_ret (dedup dest)
      else
        let name = flat_name c File mode; obj = Stored_symlink header; do_fsync = fsync \<and> per_object;
            len = of_nat (length (fh_symlink_target header)) in
        op_bind
          (case mode of
             Bare \<Rightarrow> op_bind (op_lift (ev_stage env name obj)) (\<lambda>_.
               op_bind (op_modify (link_file name obj False)) (\<lambda>_. op_ret len))
           | BareUserOnly \<Rightarrow> op_bind (op_lift (ev_stage env name obj)) (\<lambda>_.
               op_bind (op_modify (link_file name obj False)) (\<lambda>_. op_ret len))
           | BareSplitXattrs \<Rightarrow> op_fail read_only_mode
           | Archive \<Rightarrow>
               op_bind (op_lift (from_core (andthen (fh_serialize_archive header 0) frame))) (\<lambda>_.
               op_bind (op_lift (ev_stage env name obj)) (\<lambda>on_disk.
               op_bind (op_modify (rename_file name obj do_fsync)) (\<lambda>_. op_ret on_disk)))
           | _ \<Rightarrow>
               op_bind (op_lift (from_core (fh_serialize_stat_metadata header))) (\<lambda>_.
               op_bind (op_lift (ev_stage env name obj)) (\<lambda>on_disk.
               op_bind (op_modify (rename_file name obj do_fsync)) (\<lambda>_. op_ret on_disk))))
          (\<lambda>on_disk. op_ret (fresh_outcome on_disk len name dest))))"

definition stage_metadata_blocking ::
    "'h env \<Rightarrow> repo_mode \<Rightarrow> bool \<Rightarrow> bool \<Rightarrow> checksum \<Rightarrow> object_type \<Rightarrow> bytes \<Rightarrow> (txn, stage_outcome) op" where
  "stage_metadata_blocking env mode fsync sync_metadata c ty bytes =
     (let dest = loose_path c ty mode in
      op_bind (object_exists env dest) (\<lambda>exists.
      if exists then op_ret (dedup dest)
      else
        let name = flat_name c ty mode; obj = Stored_meta bytes in
        op_bind (op_lift (ev_stage env name obj)) (\<lambda>on_disk.
        op_bind (op_modify (rename_file name obj (fsync \<and> sync_metadata))) (\<lambda>_.
        op_ret (fresh_outcome on_disk 0 name dest)))))"

subsection \<open>The record\<close>

definition count_offered :: "object_type \<Rightarrow> txn_stats \<Rightarrow> txn_stats" where
  "count_offered ty s =
     (if ty = File then s\<lparr>ts_content_total := ts_content_total s + 1\<rparr>
      else s\<lparr>ts_metadata_total := ts_metadata_total s + 1\<rparr>)"

definition count_written :: "object_type \<Rightarrow> stage_outcome \<Rightarrow> bool \<Rightarrow> txn_stats \<Rightarrow> txn_stats" where
  "count_written ty outcome payload s =
     (if ty = File then
        let s = s\<lparr>ts_content_written := ts_content_written s + 1,
              ts_content_bytes_written := ts_content_bytes_written s + so_on_disk_size outcome\<rparr> in
        if payload then s\<lparr>ts_content_bytes_unpacked := ts_content_bytes_unpacked s + so_unpacked outcome\<rparr> else s
      else s\<lparr>ts_metadata_written := ts_metadata_written s + 1\<rparr>)"

definition record_staged ::
    "repo_mode \<Rightarrow> object_key \<Rightarrow> stage_outcome \<Rightarrow> bool \<Rightarrow> bool \<Rightarrow> bool \<Rightarrow> staged \<Rightarrow> staged \<times> (repo_error, checksum) result" where
  "record_staged mode key outcome with_size payload synced sg =
     (let (c, ty) = key;
          sg = sg\<lparr>sg_stats := count_offered ty (sg_stats sg)\<rparr>;
          sg = (if with_size \<and> is_archive mode
                then sg\<lparr>sg_size_scope := map_option (AList.update c ty) (sg_size_scope sg)\<rparr> else sg) in
      if so_deduped outcome then (sg, Ok c)
      else if map_of (sg_objects sg) key \<noteq> None then (sg, Ok c)
      else
        let allocated = (case so_blocks outcome of Written \<Rightarrow> so_on_disk_size outcome | _ \<Rightarrow> 0) in
        if allocated > sg_free_budget sg then (sg, Err (InsufficientFreeSpace (allocated - sg_free_budget sg)))
        else
          let sg = sg\<lparr>sg_free_budget := sg_free_budget sg - allocated,
                sg_objects := sg_objects sg @ [(key, \<lparr>st_name = so_staging_name outcome, st_dest = so_dest outcome\<rparr>)]\<rparr>;
              sg = (if synced then sg\<lparr>sg_presynced := map_option Suc (sg_presynced sg)\<rparr> else sg);
              sg = (if with_size \<and> is_archive mode
                    then sg\<lparr>sg_sizes := AList.update c \<lparr>sr_compressed = so_on_disk_size outcome,
                      sr_unpacked = (if ty = File then so_unpacked outcome else so_on_disk_size outcome),
                      sr_objtype = ty\<rparr> (sg_sizes sg)\<rparr>
                    else sg)
          in (sg\<lparr>sg_stats := count_written ty outcome payload (sg_stats sg)\<rparr>, Ok c))"

definition record_object ::
    "repo_mode \<Rightarrow> object_key \<Rightarrow> stage_outcome \<Rightarrow> bool \<Rightarrow> bool \<Rightarrow> bool \<Rightarrow> (txn, checksum) op" where
  "record_object mode key outcome with_size payload synced t =
     (let (sg, r) = record_staged mode key outcome with_size payload synced (tx_staged t) in (t\<lparr>tx_staged := sg\<rparr>, r))"

definition record_image_staged ::
    "checksum \<Rightarrow> stage_outcome \<Rightarrow> staged \<Rightarrow> staged \<times> (repo_error, unit) result" where
  "record_image_staged commit outcome sg =
     (if map_of (sg_images sg) commit \<noteq> None then (sg, Ok ())
      else if so_on_disk_size outcome > sg_free_budget sg
      then (sg, Err (InsufficientFreeSpace (so_on_disk_size outcome - sg_free_budget sg)))
      else (sg\<lparr>sg_free_budget := sg_free_budget sg - so_on_disk_size outcome,
              sg_images := sg_images sg @ [(commit, \<lparr>st_name = so_staging_name outcome, st_dest = so_dest outcome\<rparr>)]\<rparr>, Ok ()))"

definition record_image :: "checksum \<Rightarrow> stage_outcome \<Rightarrow> (txn, unit) op" where
  "record_image commit outcome t =
     (let (sg, r) = record_image_staged commit outcome (tx_staged t) in (t\<lparr>tx_staged := sg\<rparr>, r))"

definition is_staged :: "txn \<Rightarrow> checksum \<Rightarrow> object_type \<Rightarrow> bool" where
  "is_staged t c ty \<longleftrightarrow> map_of (sg_objects (tx_staged t)) (c, ty) \<noteq> None"

definition on_staged :: "(staged \<Rightarrow> staged) \<Rightarrow> txn \<Rightarrow> txn" where
  "on_staged f t = t\<lparr>tx_staged := f (tx_staged t)\<rparr>"

definition begin_tree_source :: "staged \<Rightarrow> staged" where
  "begin_tree_source sg =
     (let scope = (case sg_size_scope sg of None \<Rightarrow> [] | Some s \<Rightarrow> s) in
      sg\<lparr>sg_size_scope := Some (filter (\<lambda>(c, ty). ty \<noteq> File) scope)\<rparr>)"

definition note_size_scope :: "checksum \<Rightarrow> object_type \<Rightarrow> staged \<Rightarrow> staged \<times> bool" where
  "note_size_scope c ty sg =
     (case sg_size_scope sg of
        Some scope \<Rightarrow> (sg\<lparr>sg_size_scope := Some (AList.update c ty scope)\<rparr>, map_of scope c = None)
      | None \<Rightarrow> (sg, False))"

definition in_size_scope :: "staged \<Rightarrow> checksum \<Rightarrow> bool" where
  "in_size_scope sg c = (case sg_size_scope sg of Some scope \<Rightarrow> map_of scope c \<noteq> None | None \<Rightarrow> True)"

definition size_entries :: "staged \<Rightarrow> size_entry list" where
  "size_entries sg = map (\<lambda>(c, r). \<lparr>se_checksum = c, se_compressed = sr_compressed r, se_unpacked = sr_unpacked r,
     se_objtype = Some (sr_objtype r)\<rparr>) (sg_sizes sg)"

definition mark_complete :: "checksum \<Rightarrow> staged \<Rightarrow> staged" where
  "mark_complete c sg = sg\<lparr>sg_complete := List.insert c (sg_complete sg)\<rparr>"

definition take_complete :: "staged \<Rightarrow> staged \<times> checksum list" where
  "take_complete sg = (sg\<lparr>sg_complete := []\<rparr>, sg_complete sg)"

subsection \<open>Staging an object\<close>

definition stage_regular ::
    "'h env \<Rightarrow> checksum \<Rightarrow> file_header \<Rightarrow> bytes \<Rightarrow> bool \<Rightarrow> u64 \<Rightarrow> bool \<Rightarrow> (txn, checksum) op" where
  "stage_regular env c header payload anonymous unpacked counted t =
     (let mode = tx_mode t in
      op_bind (op_lift (fsync_flags env t)) (\<lambda>(fsync, per_object).
      op_bind (op_lift (ev_verity env)) (\<lambda>_.
      op_bind (stage_content_blocking env mode fsync per_object c header payload anonymous unpacked) (\<lambda>outcome.
      record_object mode (c, File) outcome True counted False))) t)"

definition stage_symlink :: "'h env \<Rightarrow> checksum \<Rightarrow> file_header \<Rightarrow> (txn, checksum) op" where
  "stage_symlink env c header t =
     (let mode = tx_mode t in
      op_bind (op_lift (fsync_flags env t)) (\<lambda>(fsync, per_object).
      op_bind (op_lift (ev_verity env)) (\<lambda>_.
      op_bind (stage_symlink_blocking env mode fsync per_object c header) (\<lambda>outcome.
      record_object mode (c, File) outcome True False False))) t)"

definition stage_metadata_outcome :: "'h env \<Rightarrow> checksum \<Rightarrow> object_type \<Rightarrow> bytes \<Rightarrow> (txn, bool) op" where
  "stage_metadata_outcome env c ty bytes t =
     (let mode = tx_mode t in
      op_bind (op_lift (fsync_flags env t)) (\<lambda>(fsync, per_object).
      op_bind (op_lift (ev_verity env)) (\<lambda>_.
      let sync_metadata = fsync \<and> sg_presynced (tx_staged t) \<noteq> None in
      op_bind (stage_metadata_blocking env mode fsync sync_metadata c ty bytes) (\<lambda>outcome.
      op_bind (record_object mode (c, ty) outcome True False sync_metadata) (\<lambda>_.
      op_ret (\<not> so_deduped outcome))))) t)"

definition stage_metadata :: "'h env \<Rightarrow> checksum \<Rightarrow> object_type \<Rightarrow> bytes \<Rightarrow> (txn, checksum) op" where
  "stage_metadata env c ty bytes = op_bind (stage_metadata_outcome env c ty bytes) (\<lambda>_. op_ret c)"

subsection \<open>The writers\<close>

fun objtype_debug :: "object_type \<Rightarrow> ustr" where
  "objtype_debug File = lit ''File''"
| "objtype_debug DirTree = lit ''DirTree''"
| "objtype_debug DirMeta = lit ''DirMeta''"
| "objtype_debug Commit = lit ''Commit''"
| "objtype_debug TombstoneCommit = lit ''TombstoneCommit''"
| "objtype_debug CommitMeta = lit ''CommitMeta''"
| "objtype_debug PayloadLink = lit ''PayloadLink''"
| "objtype_debug FileXattrs = lit ''FileXattrs''"
| "objtype_debug FileXattrsLink = lit ''FileXattrsLink''"

definition check_expected :: "checksum option \<Rightarrow> checksum \<Rightarrow> (repo_error, unit) result" where
  "check_expected expected actual =
     (case expected of
        Some e \<Rightarrow> if e \<noteq> actual then Err (ChecksumMismatch e actual) else Ok ()
      | None \<Rightarrow> Ok ())"

definition write_metadata :: "'h env \<Rightarrow> object_type \<Rightarrow> checksum option \<Rightarrow> bytes \<Rightarrow> (txn, checksum) op" where
  "write_metadata env ty expected bytes t =
     (if tx_mode t = BareSplitXattrs then (t, Err read_only_mode)
      else if \<not> is_meta ty then
        (t, Err (Unsupported (lit ''write_metadata does not handle '' @ objtype_debug ty @ lit '' objects'')))
      else
        let c = sha_digest (ev_hasher env) bytes in
        op_bind (op_lift (check_expected expected c)) (\<lambda>_. stage_metadata env c ty bytes) t)"

definition dirmeta_bytes :: "repo_mode \<Rightarrow> dirmeta \<Rightarrow> (repo_error, bytes) result" where
  "dirmeta_bytes mode meta =
     from_core (if mode = BareUserOnly then dirmeta_serialize (canonical_dirmeta meta) else dirmeta_serialize meta)"

definition write_dirmeta :: "'h env \<Rightarrow> dirmeta \<Rightarrow> (txn, checksum) op" where
  "write_dirmeta env meta t =
     op_bind (op_lift (dirmeta_bytes (tx_mode t) meta)) (\<lambda>bytes. write_metadata env DirMeta None bytes) t"

definition write_symlink :: "'h env \<Rightarrow> bytes \<Rightarrow> file_meta \<Rightarrow> checksum option \<Rightarrow> (txn, checksum) op" where
  "write_symlink env target meta expected t =
     (if tx_mode t = BareSplitXattrs then (t, Err read_only_mode)
      else
        let header = canonical_header (tx_mode t) (symlink_header meta target) in
        op_bind (op_lift (from_core (andthen (fh_serialize header) frame))) (\<lambda>framed.
        let c = sha_digest (ev_hasher env) framed in
        op_bind (op_lift (check_expected expected c)) (\<lambda>_. stage_symlink env c header)) t)"

record 'h content_writer =
  cw_hasher :: 'h
  cw_uncompressed :: u64
  cw_header :: file_header
  cw_expected :: "checksum option"
  cw_anonymous :: bool
  cw_payload :: bytes
  cw_counted :: bool

definition archive_level :: "int \<Rightarrow> int" where
  "archive_level level = max 1 (min 9 level)"

definition content_writer_new ::
    "'h env \<Rightarrow> repo_mode \<Rightarrow> checksum option \<Rightarrow> file_meta \<Rightarrow> (repo_error, 'h content_writer) result" where
  "content_writer_new env mode expected meta =
     (if mode = BareSplitXattrs then Err read_only_mode
      else
        let header = canonical_header mode (regular_header meta) in
        andthen (from_core (andthen (fh_serialize header) frame)) (\<lambda>framed.
        andthen (ev_open_temp env) (\<lambda>anonymous.
        andthen
          (if is_archive mode then
             andthen (from_core (andthen (fh_serialize_archive header 0) frame)) (\<lambda>placeholder.
             andthen (call_result (ev_write env placeholder)) (\<lambda>_.
             andthen (ev_zlib_level env) (\<lambda>level. Ok (Some (archive_level level)))))
           else Ok None) (\<lambda>sink.
        Ok \<lparr>cw_hasher = h_update (ev_hasher env) (h_new (ev_hasher env)) framed, cw_uncompressed = 0,
          cw_header = header, cw_expected = expected, cw_anonymous = anonymous, cw_payload = [], cw_counted = True\<rparr>))))"

definition content_writer_uncounted :: "'h content_writer \<Rightarrow> 'h content_writer" where
  "content_writer_uncounted w = w\<lparr>cw_counted := False\<rparr>"

definition content_writer_write :: "'h env \<Rightarrow> 'h content_writer byte_writer" where
  "content_writer_write env w buf =
     andthen (call_result (ev_write env buf)) (\<lambda>_.
     Ok (w\<lparr>cw_hasher := h_update (ev_hasher env) (cw_hasher w) buf,
       cw_uncompressed := cw_uncompressed w + of_nat (length buf), cw_payload := cw_payload w @ buf\<rparr>))"

definition content_writer_finish :: "'h env \<Rightarrow> 'h content_writer \<Rightarrow> (txn, checksum) op" where
  "content_writer_finish env w =
     op_bind (op_lift (call_result (ev_flush env))) (\<lambda>_.
     let c = h_finalize (ev_hasher env) (cw_hasher w) in
     op_bind (op_lift (check_expected (cw_expected w) c)) (\<lambda>_.
     stage_regular env c (cw_header w) (cw_payload w) (cw_anonymous w) (cw_uncompressed w) (cw_counted w)))"

text \<open>The reader of \<open>write_content\<close> is the list of what its reads return, and how the reading ends.\<close>

definition write_content ::
    "'h env \<Rightarrow> checksum option \<Rightarrow> file_meta \<Rightarrow> bytes list \<Rightarrow> (repo_error, unit) result \<Rightarrow> (txn, checksum) op" where
  "write_content env expected meta reads read_end t =
     op_bind (op_lift (andthen (content_writer_new env (tx_mode t) expected meta)
       (\<lambda>w. andthen (write_each (content_writer_write env) reads w) (\<lambda>w. andthen read_end (\<lambda>_. Ok w)))))
       (content_writer_finish env) t"

definition write_regfile_inline :: "'h env \<Rightarrow> checksum option \<Rightarrow> file_meta \<Rightarrow> bytes \<Rightarrow> (txn, checksum) op" where
  "write_regfile_inline env expected meta data t =
     op_bind (op_lift (andthen (content_writer_new env (tx_mode t) expected meta)
       (\<lambda>w. content_writer_write env w data))) (content_writer_finish env) t"

subsection \<open>Durability and publication\<close>

definition sync_all :: "directory \<Rightarrow> directory" where
  "sync_all d = (\<lambda>name. map_option (\<lambda>(obj, _). (obj, True)) (d name))"

definition syncfs :: "'h env \<Rightarrow> (txn, unit) op" where
  "syncfs env =
     op_bind (op_lift (call_result (ev_syncfs env))) (\<lambda>_.
     op_modify (\<lambda>t. t\<lparr>tx_objects := sync_all (tx_objects t), tx_files := sync_all (tx_files t)\<rparr>))"

definition staged_count :: "staged \<Rightarrow> nat" where
  "staged_count sg = length (sg_objects sg) + length (sg_images sg)"

definition sync_staged :: "'h env \<Rightarrow> (txn, unit) op" where
  "sync_staged env t =
     op_bind (op_lift (fsync_flags env t)) (\<lambda>(fsync, _).
     if \<not> fsync then op_ret ()
     else
       let count = staged_count (tx_staged t) in
       op_bind (syncfs env) (\<lambda>_. op_modify (on_staged (\<lambda>sg. sg\<lparr>sg_presynced := Some count\<rparr>)))) t"

definition syncfs_at_publish :: "staged \<Rightarrow> bool \<Rightarrow> bool" where
  "syncfs_at_publish sg fsync \<longleftrightarrow> fsync \<and> sg_presynced sg \<noteq> Some (staged_count sg)"

definition rename_pairs :: "('k \<times> staged_object) list \<Rightarrow> (bytes \<times> bytes) list" where
  "rename_pairs os = map (\<lambda>(_, o'). (st_name o', st_dest o')) os"

definition publish_rename :: "'h env \<Rightarrow> bytes \<times> bytes \<Rightarrow> (txn, unit) op" where
  "publish_rename env p t =
     (let (name, dest) = p in
      op_bind (op_lift (call_result (ev_fanout env (take 2 dest)))) (\<lambda>_.
      op_bind (op_lift (call_result (ev_rename env name))) (\<lambda>_.
      (\<lambda>t. case tx_files t name of
         None \<Rightarrow> (t, Err Io_error)
       | Some f \<Rightarrow> (t\<lparr>tx_files := (tx_files t)(name := None), tx_objects := (tx_objects t)(dest \<mapsto> f)\<rparr>, Ok ())))) t)"

fun op_each :: "('a \<Rightarrow> ('s, unit) op) \<Rightarrow> 'a list \<Rightarrow> ('s, unit) op" where
  "op_each f [] = op_ret ()"
| "op_each f (x # xs) = op_bind (f x) (\<lambda>_. op_each f xs)"

definition publish_blocking ::
    "'h env \<Rightarrow> (bytes \<times> bytes) list \<Rightarrow> (bytes \<times> bytes) list \<Rightarrow> bool \<Rightarrow> bool \<Rightarrow> (txn, unit) op" where
  "publish_blocking env objects images do_syncfs fsync =
     op_bind (if do_syncfs then syncfs env else op_ret ()) (\<lambda>_.
     op_bind (op_each (publish_rename env) objects) (\<lambda>_.
     op_bind (if fsync then op_lift (call_result (ev_fsync_dirs env)) else op_ret ()) (\<lambda>_.
     if images = [] then op_ret () else op_lift (call_result (ev_publish_images env)))))"

definition publish :: "'h env \<Rightarrow> (txn, bool) op" where
  "publish env t =
     (let objects = rename_pairs (sg_objects (tx_staged t)); images = rename_pairs (sg_images (tx_staged t)) in
      if objects = [] \<and> images = [] then (t, Ok False)
      else
        op_bind (op_lift (fsync_flags env t)) (\<lambda>(fsync, _).
        let do_syncfs = syncfs_at_publish (tx_staged t) fsync in
        op_bind (publish_blocking env objects images do_syncfs fsync) (\<lambda>_. op_ret do_syncfs)) t)"

subsection \<open>What a stored object must be\<close>

definition has_id :: "(bytes \<Rightarrow> bytes) \<Rightarrow> object_key \<Rightarrow> stored \<Rightarrow> bool" where
  "has_id sha key obj =
     (case obj of
        Stored_meta b \<Rightarrow> is_meta (snd key) \<and> fst key = sha b
      | Stored_file h p \<Rightarrow> snd key = File \<and> (\<exists>f. andthen (fh_serialize h) frame = Ok f \<and> fst key = sha (f @ p))
      | Stored_symlink h \<Rightarrow> snd key = File \<and> (\<exists>f. andthen (fh_serialize h) frame = Ok f \<and> fst key = sha f))"

definition dir_ok ::
    "(bytes \<Rightarrow> bytes) \<Rightarrow> (checksum \<Rightarrow> object_type \<Rightarrow> repo_mode \<Rightarrow> bytes) \<Rightarrow> repo_mode \<Rightarrow> directory \<Rightarrow> bool" where
  "dir_ok sha naming mode d \<longleftrightarrow>
     (\<forall>c ty obj b. is_checksum c \<longrightarrow> d (naming c ty mode) = Some (obj, b) \<longrightarrow> has_id sha (c, ty) obj)"

definition recorded_ok :: "repo_mode \<Rightarrow> directory \<Rightarrow> object_key \<times> staged_object \<Rightarrow> bool" where
  "recorded_ok mode files e =
     (let ((c, ty), o') = e in
      is_checksum c \<and> o' = \<lparr>st_name = flat_name c ty mode, st_dest = loose_path c ty mode\<rparr> \<and>
      files (flat_name c ty mode) \<noteq> None)"

definition txn_ok :: "(bytes \<Rightarrow> bytes) \<Rightarrow> txn \<Rightarrow> bool" where
  "txn_ok sha t \<longleftrightarrow>
     dir_ok sha loose_path (tx_mode t) (tx_objects t) \<and> dir_ok sha flat_name (tx_mode t) (tx_files t) \<and>
     distinct (map fst (sg_objects (tx_staged t))) \<and>
     list_all (recorded_ok (tx_mode t) (tx_files t)) (sg_objects (tx_staged t))"

lemma flat_name_inj:
  assumes "is_checksum c" and "is_checksum d"
  shows "flat_name c ty mode = flat_name d ty' mode \<longleftrightarrow> c = d \<and> ty = ty'"
proof -
  have "length (to_hex c) = 64" "length (to_hex d) = 64" using assms by (simp_all add: is_checksum_def)
  then show ?thesis by (auto simp: flat_name_def append_eq_append_conv extension_inj to_hex_inj)
qed

lemma dir_ok_update:
  assumes "dir_ok sha naming mode d" and "has_id sha (c, ty) obj" and "is_checksum c"
    and "\<And>c' ty'. is_checksum c' \<Longrightarrow> naming c' ty' mode = naming c ty mode \<Longrightarrow> c' = c \<and> ty' = ty"
  shows "dir_ok sha naming mode (d(naming c ty mode \<mapsto> (obj, b)))"
  unfolding dir_ok_def
proof (intro allI impI)
  fix c' ty' obj' b' assume c': "is_checksum c'" and d: "(d(naming c ty mode \<mapsto> (obj, b))) (naming c' ty' mode) = Some (obj', b')"
  show "has_id sha (c', ty') obj'"
  proof (cases "naming c' ty' mode = naming c ty mode")
    case True
    then show ?thesis using assms(2) assms(4) [OF c' True] d by auto
  next
    case False
    then show ?thesis using assms(1) c' d unfolding dir_ok_def by auto
  qed
qed

lemma recorded_ok_mono:
  "recorded_ok mode files e \<Longrightarrow> (\<And>n. files n \<noteq> None \<Longrightarrow> files' n \<noteq> None) \<Longrightarrow> recorded_ok mode files' e"
  by (auto simp: recorded_ok_def Let_def split: prod.splits)

text \<open>Putting a file for its own identity under its flat name keeps the invariant.\<close>

lemma txn_ok_put:
  assumes "txn_ok sha t" and "has_id sha (c, ty) obj" and "is_checksum c"
  shows "txn_ok sha (rename_file (flat_name c ty (tx_mode t)) obj b t)"
    and "txn_ok sha (link_file (flat_name c ty (tx_mode t)) obj b t)"
    and "txn_ok sha (materialize anon (flat_name c ty (tx_mode t)) obj b t)"
proof -
  have *: "dir_ok sha flat_name (tx_mode t) ((tx_files t)(flat_name c ty (tx_mode t) \<mapsto> (obj, b)))"
    using assms by (intro dir_ok_update) (auto simp: txn_ok_def flat_name_inj)
  have **: "list_all (recorded_ok (tx_mode t) ((tx_files t)(flat_name c ty (tx_mode t) \<mapsto> (obj, b)))) (sg_objects (tx_staged t))"
    using assms(1) unfolding txn_ok_def by (auto simp: list_all_iff elim!: recorded_ok_mono)
  show r: "txn_ok sha (rename_file (flat_name c ty (tx_mode t)) obj b t)"
    using assms(1) * ** by (simp add: txn_ok_def rename_file_def)
  show l: "txn_ok sha (link_file (flat_name c ty (tx_mode t)) obj b t)"
    using assms(1) * ** by (simp add: txn_ok_def link_file_def)
  show "txn_ok sha (materialize anon (flat_name c ty (tx_mode t)) obj b t)"
    using r l by (simp add: materialize_def)
qed

lemma put_simps [simp]:
  "tx_mode (rename_file n obj b t) = tx_mode t" "tx_mode (link_file n obj b t) = tx_mode t"
  "tx_mode (materialize a n obj b t) = tx_mode t"
  "tx_staged (rename_file n obj b t) = tx_staged t" "tx_staged (link_file n obj b t) = tx_staged t"
  "tx_staged (materialize a n obj b t) = tx_staged t"
  "tx_objects (rename_file n obj b t) = tx_objects t" "tx_objects (link_file n obj b t) = tx_objects t"
  "tx_objects (materialize a n obj b t) = tx_objects t"
  by (simp_all add: rename_file_def link_file_def materialize_def)

lemma put_present:
  "tx_files (rename_file n obj b t) n \<noteq> None" "tx_files (link_file n obj b t) n \<noteq> None"
  "tx_files (materialize a n obj b t) n \<noteq> None"
  by (simp_all add: rename_file_def link_file_def materialize_def)

text \<open>The outcome of a staging step names the object: it is in \<open>objects/\<close>, or its file is in the staging
  directory.\<close>

definition outcome_ok :: "repo_mode \<Rightarrow> object_key \<Rightarrow> stage_outcome \<Rightarrow> txn \<Rightarrow> bool" where
  "outcome_ok mode key outcome t =
     (let (c, ty) = key in
      if so_deduped outcome then tx_objects t (loose_path c ty mode) \<noteq> None
      else so_staging_name outcome = flat_name c ty mode \<and> so_dest outcome = loose_path c ty mode \<and>
        tx_files t (flat_name c ty mode) \<noteq> None)"

abbreviation staged_as :: "(bytes \<Rightarrow> bytes) \<Rightarrow> repo_mode \<Rightarrow> object_key \<Rightarrow> stage_outcome \<Rightarrow> txn \<Rightarrow> bool" where
  "staged_as sha mode key outcome t \<equiv> txn_ok sha t \<and> tx_mode t = mode \<and> outcome_ok mode key outcome t"

abbreviation in_mode :: "(bytes \<Rightarrow> bytes) \<Rightarrow> repo_mode \<Rightarrow> txn \<Rightarrow> bool" where
  "in_mode sha mode t \<equiv> txn_ok sha t \<and> tx_mode t = mode"

lemma object_exists_valid:
  "op_valid (in_mode sha mode) (object_exists env dest)
     (\<lambda>e t. in_mode sha mode t \<and> (e \<longleftrightarrow> tx_objects t dest \<noteq> None)) (in_mode sha mode)"
  by (auto simp: object_exists_def op_valid_def op_bind_def call_result_def split: option.splits)

lemmas op_run = op_valid_def op_bind_def Let_def

lemma lift_valid: "op_valid P (op_lift r) (\<lambda>_. P) P"
  by (rule op_valid_weaken [OF op_valid_lift]) auto

text \<open>The frame that the three staging steps share: an object that \<open>objects/\<close> holds is a dedup hit, and another
  object is put under its flat name.\<close>

lemma put_valid:
  assumes "has_id sha (c, ty) obj" and "is_checksum c" and "name = flat_name c ty mode"
    and "put = rename_file name obj b \<or> put = link_file name obj b \<or> put = materialize a name obj b"
  shows "op_valid (in_mode sha mode) (op_modify put) (\<lambda>_ t. in_mode sha mode t \<and> tx_files t name \<noteq> None) E"
proof (rule op_valid_modify)
  fix t assume t: "in_mode sha mode t"
  then show "in_mode sha mode (put t) \<and> tx_files (put t) name \<noteq> None"
    using assms(3,4) txn_ok_put [OF _ assms(1,2), of t] put_present(1,2) [of name obj b t] put_present(3) [of a name obj b t]
    by auto
qed

lemma stage_or_dedup:
  assumes "op_valid (in_mode sha mode) m (staged_as sha mode (c, ty)) (in_mode sha mode)"
  shows "op_valid (in_mode sha mode)
    (op_bind (object_exists env (loose_path c ty mode)) (\<lambda>e. if e then op_ret (dedup (loose_path c ty mode)) else m))
    (staged_as sha mode (c, ty)) (in_mode sha mode)"
proof (rule op_valid_bind [OF object_exists_valid], rule op_valid_if)
  fix e :: bool assume e
  show "op_valid (\<lambda>t. in_mode sha mode t \<and> (e \<longleftrightarrow> tx_objects t (loose_path c ty mode) \<noteq> None))
      (op_ret (dedup (loose_path c ty mode))) (staged_as sha mode (c, ty)) (in_mode sha mode)"
    by (rule op_valid_ret) (use \<open>e\<close> in \<open>auto simp: outcome_ok_def dedup_def\<close>)
next
  fix e :: bool
  show "op_valid (\<lambda>t. in_mode sha mode t \<and> (e \<longleftrightarrow> tx_objects t (loose_path c ty mode) \<noteq> None)) m
      (staged_as sha mode (c, ty)) (in_mode sha mode)"
    by (rule op_valid_weaken [OF assms]) auto
qed

lemma outcome_valid:
  "name = flat_name c ty mode \<Longrightarrow> dest = loose_path c ty mode \<Longrightarrow>
   op_valid (\<lambda>t. in_mode sha mode t \<and> tx_files t name \<noteq> None) (op_ret (fresh_outcome n u name dest)) (staged_as sha mode (c, ty)) E"
  by (rule op_valid_ret) (auto simp: outcome_ok_def fresh_outcome_def)

lemmas stage_rules = stage_or_dedup op_valid_bind [OF lift_valid] outcome_valid

lemma stage_metadata_blocking_valid:
  assumes "has_id sha (c, ty) (Stored_meta bytes)" and "is_checksum c"
  shows "op_valid (in_mode sha mode) (stage_metadata_blocking env mode fs sync c ty bytes)
     (staged_as sha mode (c, ty)) (in_mode sha mode)"
  unfolding stage_metadata_blocking_def Let_def
  by (intro stage_rules op_valid_bind [OF put_valid [OF assms refl, where b = "fs \<and> sync"]] refl) simp

lemma stage_content_blocking_valid:
  assumes "has_id sha (c, File) (Stored_file header payload)" and "is_checksum c"
  shows "op_valid (in_mode sha mode) (stage_content_blocking env mode fs po c header payload a u)
     (staged_as sha mode (c, File)) (in_mode sha mode)"
  unfolding stage_content_blocking_def Let_def
  by (intro stage_rules op_valid_bind [OF put_valid [OF assms refl, where b = "fs \<and> po" and a = a]] refl) simp

text \<open>The symlink step stores the object in a form of the mode before it names it.\<close>

lemma stage_symlink_blocking_valid:
  assumes "has_id sha (c, File) (Stored_symlink header)" and "is_checksum c"
  shows "op_valid (in_mode sha mode) (stage_symlink_blocking env mode fs po c header)
     (staged_as sha mode (c, File)) (in_mode sha mode)"
proof -
  let ?n = "flat_name c File mode" and ?o = "Stored_symlink header"
  let ?Q = "\<lambda>_ :: u64. \<lambda>t. in_mode sha mode t \<and> tx_files t ?n \<noteq> None"
  have putr: "op_valid (in_mode sha mode) (op_bind (op_modify (rename_file ?n ?o b)) (\<lambda>_. op_ret x)) ?Q (in_mode sha mode)" for b x
    by (rule op_valid_bind [OF put_valid [OF assms refl, where b = b]], blast) (rule op_valid_ret)
  have putl: "op_valid (in_mode sha mode) (op_bind (op_modify (link_file ?n ?o b)) (\<lambda>_. op_ret x)) ?Q (in_mode sha mode)" for b x
    by (rule op_valid_bind [OF put_valid [OF assms refl, where b = b]], blast) (rule op_valid_ret)
  show ?thesis
    unfolding stage_symlink_blocking_def Let_def
  proof (rule stage_or_dedup, rule op_valid_bind [where Q = ?Q], goal_cases)
    case 1
    show ?case by (split repo_mode.split) (intro conjI impI putr putl op_valid_bind [OF lift_valid] op_valid_fail; simp)
  next
    case (2 n)
    show ?case by (rule outcome_valid [OF refl refl])
  qed
qed

text \<open>The record keeps the invariant, and on success the object is in \<open>objects/\<close> or in the staged set.\<close>

definition offered :: "repo_mode \<Rightarrow> object_key \<Rightarrow> txn \<Rightarrow> bool" where
  "offered mode key t \<longleftrightarrow>
     tx_objects t (loose_path (fst key) (snd key) mode) \<noteq> None \<or> is_staged t (fst key) (snd key)"

lemma record_staged_cases:
  assumes "record_staged mode key outcome ws pl sy sg = (sg', r)"
  obtains (keep) "sg_objects sg' = sg_objects sg" "\<And>c. r = Ok c \<Longrightarrow> c = fst key \<and> (so_deduped outcome \<or> map_of (sg_objects sg) key \<noteq> None)"
      "sg_presynced sg' = sg_presynced sg" "sg_images sg' = sg_images sg" "sg_free_budget sg' = sg_free_budget sg"
    | (add) "\<not> so_deduped outcome" "map_of (sg_objects sg) key = None" "r = Ok (fst key)"
      "sg_objects sg' = sg_objects sg @ [(key, \<lparr>st_name = so_staging_name outcome, st_dest = so_dest outcome\<rparr>)]"
      "sg_presynced sg' = (if sy then map_option Suc (sg_presynced sg) else sg_presynced sg)" "sg_images sg' = sg_images sg"
      "sg_free_budget sg' \<le> sg_free_budget sg"
proof -
  obtain c ty where key: "key = (c, ty)" by (cases key)
  let ?a = "case so_blocks outcome of Written \<Rightarrow> so_on_disk_size outcome | _ \<Rightarrow> 0"
  have budget: "sg_free_budget sg - ?a \<le> sg_free_budget sg" if "\<not> sg_free_budget sg < ?a"
    using that by (simp add: word_sub_le not_less)
  show thesis
  proof (cases "so_deduped outcome \<or> map_of (sg_objects sg) key \<noteq> None \<or> sg_free_budget sg < ?a")
    case True
    then show thesis using assms
      by (intro keep) (auto simp: record_staged_def key Let_def split: if_splits)
  next
    case False
    then show thesis using assms budget
      by (intro add) (auto simp: record_staged_def key Let_def split: if_splits)
  qed
qed

lemma record_object_fields:
  assumes "record_object mode key outcome ws pl sy t = (t', r)"
  shows "tx_mode t' = tx_mode t" "tx_objects t' = tx_objects t" "tx_files t' = tx_files t"
    "tx_fsync_override t' = tx_fsync_override t"
    "record_staged mode key outcome ws pl sy (tx_staged t) = (tx_staged t', r)"
  using assms by (auto simp: record_object_def split: prod.splits)

lemma record_object_valid:
  assumes "is_checksum (fst key)"
  shows "op_valid (staged_as sha mode key outcome) (record_object mode key outcome ws pl sy)
     (\<lambda>c t. in_mode sha mode t \<and> c = fst key \<and> offered mode key t) (in_mode sha mode)"
proof -
  have *: "in_mode sha mode t' \<and> (\<forall>c. r = Ok c \<longrightarrow> c = fst key \<and> offered mode key t')"
    if t: "staged_as sha mode key outcome t" and run: "record_object mode key outcome ws pl sy t = (t', r)" for t t' r
    using record_object_fields(5) [OF run]
  proof (cases rule: record_staged_cases)
    case keep
    then show ?thesis using t record_object_fields [OF run]
      by (auto simp: txn_ok_def outcome_ok_def offered_def is_staged_def Let_def split: prod.splits if_splits)
  next
    case add
    then show ?thesis using t record_object_fields [OF run] assms
      by (auto simp: txn_ok_def outcome_ok_def offered_def is_staged_def recorded_ok_def map_of_eq_None_iff Let_def split: prod.splits)
  qed
  show ?thesis by (rule op_validI) (use * in blast)+
qed

abbreviation now_offered :: "(bytes \<Rightarrow> bytes) \<Rightarrow> repo_mode \<Rightarrow> object_key \<Rightarrow> checksum \<Rightarrow> txn \<Rightarrow> bool" where
  "now_offered sha mode key c t \<equiv> in_mode sha mode t \<and> c = fst key \<and> offered mode key t"

lemma stage_regular_valid:
  assumes "has_id sha (c, File) (Stored_file header payload)" and "is_checksum c"
  shows "op_valid (in_mode sha mode) (stage_regular env c header payload a u counted)
     (now_offered sha mode (c, File)) (in_mode sha mode)"
proof -
  let ?op = "\<lambda>t. op_bind (op_lift (fsync_flags env t)) (\<lambda>(fsync, per_object).
      op_bind (op_lift (ev_verity env)) (\<lambda>_.
      op_bind (stage_content_blocking env mode fsync per_object c header payload a u) (\<lambda>outcome.
      record_object mode (c, File) outcome True counted False)))"
  have op: "op_valid (in_mode sha mode) (?op t) (now_offered sha mode (c, File)) (in_mode sha mode)" for t
    by (rule op_valid_bind [OF lift_valid], split prod.split)
      (intro allI impI op_valid_bind [OF lift_valid] op_valid_bind [OF stage_content_blocking_valid [OF assms]]
        record_object_valid; simp add: assms)
  show ?thesis by (rule op_valid_at [where f = ?op, OF _ op]) (simp add: stage_regular_def Let_def)
qed

lemma stage_symlink_valid:
  assumes "has_id sha (c, File) (Stored_symlink header)" and "is_checksum c"
  shows "op_valid (in_mode sha mode) (stage_symlink env c header) (now_offered sha mode (c, File)) (in_mode sha mode)"
proof -
  let ?op = "\<lambda>t. op_bind (op_lift (fsync_flags env t)) (\<lambda>(fsync, per_object).
      op_bind (op_lift (ev_verity env)) (\<lambda>_.
      op_bind (stage_symlink_blocking env mode fsync per_object c header) (\<lambda>outcome.
      record_object mode (c, File) outcome True False False)))"
  have op: "op_valid (in_mode sha mode) (?op t) (now_offered sha mode (c, File)) (in_mode sha mode)" for t
    by (rule op_valid_bind [OF lift_valid], split prod.split)
      (intro allI impI op_valid_bind [OF lift_valid] op_valid_bind [OF stage_symlink_blocking_valid [OF assms]]
        record_object_valid; simp add: assms)
  show ?thesis by (rule op_valid_at [where f = ?op, OF _ op]) (simp add: stage_symlink_def Let_def)
qed

lemma stage_metadata_valid:
  assumes "has_id sha (c, ty) (Stored_meta bytes)" and "is_checksum c"
  shows "op_valid (in_mode sha mode) (stage_metadata env c ty bytes) (now_offered sha mode (c, ty)) (in_mode sha mode)"
proof -
  let ?sync = "\<lambda>t fsync. fsync \<and> sg_presynced (tx_staged t) \<noteq> None"
  let ?op = "\<lambda>t. op_bind (op_lift (fsync_flags env t)) (\<lambda>(fsync, per_object).
      op_bind (op_lift (ev_verity env)) (\<lambda>_.
      op_bind (stage_metadata_blocking env mode fsync (?sync t fsync) c ty bytes) (\<lambda>outcome.
      op_bind (record_object mode (c, ty) outcome True False (?sync t fsync)) (\<lambda>_.
      op_ret (\<not> so_deduped outcome)))))"
  have op: "op_valid (in_mode sha mode) (?op t) (\<lambda>_. now_offered sha mode (c, ty) c) (in_mode sha mode)" for t
    by (rule op_valid_bind [OF lift_valid], split prod.split)
      (intro allI impI op_valid_bind [OF lift_valid] op_valid_bind [OF stage_metadata_blocking_valid [OF assms]]
        op_valid_bind [OF record_object_valid] op_valid_ret; simp add: assms)
  have "op_valid (in_mode sha mode) (stage_metadata_outcome env c ty bytes)
      (\<lambda>_. now_offered sha mode (c, ty) c) (in_mode sha mode)"
    by (rule op_valid_at [where f = ?op, OF _ op]) (simp add: stage_metadata_outcome_def Let_def)
  then show ?thesis
    unfolding stage_metadata_def by (rule op_valid_bind) (rule op_valid_ret, simp)
qed

subsection \<open>The writers store what they hash\<close>

definition sha_laws :: "'h hasher \<Rightarrow> (bytes \<Rightarrow> bytes) \<Rightarrow> bool" where
  "sha_laws H sha \<longleftrightarrow> digest_laws H sha \<and> (\<forall>bs. length (sha bs) = 32)"

lemma sha_digest_eq: "sha_laws H sha \<Longrightarrow> sha_digest H bs = sha bs"
  by (auto simp: sha_laws_def digest_laws_def sha_digest_def dest: spec [where x = "[bs]"])

lemma sha_checksum: "sha_laws H sha \<Longrightarrow> is_checksum (sha bs)"
  by (simp add: sha_laws_def is_checksum_def)

inductive cw_built :: "'h hasher \<Rightarrow> repo_mode \<Rightarrow> 'h content_writer \<Rightarrow> bool" for H mode where
  cw_new: "content_writer_new env mode e meta = Ok w \<Longrightarrow> ev_hasher env = H \<Longrightarrow> cw_built H mode w"
| cw_uncounted: "cw_built H mode w \<Longrightarrow> cw_built H mode (content_writer_uncounted w)"
| cw_write: "cw_built H mode w \<Longrightarrow> ev_hasher env = H \<Longrightarrow> content_writer_write env w b = Ok w' \<Longrightarrow> cw_built H mode w'"

lemma cw_built_hash:
  assumes "cw_built H mode w"
  shows "\<exists>f chunks. andthen (fh_serialize (cw_header w)) frame = Ok f \<and> concat chunks = cw_payload w \<and>
    cw_hasher w = fold (\<lambda>b h. h_update H h b) (f # chunks) (h_new H)"
  using assms
proof induction
  case (cw_new env e meta w)
  then obtain f where "andthen (fh_serialize (cw_header w)) frame = Ok f" "cw_payload w = []" "cw_hasher w = h_update H (h_new H) f"
    by (auto simp: content_writer_new_def result_simps Let_def split: if_splits)
  then show ?case by (intro exI [of _ f] exI [of _ "[]"]) simp
next
  case (cw_uncounted w)
  then show ?case by (simp add: content_writer_uncounted_def)
next
  case (cw_write w env b w')
  then obtain f chunks where "andthen (fh_serialize (cw_header w)) frame = Ok f" "concat chunks = cw_payload w"
    "cw_hasher w = fold (\<lambda>b h. h_update H h b) (f # chunks) (h_new H)" by blast
  then show ?case using cw_write.hyps
    by (intro exI [of _ f] exI [of _ "chunks @ [b]"]) (auto simp: content_writer_write_def result_simps)
qed

lemma cw_built_id:
  assumes "cw_built H mode w" and "sha_laws H sha"
  shows "has_id sha (h_finalize H (cw_hasher w), File) (Stored_file (cw_header w) (cw_payload w))"
    and "is_checksum (h_finalize H (cw_hasher w))"
proof -
  obtain f chunks where f: "andthen (fh_serialize (cw_header w)) frame = Ok f" "concat chunks = cw_payload w"
    "cw_hasher w = fold (\<lambda>b h. h_update H h b) (f # chunks) (h_new H)" using cw_built_hash [OF assms(1)] by blast
  have *: "h_finalize H (cw_hasher w) = sha (f @ cw_payload w)"
    using assms(2) f(2) unfolding f(3) sha_laws_def digest_laws_def by (metis concat.simps(2))
  show "has_id sha (h_finalize H (cw_hasher w), File) (Stored_file (cw_header w) (cw_payload w))"
    using f(1) by (simp add: has_id_def *)
  show "is_checksum (h_finalize H (cw_hasher w))" using assms(2) by (simp add: * sha_checksum)
qed

lemma content_writer_finish_valid:
  assumes "sha_laws H sha" and "cw_built H mode w" and "ev_hasher env = H"
  shows "op_valid (in_mode sha mode) (content_writer_finish env w)
     (now_offered sha mode (h_finalize H (cw_hasher w), File)) (in_mode sha mode)"
  unfolding content_writer_finish_def Let_def assms(3)
  by (intro op_valid_bind [OF lift_valid] stage_regular_valid cw_built_id [OF assms(2,1)])

lemma write_metadata_valid:
  assumes "sha_laws (ev_hasher env) sha"
  shows "op_valid (in_mode sha mode) (write_metadata env ty e bytes) (now_offered sha mode (sha bytes, ty)) (in_mode sha mode)"
proof (cases "mode = BareSplitXattrs \<or> \<not> is_meta ty")
  case True
  have "\<exists>e'. write_metadata env ty e bytes t = (t, Err e')" if "tx_mode t = mode" for t
    using True that unfolding write_metadata_def by (cases "mode = BareSplitXattrs") simp_all
  then show ?thesis by (intro op_validI) fastforce+
next
  case False
  let ?op = "op_bind (op_lift (check_expected e (sha bytes))) (\<lambda>_. stage_metadata env (sha bytes) ty bytes)"
  have op: "op_valid (in_mode sha mode) ?op (now_offered sha mode (sha bytes, ty)) (in_mode sha mode)"
    using False by (intro op_valid_bind [OF lift_valid] stage_metadata_valid sha_checksum [OF assms]) (simp add: has_id_def)
  show ?thesis
    by (rule op_valid_at [where f = "\<lambda>_. ?op", OF _ op]) (use False in \<open>auto simp: write_metadata_def Let_def sha_digest_eq [OF assms]\<close>)
qed

lemma write_symlink_valid:
  assumes "sha_laws (ev_hasher env) sha"
  shows "op_valid (in_mode sha mode) (write_symlink env target meta e)
    (\<lambda>c t. in_mode sha mode t \<and> offered mode (c, File) t) (in_mode sha mode)"
proof (cases "mode = BareSplitXattrs")
  case True
  then show ?thesis by (intro op_validI) (auto simp: write_symlink_def)
next
  case False
  let ?h = "canonical_header mode (symlink_header meta target)"
  let ?ser = "from_core (andthen (fh_serialize ?h) frame)"
  let ?rest = "\<lambda>framed. op_bind (op_lift (check_expected e (sha framed))) (\<lambda>_. stage_symlink env (sha framed) ?h)"
  let ?Q = "\<lambda>c t. in_mode sha mode t \<and> offered mode (c, File) t"
  have rest: "op_valid (\<lambda>s. ?ser = Ok f \<and> in_mode sha mode s) (?rest f) ?Q (in_mode sha mode)" for f
  proof (cases "?ser = Ok f")
    case True
    then have "has_id sha (sha f, File) (Stored_symlink ?h)" by (simp add: has_id_def from_core_Ok)
    then have "op_valid (in_mode sha mode) (?rest f) (now_offered sha mode (sha f, File)) (in_mode sha mode)"
      by (intro op_valid_bind [OF lift_valid] stage_symlink_valid sha_checksum [OF assms])
    then show ?thesis by (rule op_valid_weaken) auto
  qed (simp add: op_valid_def)
  have op: "op_valid (in_mode sha mode) (op_bind (op_lift ?ser) ?rest) ?Q (in_mode sha mode)"
    by (rule op_valid_bind [OF op_valid_lift rest])
  show ?thesis
    by (rule op_valid_at [where f = "\<lambda>_. op_bind (op_lift ?ser) ?rest", OF _ op])
      (use False in \<open>auto simp: write_symlink_def Let_def sha_digest_eq [OF assms]\<close>)
qed

subsection \<open>Transactions as runs\<close>

definition stats_default :: txn_stats where
  "stats_default = \<lparr>ts_metadata_total = 0, ts_metadata_written = 0, ts_content_total = 0, ts_content_written = 0,
     ts_content_bytes_written = 0, ts_content_bytes_unpacked = 0, ts_devino_cache_hits = 0, ts_filtered = 0\<rparr>"

definition staged_new :: "u64 \<Rightarrow> staged" where
  "staged_new budget = \<lparr>sg_objects = [], sg_images = [], sg_complete = [], sg_sizes = [], sg_size_scope = None,
     sg_free_budget = budget, sg_stats = stats_default, sg_presynced = None\<rparr>"

definition env_of :: "'h hasher \<Rightarrow> bool \<Rightarrow> 'h env \<Rightarrow> txn \<Rightarrow> bool" where
  "env_of H fs env t \<longleftrightarrow> ev_hasher env = H \<and> (\<forall>x y. fsync_flags env t = Ok (x, y) \<longrightarrow> x = fs)"

text \<open>After a sync, a step replaces no file of the staging directory.\<close>

definition no_restage :: "txn \<Rightarrow> txn \<Rightarrow> bool" where
  "no_restage t t' \<longleftrightarrow> sg_presynced (tx_staged t) = None \<or> tx_files t \<subseteq>\<^sub>m tx_files t'"

text \<open>The states of a transaction over any sequence of operations, successful or not, in any environments with one
  hash function and one value \<open>fs\<close> of the fsync setting. With \<open>g\<close>, no content object is staged again after a
  sync.\<close>

inductive txn_reach :: "'h hasher \<Rightarrow> (bytes \<Rightarrow> bytes) \<Rightarrow> bool \<Rightarrow> bool \<Rightarrow> txn \<Rightarrow> bool" for H sha fs g where
  reach_new: "dir_ok sha loose_path (tx_mode t) (tx_objects t) \<Longrightarrow> dir_ok sha flat_name (tx_mode t) (tx_files t) \<Longrightarrow>
    tx_staged t = staged_new budget \<Longrightarrow> txn_reach H sha fs g t"
| reach_metadata: "txn_reach H sha fs g t \<Longrightarrow> env_of H fs env t \<Longrightarrow> write_metadata env ty e b t = (t', r) \<Longrightarrow>
    txn_reach H sha fs g t'"
| reach_symlink: "txn_reach H sha fs g t \<Longrightarrow> env_of H fs env t \<Longrightarrow> write_symlink env target meta e t = (t', r) \<Longrightarrow>
    (g \<Longrightarrow> no_restage t t') \<Longrightarrow> txn_reach H sha fs g t'"
| reach_content: "txn_reach H sha fs g t \<Longrightarrow> env_of H fs env t \<Longrightarrow> cw_built H (tx_mode t) w \<Longrightarrow>
    content_writer_finish env w t = (t', r) \<Longrightarrow> (g \<Longrightarrow> no_restage t t') \<Longrightarrow> txn_reach H sha fs g t'"
| reach_image: "txn_reach H sha fs g t \<Longrightarrow> record_image c outcome t = (t', r) \<Longrightarrow> txn_reach H sha fs g t'"
| reach_sync: "txn_reach H sha fs g t \<Longrightarrow> env_of H fs env t \<Longrightarrow> sync_staged env t = (t', r) \<Longrightarrow> txn_reach H sha fs g t'"
| reach_scope: "txn_reach H sha fs g t \<Longrightarrow> f \<in> {begin_tree_source, fst \<circ> note_size_scope c ty, mark_complete c, fst \<circ> take_complete} \<Longrightarrow>
    txn_reach H sha fs g (on_staged f t)"

lemma scope_fields:
  assumes "f \<in> {begin_tree_source, fst \<circ> note_size_scope c ty, mark_complete c, fst \<circ> take_complete}"
  shows "sg_objects (f sg) = sg_objects sg" "sg_images (f sg) = sg_images sg" "sg_presynced (f sg) = sg_presynced sg"
  using assms by (auto simp: begin_tree_source_def note_size_scope_def mark_complete_def take_complete_def Let_def split: option.splits)

lemma record_image_fields:
  assumes "record_image c outcome t = (t', r)"
  shows "tx_mode t' = tx_mode t" "tx_objects t' = tx_objects t" "tx_files t' = tx_files t"
    "sg_objects (tx_staged t') = sg_objects (tx_staged t)" "sg_presynced (tx_staged t') = sg_presynced (tx_staged t)"
    "length (sg_images (tx_staged t)) \<le> length (sg_images (tx_staged t'))"
  using assms by (auto simp: record_image_def record_image_staged_def split: if_splits prod.splits)

lemma dir_ok_sync: "dir_ok sha naming mode (sync_all d) \<longleftrightarrow> dir_ok sha naming mode d"
  unfolding dir_ok_def sync_all_def by (auto simp: map_option_eq_Some)

lemma recorded_ok_sync: "recorded_ok mode (sync_all d) e \<longleftrightarrow> recorded_ok mode d e"
  by (auto simp: recorded_ok_def sync_all_def Let_def split: prod.splits)

lemma sync_staged_cases:
  assumes "sync_staged env t = (t', r)"
  obtains "t' = t"
  | "t' = t\<lparr>tx_objects := sync_all (tx_objects t), tx_files := sync_all (tx_files t),
      tx_staged := (tx_staged t)\<lparr>sg_presynced := Some (staged_count (tx_staged t))\<rparr>\<rparr>"
  using assms
  by (auto simp: sync_staged_def op_bind_def syncfs_def call_result_def on_staged_def Let_def
      split: result.splits option.splits if_splits prod.splits)

lemma txn_reach_ok:
  assumes "txn_reach H sha fs g t" and "sha_laws H sha"
  shows "txn_ok sha t"
  using assms(1)
proof induction
  case (reach_new t budget)
  then show ?case by (simp add: txn_ok_def dir_ok_def staged_new_def)
next
  case (reach_metadata t env ty e b t' r)
  have "sha_laws (ev_hasher env) sha" using assms(2) reach_metadata.hyps(2) by (simp add: env_of_def)
  from op_valid_keeps [OF write_metadata_valid [OF this] _ reach_metadata.hyps(3)] reach_metadata.IH show ?case by blast
next
  case (reach_symlink t env target meta e t' r)
  have "sha_laws (ev_hasher env) sha" using assms(2) reach_symlink.hyps(2) by (simp add: env_of_def)
  from op_valid_keeps [OF write_symlink_valid [OF this] _ reach_symlink.hyps(3)] reach_symlink.IH show ?case by blast
next
  case (reach_content t env w t' r)
  have "ev_hasher env = H" using reach_content.hyps(2) by (simp add: env_of_def)
  from op_valid_keeps [OF content_writer_finish_valid [OF assms(2) reach_content.hyps(3) this] _ reach_content.hyps(4)]
    reach_content.IH show ?case by blast
next
  case (reach_image t c outcome t' r)
  then show ?case using record_image_fields [OF reach_image.hyps(2)] by (simp add: txn_ok_def)
next
  case (reach_sync t env t' r)
  then show ?case
    by (elim sync_staged_cases) (auto simp: txn_ok_def dir_ok_sync list_all_iff recorded_ok_sync)
next
  case (reach_scope t f c ty)
  then show ?case using scope_fields [OF reach_scope.hyps(2)] by (simp add: txn_ok_def on_staged_def)
qed

text \<open>\<open>write_content\<close> and \<open>write_regfile_inline\<close> are runs of a writer that the code builds from the empty payload.\<close>

lemma cw_built_each:
  "cw_built H mode w \<Longrightarrow> ev_hasher env = H \<Longrightarrow> write_each (content_writer_write env) bs w = Ok w' \<Longrightarrow> cw_built H mode w'"
  by (induction bs arbitrary: w) (auto simp: result_simps intro: cw_write)

lemma write_content_run:
  assumes "write_content env e meta reads read_end t = (t', r)"
  shows "t' = t \<or> (\<exists>w. cw_built (ev_hasher env) (tx_mode t) w \<and> content_writer_finish env w t = (t', r))"
  using assms unfolding write_content_def op_bind_def
  by (auto simp: result_simps split: result.splits prod.splits intro: cw_new cw_built_each [OF cw_new])

lemma write_regfile_inline_run:
  assumes "write_regfile_inline env e meta data t = (t', r)"
  shows "t' = t \<or> (\<exists>w. cw_built (ev_hasher env) (tx_mode t) w \<and> content_writer_finish env w t = (t', r))"
  using assms unfolding write_regfile_inline_def op_bind_def
  by (auto simp: result_simps split: result.splits prod.splits intro: cw_new cw_write [OF cw_new])

subsection \<open>Publication\<close>

definition entry_named :: "repo_mode \<Rightarrow> object_key \<times> staged_object \<Rightarrow> bool" where
  "entry_named mode e = (let ((c, ty), o') = e in
     is_checksum c \<and> o' = \<lparr>st_name = flat_name c ty mode, st_dest = loose_path c ty mode\<rparr>)"

definition store_ok :: "(bytes \<Rightarrow> bytes) \<Rightarrow> repo_mode \<Rightarrow> txn \<Rightarrow> bool" where
  "store_ok sha mode t \<longleftrightarrow> tx_mode t = mode \<and>
     dir_ok sha loose_path mode (tx_objects t) \<and> dir_ok sha flat_name mode (tx_files t)"

lemma op_valid_each:
  assumes "\<And>x. x \<in> set xs \<Longrightarrow> op_valid P (f x) (\<lambda>_. P) P"
  shows "op_valid P (op_each f xs) (\<lambda>_. P) P"
  using assms by (induction xs) (auto intro!: op_valid_ret op_valid_bind)

lemma publish_rename_valid:
  assumes "entry_named mode e"
  shows "op_valid (store_ok sha mode) (publish_rename env (st_name (snd e), st_dest (snd e))) (\<lambda>_. store_ok sha mode) (store_ok sha mode)"
proof -
  obtain c ty where e: "is_checksum c" "st_name (snd e) = flat_name c ty mode" "st_dest (snd e) = loose_path c ty mode"
    using assms by (auto simp: entry_named_def Let_def split: prod.splits)
  have "store_ok sha mode (t\<lparr>tx_files := (tx_files t)(flat_name c ty mode := None),
      tx_objects := (tx_objects t)(loose_path c ty mode \<mapsto> f)\<rparr>)"
    if t: "store_ok sha mode t" and f: "tx_files t (flat_name c ty mode) = Some f" for t f
  proof -
    obtain obj b where fb: "f = (obj, b)" by (cases f)
    have "has_id sha (c, ty) obj" using t f e(1) by (auto simp: store_ok_def dir_ok_def fb)
    then have "dir_ok sha loose_path mode ((tx_objects t)(loose_path c ty mode \<mapsto> (obj, b)))"
      using t e(1) by (intro dir_ok_update) (auto simp: store_ok_def loose_path_inj)
    moreover have "dir_ok sha flat_name mode ((tx_files t)(flat_name c ty mode := None))"
      using t by (auto simp: store_ok_def dir_ok_def)
    ultimately show ?thesis using t by (simp add: store_ok_def fb)
  qed
  then show ?thesis
    unfolding e by (auto simp: op_valid_def op_bind_def publish_rename_def call_result_def split: option.splits)
qed

lemma publish_blocking_valid:
  assumes "list_all (entry_named mode) es"
  shows "op_valid (store_ok sha mode) (publish_blocking env (rename_pairs es) images sf fs) (\<lambda>_. store_ok sha mode) (store_ok sha mode)"
proof -
  have sync: "op_valid (store_ok sha mode) (if sf then syncfs env else op_ret ()) (\<lambda>_. store_ok sha mode) (store_ok sha mode)"
    by (auto simp: op_valid_def syncfs_def op_bind_def call_result_def store_ok_def dir_ok_sync split: option.splits)
  have each: "op_valid (store_ok sha mode) (op_each (publish_rename env) (rename_pairs es)) (\<lambda>_. store_ok sha mode) (store_ok sha mode)"
    using assms publish_rename_valid by (intro op_valid_each) (fastforce simp: rename_pairs_def list_all_iff)
  have dirs: "op_valid (store_ok sha mode) (if fs then op_lift (call_result (ev_fsync_dirs env)) else op_ret ())
      (\<lambda>_. store_ok sha mode) (store_ok sha mode)"
    by (intro op_valid_if lift_valid op_valid_ret)
  show ?thesis
    unfolding publish_blocking_def
    by (intro op_valid_bind [OF sync] op_valid_bind [OF each] op_valid_bind [OF dirs] op_valid_if lift_valid op_valid_ret)
qed

lemma txn_ok_entries:
  assumes "txn_ok sha t"
  shows "list_all (entry_named (tx_mode t)) (sg_objects (tx_staged t))" "store_ok sha (tx_mode t) t"
  using assms by (auto simp: txn_ok_def store_ok_def list_all_iff recorded_ok_def entry_named_def Let_def)

lemma publish_store_ok:
  assumes "txn_ok sha t" and "publish env t = (t', r)"
  shows "store_ok sha (tx_mode t) t'"
proof -
  let ?os = "sg_objects (tx_staged t)" and ?is = "rename_pairs (sg_images (tx_staged t))"
  let ?op = "op_bind (op_lift (fsync_flags env t)) (\<lambda>(fsync, _).
    op_bind (publish_blocking env (rename_pairs ?os) ?is (syncfs_at_publish (tx_staged t) fsync) fsync)
      (\<lambda>_. op_ret (syncfs_at_publish (tx_staged t) fsync)))"
  have op: "op_valid (store_ok sha (tx_mode t)) ?op (\<lambda>_. store_ok sha (tx_mode t)) (store_ok sha (tx_mode t))"
    by (rule op_valid_bind [OF lift_valid], split prod.split)
      (intro allI impI op_valid_bind [OF publish_blocking_valid [OF txn_ok_entries(1) [OF assms(1)]]] op_valid_ret)
  show ?thesis
  proof (cases "rename_pairs ?os = [] \<and> ?is = []")
    case True
    then show ?thesis using assms txn_ok_entries(2) by (auto simp: publish_def Let_def)
  next
    case False
    have "?op t = (t', r)" using assms(2) unfolding publish_def Let_def if_not_P [OF False] .
    from op_valid_keeps [OF op txn_ok_entries(2) [OF assms(1)] this] show ?thesis .
  qed
qed

text \<open>A successful publication moves the file of each recorded object, with its durability, to its place.\<close>

lemma publish_each_moves:
  assumes "op_each (publish_rename env) (rename_pairs es) t = (t', Ok u)" and "list_all (entry_named mode) es"
    and "distinct (map fst es)"
  shows "list_all (\<lambda>e. tx_objects t' (st_dest (snd e)) = tx_files t (st_name (snd e)) \<and> tx_files t (st_name (snd e)) \<noteq> None) es \<and>
    (\<forall>d. d \<notin> (st_dest \<circ> snd) ` set es \<longrightarrow> tx_objects t' d = tx_objects t d)"
  using assms
proof (induction es arbitrary: t)
  case Nil
  then show ?case by (simp add: rename_pairs_def)
next
  case (Cons e es)
  obtain c ty o' where e: "e = ((c, ty), o')" by (metis surj_pair)
  have named: "is_checksum c" "st_name o' = flat_name c ty mode" "st_dest o' = loose_path c ty mode"
    using Cons.prems(2) by (auto simp: e entry_named_def Let_def)
  obtain t1 where t1: "publish_rename env (st_name o', st_dest o') t = (t1, Ok ())"
    and rest: "op_each (publish_rename env) (rename_pairs es) t1 = (t', Ok u)"
    using Cons.prems(1) by (auto simp: rename_pairs_def e op_bind_Ok)
  obtain f where f: "tx_files t (st_name o') = Some f" and t1': "tx_files t1 = (tx_files t)(st_name o' := None)"
    "tx_objects t1 = (tx_objects t)(st_dest o' \<mapsto> f)"
    using t1 by (auto simp: publish_rename_def op_bind_def call_result_def split: option.splits)
  have other: "st_name (snd x) \<noteq> st_name o' \<and> st_dest (snd x) \<noteq> st_dest o'" if "x \<in> set es" for x
  proof -
    obtain c' ty' o'' where x: "x = ((c', ty'), o'')" by (metis surj_pair)
    have "entry_named mode x" using Cons.prems(2) that by (simp add: list_all_iff)
    moreover have "(c', ty') \<noteq> (c, ty)" using Cons.prems(3) that by (force simp: x e)
    ultimately show ?thesis using named by (auto simp: x entry_named_def Let_def flat_name_inj loose_path_inj)
  qed
  note IH = Cons.IH [OF rest]
  have "st_dest o' \<notin> (st_dest \<circ> snd) ` set es" using other by force
  then show ?case using IH Cons.prems(2,3) other f t1' by (fastforce simp: e list_all_iff)
qed

lemma publish_moves:
  assumes ok: "txn_ok sha t" and run: "publish env t = (t', Ok x)"
  shows "\<exists>t1 :: txn. list_all (\<lambda>e. tx_objects t' (st_dest (snd e)) = tx_files t1 (st_name (snd e)) \<and> tx_files t1 (st_name (snd e)) \<noteq> None)
      (sg_objects (tx_staged t)) \<and>
    (tx_files t1 = tx_files t \<and> (\<forall>y. fsync_flags env t = Ok (True, y) \<longrightarrow> sg_objects (tx_staged t) = [] \<or> sg_presynced (tx_staged t) = Some (staged_count (tx_staged t))) \<or>
     tx_files t1 = sync_all (tx_files t)) \<and>
    (\<forall>d. d \<notin> (st_dest \<circ> snd) ` set (sg_objects (tx_staged t)) \<longrightarrow> tx_objects t' d = tx_objects t1 d) \<and>
    (tx_objects t1 = tx_objects t \<or> tx_objects t1 = sync_all (tx_objects t))"
proof (cases "sg_objects (tx_staged t) = [] \<and> sg_images (tx_staged t) = []")
  case True
  then show ?thesis using run by (intro exI [of _ t]) (auto simp: publish_def rename_pairs_def)
next
  case False
  let ?os = "sg_objects (tx_staged t)"
  obtain fs po where fs: "fsync_flags env t = Ok (fs, po)" and
    blk: "publish_blocking env (rename_pairs ?os) (rename_pairs (sg_images (tx_staged t))) (syncfs_at_publish (tx_staged t) fs) fs t = (t', Ok ())"
    using run False by (auto simp: publish_def rename_pairs_def Let_def op_bind_Ok split: if_splits)
  then obtain t1 t2 where t1: "(if syncfs_at_publish (tx_staged t) fs then syncfs env else op_ret ()) t = (t1, Ok ())"
    and each: "op_each (publish_rename env) (rename_pairs ?os) t1 = (t2, Ok ())" and t2: "t' = t2"
    by (auto simp: publish_blocking_def op_bind_Ok split: if_splits)
  have "tx_files t1 = tx_files t \<and> tx_objects t1 = tx_objects t \<and> \<not> syncfs_at_publish (tx_staged t) fs \<or>
      tx_files t1 = sync_all (tx_files t) \<and> tx_objects t1 = sync_all (tx_objects t)"
    using t1 by (auto simp: syncfs_def op_bind_def call_result_def split: if_splits option.splits)
  moreover have "distinct (map fst ?os)" using ok by (simp add: txn_ok_def)
  note mv = publish_each_moves [OF each txn_ok_entries(1) [OF ok] this]
  ultimately show ?thesis using fs by (intro exI [of _ t1]) (auto simp: t2 syncfs_at_publish_def)
qed

subsection \<open>Durability\<close>

definition durable_in :: "directory \<Rightarrow> object_key \<times> staged_object \<Rightarrow> bool" where
  "durable_in files e = (case files (st_name (snd e)) of Some (obj, b) \<Rightarrow> b | None \<Rightarrow> False)"

lemma durable_in_iff: "durable_in files e \<longleftrightarrow> (\<exists>obj. files (st_name (snd e)) = Some (obj, True))"
  by (cases "files (st_name (snd e))") (auto simp: durable_in_def)

text \<open>The counter never exceeds the number of durable objects and images.\<close>

definition synced_ok :: "txn \<Rightarrow> bool" where
  "synced_ok t \<longleftrightarrow> (\<forall>n. sg_presynced (tx_staged t) = Some n \<longrightarrow>
     n \<le> length (filter (durable_in (tx_files t)) (sg_objects (tx_staged t))) + length (sg_images (tx_staged t)))"

definition extends :: "staged \<Rightarrow> staged \<Rightarrow> bool" where
  "extends sg sg' \<longleftrightarrow> (\<exists>es. sg_objects sg' = sg_objects sg @ es) \<and> sg_presynced sg' = sg_presynced sg \<and>
     sg_images sg' = sg_images sg"

lemma extends_refl: "extends sg sg"
  by (simp add: extends_def)

abbreviation extended :: "staged \<Rightarrow> txn \<Rightarrow> bool" where
  "extended sg t \<equiv> extends sg (tx_staged t)"

lemma record_object_extends:
  "op_valid (\<lambda>t. tx_staged t = sg) (record_object mode key outcome ws pl False) (\<lambda>_. extended sg) (extended sg)"
proof -
  have "extended (tx_staged t) t'" if "record_object mode key outcome ws pl False t = (t', r)" for t t' r
    using record_object_fields(5) [OF that] by (cases rule: record_staged_cases) (auto simp: extends_def)
  then show ?thesis by (intro op_validI) blast+
qed

lemma files_only:
  "op_valid (\<lambda>t. tx_staged t = sg) (object_exists env dest) (\<lambda>_ t. tx_staged t = sg) (extended sg)"
  "op_valid (\<lambda>t. tx_staged t = sg) (op_lift r) (\<lambda>_ t. tx_staged t = sg) (extended sg)"
  "op_valid (\<lambda>t. tx_staged t = sg) (op_modify (rename_file n obj b)) (\<lambda>_ t. tx_staged t = sg) (extended sg)"
  "op_valid (\<lambda>t. tx_staged t = sg) (op_modify (link_file n obj b)) (\<lambda>_ t. tx_staged t = sg) (extended sg)"
  "op_valid (\<lambda>t. tx_staged t = sg) (op_modify (materialize a n obj b)) (\<lambda>_ t. tx_staged t = sg) (extended sg)"
  by (auto simp: op_valid_def object_exists_def op_bind_def extends_refl split: result.splits)

lemmas files_rules = files_only [THEN op_valid_bind] op_valid_if op_valid_ret op_valid_fail

lemma stage_content_blocking_frame:
  "op_valid (\<lambda>t. tx_staged t = sg) (stage_content_blocking env mode fs po c h p a u) (\<lambda>_ t. tx_staged t = sg) (extended sg)"
  unfolding stage_content_blocking_def Let_def by (intro files_rules; simp)

lemma stage_symlink_blocking_frame:
  "op_valid (\<lambda>t. tx_staged t = sg) (stage_symlink_blocking env mode fs po c h) (\<lambda>_ t. tx_staged t = sg) (extended sg)"
  unfolding stage_symlink_blocking_def Let_def
proof (intro files_rules, simp, rule op_valid_bind [where Q = "\<lambda>_ t. tx_staged t = sg"], goal_cases)
  case 1
  show ?case by (split repo_mode.split) (intro conjI impI files_rules; simp add: extends_refl)
next
  case 2
  show ?case by (intro files_rules)
qed

lemma stage_regular_extends:
  "op_valid (\<lambda>t. tx_staged t = sg) (stage_regular env c h p a u counted) (\<lambda>_. extended sg) (extended sg)"
proof -
  let ?op = "\<lambda>mode t. op_bind (op_lift (fsync_flags env t)) (\<lambda>(fsync, per_object).
      op_bind (op_lift (ev_verity env)) (\<lambda>_.
      op_bind (stage_content_blocking env mode fsync per_object c h p a u) (\<lambda>outcome.
      record_object mode (c, File) outcome True counted False)))"
  have op: "op_valid (\<lambda>t. tx_staged t = sg) (?op mode t) (\<lambda>_. extended sg) (extended sg)" for mode t
    by (rule op_valid_bind [OF files_only(2)], split prod.split)
      (intro allI impI op_valid_bind [OF files_only(2)] op_valid_bind [OF stage_content_blocking_frame] record_object_extends)
  show ?thesis by (rule op_valid_at [where f = "\<lambda>t. ?op (tx_mode t) t", OF _ op]) (simp add: stage_regular_def Let_def)
qed

lemma stage_symlink_extends:
  "op_valid (\<lambda>t. tx_staged t = sg) (stage_symlink env c h) (\<lambda>_. extended sg) (extended sg)"
proof -
  let ?op = "\<lambda>mode t. op_bind (op_lift (fsync_flags env t)) (\<lambda>(fsync, per_object).
      op_bind (op_lift (ev_verity env)) (\<lambda>_.
      op_bind (stage_symlink_blocking env mode fsync per_object c h) (\<lambda>outcome.
      record_object mode (c, File) outcome True False False)))"
  have op: "op_valid (\<lambda>t. tx_staged t = sg) (?op mode t) (\<lambda>_. extended sg) (extended sg)" for mode t
    by (rule op_valid_bind [OF files_only(2)], split prod.split)
      (intro allI impI op_valid_bind [OF files_only(2)] op_valid_bind [OF stage_symlink_blocking_frame] record_object_extends)
  show ?thesis by (rule op_valid_at [where f = "\<lambda>t. ?op (tx_mode t) t", OF _ op]) (simp add: stage_symlink_def Let_def)
qed

lemma content_steps_extend:
  "content_writer_finish env w t = (t', r) \<Longrightarrow> extended (tx_staged t) t'"
  "write_symlink env target meta e t = (t', r) \<Longrightarrow> extended (tx_staged t) t'"
proof -
  have fin: "op_valid (\<lambda>t. tx_staged t = sg) (content_writer_finish env w) (\<lambda>_. extended sg) (extended sg)" for sg
    unfolding content_writer_finish_def Let_def
    by (intro op_valid_bind [OF files_only(2)] stage_regular_extends)
  show "extended (tx_staged t) t'" if "content_writer_finish env w t = (t', r)"
    using op_validD [OF fin [of "tx_staged t"], of t] that by (cases r) auto
  let ?h = "\<lambda>m. canonical_header m (symlink_header meta target)"
  let ?op = "\<lambda>m. op_bind (op_lift (from_core (andthen (fh_serialize (?h m)) frame))) (\<lambda>framed.
        op_bind (op_lift (check_expected e (sha_digest (ev_hasher env) framed))) (\<lambda>_.
          stage_symlink env (sha_digest (ev_hasher env) framed) (?h m)))"
  have lnk: "op_valid (\<lambda>t. tx_staged t = sg) (?op m) (\<lambda>_. extended sg) (extended sg)" for sg m
    by (intro op_valid_bind [OF files_only(2)] stage_symlink_extends)
  show "extended (tx_staged t) t'" if "write_symlink env target meta e t = (t', r)"
  proof (cases "tx_mode t = BareSplitXattrs")
    case False
    then have "?op (tx_mode t) t = (t', r)" using that by (simp add: write_symlink_def Let_def)
    then show ?thesis using op_validD [OF lnk [of "tx_staged t" "tx_mode t"], of t] by (cases r) auto
  qed (use that in \<open>simp add: write_symlink_def extends_refl\<close>)
qed

lemma filter_length_mono: "(\<And>x. x \<in> set xs \<Longrightarrow> P x \<Longrightarrow> Q x) \<Longrightarrow> length (filter P xs) \<le> length (filter Q xs)"
  by (induction xs) auto

lemma synced_ok_extends:
  assumes "synced_ok t" and "extended (tx_staged t) t'" and "no_restage t t'"
  shows "synced_ok t'"
  unfolding synced_ok_def
proof (intro allI impI)
  fix n assume "sg_presynced (tx_staged t') = Some n"
  then have n: "sg_presynced (tx_staged t) = Some n" and sub: "tx_files t \<subseteq>\<^sub>m tx_files t'"
    using assms(2,3) by (auto simp: extends_def no_restage_def)
  obtain es where es: "sg_objects (tx_staged t') = sg_objects (tx_staged t) @ es" "sg_images (tx_staged t') = sg_images (tx_staged t)"
    using assms(2) by (auto simp: extends_def)
  have "durable_in (tx_files t') e" if "durable_in (tx_files t) e" for e
    using that sub unfolding durable_in_iff by (metis domI map_le_def)
  then show "n \<le> length (filter (durable_in (tx_files t')) (sg_objects (tx_staged t'))) + length (sg_images (tx_staged t'))"
    using assms(1) n es filter_length_mono [of "sg_objects (tx_staged t)" "durable_in (tx_files t)" "durable_in (tx_files t')"]
    by (force simp: synced_ok_def)
qed


text \<open>A metadata object staged after the sync is synced on its own, so it is durable where it is staged.\<close>

lemma stage_metadata_blocking_run:
  "op_valid (\<lambda>t. t = t0) (stage_metadata_blocking env mode f s c ty bytes)
     (\<lambda>o' t. if so_deduped o' then t = t0
        else so_staging_name o' = flat_name c ty mode \<and> t = rename_file (flat_name c ty mode) (Stored_meta bytes) (f \<and> s) t0)
     (\<lambda>t. t = t0)"
  by (auto simp: op_valid_def stage_metadata_blocking_def op_bind_def object_exists_def dedup_def fresh_outcome_def Let_def
      split: result.splits)

lemma synced_ok_metadata:
  assumes "synced_ok t" and "stage_metadata_outcome env c ty bytes t = (t', r)"
    and fs: "\<And>x y. fsync_flags env t = Ok (x, y) \<Longrightarrow> x"
  shows "synced_ok t'"
proof (cases "\<exists>y. fsync_flags env t = Ok (True, y) \<and> ev_verity env = Ok ()")
  case False
  then have "t' = t" using assms(2) fs
    by (auto simp: stage_metadata_outcome_def op_bind_def Let_def split: result.splits prod.splits)
  then show ?thesis using assms(1) by simp
next
  case True
  let ?mode = "tx_mode t" and ?sync = "sg_presynced (tx_staged t) \<noteq> None"
  let ?name = "flat_name c ty ?mode"
  obtain t1 ro where blk: "stage_metadata_blocking env ?mode True ?sync c ty bytes t = (t1, ro)" by (metis surj_pair)
  note run = op_validD [OF stage_metadata_blocking_run [of t env ?mode True ?sync c ty bytes] refl]
  show ?thesis
  proof (cases ro)
    case (Err e)
    then have "t' = t" using assms(2) True blk run(2) by (auto simp: stage_metadata_outcome_def op_bind_def Let_def)
    then show ?thesis using assms(1) by simp
  next
    case (Ok o')
    then obtain r' where rec: "record_object ?mode (c, ty) o' True False ?sync t1 = (t', r')"
      using assms(2) True blk by (auto simp: stage_metadata_outcome_def op_bind_def Let_def split: result.splits prod.splits)
    note fld = record_object_fields [OF rec] and o' = run(1) [OF blk [unfolded Ok]]
    have st: "tx_staged t1 = tx_staged t" using o' by (auto split: if_splits)
    have dur: "durable_in (tx_files t') e" if "durable_in (tx_files t) e" "?sync" for e
      using that o' fld(3) by (auto simp: durable_in_iff rename_file_def split: if_splits)
    from fld(5) [unfolded st] show ?thesis
    proof (cases rule: record_staged_cases)
      case keep
      then show ?thesis
        using assms(1) dur filter_length_mono [of "sg_objects (tx_staged t)" "durable_in (tx_files t)" "durable_in (tx_files t')"]
        by (auto simp: synced_ok_def intro: order_trans)
    next
      case add
      let ?e = "((c, ty), \<lparr>st_name = so_staging_name o', st_dest = so_dest o'\<rparr>)"
      have new: "durable_in (tx_files t') ?e" if ?sync
        using that o' add(1) fld(3) by (auto simp: durable_in_iff rename_file_def)
      show ?thesis unfolding synced_ok_def
      proof (intro allI impI)
        fix m assume m: "sg_presynced (tx_staged t') = Some m"
        then obtain n where n: "sg_presynced (tx_staged t) = Some n" "m = Suc n" using add(5) by (auto split: if_splits)
        have "n \<le> length (filter (durable_in (tx_files t)) (sg_objects (tx_staged t))) + length (sg_images (tx_staged t))"
          using assms(1) n(1) by (simp add: synced_ok_def)
        also have "\<dots> \<le> length (filter (durable_in (tx_files t')) (sg_objects (tx_staged t))) + length (sg_images (tx_staged t))"
          using dur n(1) by (intro add_right_mono filter_length_mono) simp
        finally show "m \<le> length (filter (durable_in (tx_files t')) (sg_objects (tx_staged t'))) + length (sg_images (tx_staged t'))"
          using new n add(4,6) by simp
      qed
    qed
  qed
qed

lemma write_metadata_run:
  assumes "write_metadata env ty e bytes t = (t', r)"
  shows "t' = t \<or> (\<exists>c r'. stage_metadata_outcome env c ty bytes t = (t', r'))"
  using assms
  by (auto simp: write_metadata_def stage_metadata_def op_bind_def Let_def split: if_splits result.splits prod.splits)

lemma synced_ok_sync:
  assumes "txn_ok sha t" and "synced_ok t" and "sync_staged env t = (t', r)"
  shows "synced_ok t'"
  using assms(3)
proof (cases rule: sync_staged_cases)
  case 1
  then show ?thesis using assms(2) by simp
next
  case 2
  have "durable_in (sync_all (tx_files t)) e" if "e \<in> set (sg_objects (tx_staged t))" for e
    using assms(1) that by (auto simp: txn_ok_def list_all_iff recorded_ok_def durable_in_iff sync_all_def Let_def)
  then have "filter (durable_in (sync_all (tx_files t))) (sg_objects (tx_staged t)) = sg_objects (tx_staged t)"
    by (simp add: filter_id_conv)
  then show ?thesis by (simp add: 2 synced_ok_def staged_count_def)
qed

lemma txn_reach_synced:
  assumes "txn_reach H sha True True t" and laws: "sha_laws H sha"
  shows "synced_ok t"
  using assms(1)
proof induction
  case (reach_new t budget)
  then show ?case by (simp add: synced_ok_def staged_new_def)
next
  case (reach_metadata t env ty e b t' r)
  then show ?case using write_metadata_run [OF reach_metadata.hyps(3)] synced_ok_metadata by (metis env_of_def)
next
  case (reach_symlink t env target meta e t' r)
  then show ?case using synced_ok_extends content_steps_extend(2) by blast
next
  case (reach_content t env w t' r)
  then show ?case using synced_ok_extends content_steps_extend(1) by blast
next
  case (reach_image t c outcome t' r)
  then show ?case using record_image_fields [OF reach_image.hyps(2)] by (force simp: synced_ok_def)
next
  case (reach_sync t env t' r)
  then show ?case using synced_ok_sync [OF txn_reach_ok [OF reach_sync.hyps(1) laws]] by blast
next
  case (reach_scope t f c ty)
  then show ?case using scope_fields [OF reach_scope.hyps(2)] by (simp add: synced_ok_def on_staged_def)
qed

lemma publish_offered:
  assumes ok: "txn_ok sha t" and run: "publish env t = (t', Ok x)" and off: "offered (tx_mode t) (c, ty) t"
  shows "tx_objects t' (loose_path c ty (tx_mode t)) \<noteq> None"
proof -
  let ?os = "sg_objects (tx_staged t)" and ?d = "loose_path c ty (tx_mode t)"
  obtain t1 :: txn where mv: "\<And>e. e \<in> set ?os \<Longrightarrow> tx_objects t' (st_dest (snd e)) \<noteq> None"
    and rest: "\<And>d. d \<notin> (st_dest \<circ> snd) ` set ?os \<Longrightarrow> tx_objects t' d = tx_objects t1 d"
    and obj: "tx_objects t1 = tx_objects t \<or> tx_objects t1 = sync_all (tx_objects t)"
    using publish_moves [OF ok run] unfolding list_all_iff by metis
  show ?thesis
  proof (cases "?d \<in> (st_dest \<circ> snd) ` set ?os")
    case True
    then show ?thesis using mv by force
  next
    case False
    have "\<not> is_staged t c ty"
    proof
      assume "is_staged t c ty"
      then obtain o' where "((c, ty), o') \<in> set ?os" by (auto simp: is_staged_def dest: map_of_SomeD)
      moreover from this have "st_dest o' = ?d"
        using txn_ok_entries(1) [OF ok] by (auto simp: list_all_iff entry_named_def Let_def)
      ultimately show False using False by force
    qed
    then show ?thesis using off rest [OF False] obj by (auto simp: offered_def sync_all_def)
  qed
qed

subsection \<open>Properties\<close>

definition pad_hasher :: "bytes hasher" where
  "pad_hasher = \<lparr>h_new = [], h_update = (\<lambda>h b. h @ b), h_finalize = (\<lambda>h. take 32 (h @ replicate 32 0))\<rparr>"

lemma pad_hasher_laws: "sha_laws pad_hasher (\<lambda>bs. take 32 (bs @ replicate 32 0))"
proof -
  have "fold (\<lambda>b h. h @ b) chunks acc = acc @ concat chunks" for chunks and acc :: bytes
    by (induction chunks arbitrary: acc) auto
  then show ?thesis by (simp add: sha_laws_def digest_laws_def pad_hasher_def min_def)
qed

definition sample_env :: "bytes env" where
  "sample_env = \<lparr>ev_hasher = pad_hasher, ev_fsync = Ok True, ev_per_object_fsync = Ok False, ev_verity = Ok (),
     ev_zlib_level = Ok 6, ev_open_temp = Ok False, ev_write = (\<lambda>_. None), ev_flush = None, ev_exists = (\<lambda>_. None),
     ev_clone = None, ev_read = (\<lambda>_. None), ev_stage = (\<lambda>_ _. Ok 0), ev_syncfs = None, ev_fanout = (\<lambda>_. None), ev_rename = (\<lambda>_. None),
     ev_fsync_dirs = None, ev_publish_images = None\<rparr>"

definition sample_txn :: txn where
  "sample_txn = \<lparr>tx_mode = Bare, tx_fsync_override = None, tx_per_object_fsync_override = None,
     tx_objects = Map.empty, tx_files = Map.empty, tx_staged = staged_new 0\<rparr>"

abbreviation sample_meta :: file_meta where
  "sample_meta \<equiv> \<lparr>fm_uid = 1, fm_gid = 2, fm_mode = 0x81a4, fm_xattrs = []\<rparr>"

lemma sample_reach: "txn_reach pad_hasher sha fs g sample_txn"
  by (rule reach_new [where budget = 0]) (simp_all add: sample_txn_def dir_ok_def)

lemma sample_env_of: "tx_fsync_override t = None \<Longrightarrow> env_of pad_hasher True sample_env t"
  by (simp add: env_of_def sample_env_def fsync_flags_def)

lemmas sample_run = sample_env_def sample_txn_def staged_new_def op_bind_def write_metadata_def stage_metadata_def
  stage_metadata_outcome_def stage_metadata_blocking_def object_exists_def call_result_def check_expected_def
  fsync_flags_def record_object_def record_staged_def dedup_def fresh_outcome_def rename_file_def is_meta_def is_archive_def
  publish_def publish_blocking_def publish_rename_def rename_pairs_def syncfs_at_publish_def staged_count_def syncfs_def
  sync_all_def Let_def

lemma sample_metadata:
  defines "c \<equiv> sha_digest pad_hasher [1]"
  shows "\<exists>t1 t2 x. write_metadata sample_env Commit None [1] sample_txn = (t1, Ok c) \<and> publish sample_env t1 = (t2, Ok x) \<and>
    tx_objects t2 (loose_path c Commit Bare) = Some (Stored_meta [1], True) \<and> tx_mode t1 = Bare"
  by (simp add: sample_run c_def ex_bool_eq)









text \<open>C39: the condition is needed. A content object that is staged again after \<open>sync_staged\<close>, through a named temp file,
  replaces the synced file by one that is not synced; the counter of durable objects still equals the number of
  staged objects, so the publication skips its \<open>syncfs\<close> and publishes the object without a sync.\<close>

theorem restaged_object_skips_syncfs:
  "\<exists>w t1 t2 t3 t4 c obj. content_writer_new sample_env Bare None sample_meta = Ok w \<and>
     content_writer_finish sample_env w sample_txn = (t1, Ok c) \<and> sync_staged sample_env t1 = (t2, Ok ()) \<and>
     content_writer_finish sample_env w t2 = (t3, Ok c) \<and> fsync_flags sample_env t3 = Ok (True, False) \<and>
     publish sample_env t3 = (t4, Ok False) \<and> tx_objects t4 (loose_path c File Bare) = Some (obj, False)"
proof -
  have h: "regular_header sample_meta = sample_header" by (simp add: regular_header_def)
  have f: "andthen (fh_serialize sample_header) frame = Ok (to_be_bytes (of_nat (length sample_header_bytes) :: u32) @ replicate 4 0 @ sample_header_bytes)"
    by (simp add: sample_header_serialize frame_def u32_try_from_def)
  obtain w where w: "content_writer_new sample_env Bare None sample_meta = Ok w" "cw_expected w = None" "cw_anonymous w = False"
    by (simp add: content_writer_new_def canonical_header_def h f sample_env_def is_archive_def)
  have "content_writer_finish sample_env w = stage_regular sample_env (h_finalize pad_hasher (cw_hasher w)) (cw_header w) (cw_payload w)
      False (cw_uncompressed w) (cw_counted w)"
    using w(2,3) by (intro ext) (simp add: content_writer_finish_def sample_env_def op_bind_def call_result_def check_expected_def Let_def)
  then show ?thesis using w(1)
    by (simp add: stage_regular_def stage_content_blocking_def materialize_def sample_run sync_staged_def on_staged_def)
qed

end
