(* ===== verification/Remote_Error.thy ===== *)
theory Remote_Error imports Core_Object
begin
section \<open>Errors of the remote protocols and their wire codes\<close>

text \<open>
  \<^verbatim>\<open>crates/ostrya-remote/src/error.rs\<close>: the error type, the sixteen wire codes with their names, and the two
  conversions between an error and the message that carries it. The messages of \<open>Source\<close>, \<open>Fetch\<close>, \<open>Io\<close>,
  \<open>Walk\<close> and of the two S3 variants come from other crates and are not kept; the text that \<open>to_message\<close> sends for
  an error without a code is the parameter \<open>display\<close>, and \<open>text_of\<close> gives the text of a message that ends in
  the display of an error of another crate.
\<close>

subsection \<open>Definitions\<close>

datatype remote_error =
    R_VersionUnsupported msg
  | R_LockingDisabled msg
  | R_Unauthorized msg
  | R_Protocol msg
  | R_LimitExceeded msg
  | R_ChecksumMismatch msg
  | R_ModeRefused msg
  | R_MissingObjects msg "object_name list"
  | R_RefMismatch msg bytes "checksum option"
  | R_NonFastForward msg
  | R_DeleteDenied msg
  | R_InvalidRef msg
  | R_RefDenied msg
  | R_SignatureRequired msg
  | R_BindingMismatch msg
  | R_Internal msg
  | R_Aborted
  | R_CommitOutcomeUnknown "bytes list" msg
  | R_Source
  | R_InvalidInput msg
  | R_Transport msg
  | R_Fetch
  | R_Io
  | R_Walk
  | R_S3
  | R_S3Region

datatype error_code =
    CVersionUnsupported | CLockingDisabled | CUnauthorized | CProtocol | CLimitExceeded | CChecksumMismatch
  | CModeRefused | CMissingObjects | CRefMismatch | CNonFastForward | CDeleteDenied | CInvalidRef | CRefDenied
  | CSignatureRequired | CBindingMismatch | CInternal

definition ALL_CODES :: "error_code list" where
  "ALL_CODES = [CVersionUnsupported, CLockingDisabled, CUnauthorized, CProtocol, CLimitExceeded, CChecksumMismatch,
     CModeRefused, CMissingObjects, CRefMismatch, CNonFastForward, CDeleteDenied, CInvalidRef, CRefDenied,
     CSignatureRequired, CBindingMismatch, CInternal]"

fun code_as_str :: "error_code \<Rightarrow> bytes" where
  "code_as_str CVersionUnsupported = lit ''version-unsupported''"
| "code_as_str CLockingDisabled = lit ''locking-disabled''"
| "code_as_str CUnauthorized = lit ''unauthorized''"
| "code_as_str CProtocol = lit ''protocol''"
| "code_as_str CLimitExceeded = lit ''limit-exceeded''"
| "code_as_str CChecksumMismatch = lit ''checksum-mismatch''"
| "code_as_str CModeRefused = lit ''mode-refused''"
| "code_as_str CMissingObjects = lit ''missing-objects''"
| "code_as_str CRefMismatch = lit ''ref-mismatch''"
| "code_as_str CNonFastForward = lit ''non-fast-forward''"
| "code_as_str CDeleteDenied = lit ''delete-denied''"
| "code_as_str CInvalidRef = lit ''invalid-ref''"
| "code_as_str CRefDenied = lit ''ref-denied''"
| "code_as_str CSignatureRequired = lit ''signature-required''"
| "code_as_str CBindingMismatch = lit ''binding-mismatch''"
| "code_as_str CInternal = lit ''internal''"

definition code_from_name :: "bytes \<Rightarrow> error_code option" where
  "code_from_name name = List.find (\<lambda>c. code_as_str c = name) ALL_CODES"

fun error_code_of :: "remote_error \<Rightarrow> error_code option" where
  "error_code_of (R_VersionUnsupported _) = Some CVersionUnsupported"
| "error_code_of (R_LockingDisabled _) = Some CLockingDisabled"
| "error_code_of (R_Unauthorized _) = Some CUnauthorized"
| "error_code_of (R_Protocol _) = Some CProtocol"
| "error_code_of (R_LimitExceeded _) = Some CLimitExceeded"
| "error_code_of (R_ChecksumMismatch _) = Some CChecksumMismatch"
| "error_code_of (R_ModeRefused _) = Some CModeRefused"
| "error_code_of (R_MissingObjects _ _) = Some CMissingObjects"
| "error_code_of (R_RefMismatch _ _ _) = Some CRefMismatch"
| "error_code_of (R_NonFastForward _) = Some CNonFastForward"
| "error_code_of (R_DeleteDenied _) = Some CDeleteDenied"
| "error_code_of (R_InvalidRef _) = Some CInvalidRef"
| "error_code_of (R_RefDenied _) = Some CRefDenied"
| "error_code_of (R_SignatureRequired _) = Some CSignatureRequired"
| "error_code_of (R_BindingMismatch _) = Some CBindingMismatch"
| "error_code_of (R_Internal _) = Some CInternal"
| "error_code_of _ = None"

record ref_state =
  rs_name :: bytes
  rs_commit :: "checksum option"

record error_message =
  em_code :: error_code
  em_message :: bytes
  em_missing :: "object_name list"
  em_current :: "ref_state option"

fun error_msg :: "remote_error \<Rightarrow> msg option" where
  "error_msg (R_VersionUnsupported m) = Some m"
| "error_msg (R_LockingDisabled m) = Some m"
| "error_msg (R_Unauthorized m) = Some m"
| "error_msg (R_Protocol m) = Some m"
| "error_msg (R_LimitExceeded m) = Some m"
| "error_msg (R_ChecksumMismatch m) = Some m"
| "error_msg (R_ModeRefused m) = Some m"
| "error_msg (R_NonFastForward m) = Some m"
| "error_msg (R_DeleteDenied m) = Some m"
| "error_msg (R_InvalidRef m) = Some m"
| "error_msg (R_RefDenied m) = Some m"
| "error_msg (R_SignatureRequired m) = Some m"
| "error_msg (R_BindingMismatch m) = Some m"
| "error_msg (R_Internal m) = Some m"
| "error_msg _ = None"

definition to_message :: "(remote_error \<Rightarrow> bytes) \<Rightarrow> (msg \<Rightarrow> bytes) \<Rightarrow> remote_error \<Rightarrow> error_message" where
  "to_message display text_of e =
     (case e of
        R_MissingObjects m missing \<Rightarrow>
          \<lparr>em_code = CMissingObjects, em_message = text_of m, em_missing = missing, em_current = None\<rparr>
      | R_RefMismatch m name current \<Rightarrow>
          \<lparr>em_code = CRefMismatch, em_message = text_of m, em_missing = [],
           em_current = Some \<lparr>rs_name = name, rs_commit = current\<rparr>\<rparr>
      | _ \<Rightarrow>
          (case (error_code_of e, error_msg e) of
             (Some code, Some m) \<Rightarrow> \<lparr>em_code = code, em_message = text_of m, em_missing = [], em_current = None\<rparr>
           | _ \<Rightarrow> \<lparr>em_code = CInternal, em_message = display e, em_missing = [], em_current = None\<rparr>))"

definition from_message :: "error_message \<Rightarrow> remote_error" where
  "from_message em =
     (let m = Msg (em_message em) in
      case em_code em of
        CVersionUnsupported \<Rightarrow> R_VersionUnsupported m
      | CLockingDisabled \<Rightarrow> R_LockingDisabled m
      | CUnauthorized \<Rightarrow> R_Unauthorized m
      | CProtocol \<Rightarrow> R_Protocol m
      | CLimitExceeded \<Rightarrow> R_LimitExceeded m
      | CChecksumMismatch \<Rightarrow> R_ChecksumMismatch m
      | CModeRefused \<Rightarrow> R_ModeRefused m
      | CMissingObjects \<Rightarrow> R_MissingObjects m (em_missing em)
      | CRefMismatch \<Rightarrow>
          (case em_current em of
             Some s \<Rightarrow> R_RefMismatch m (rs_name s) (rs_commit s)
           | None \<Rightarrow> R_RefMismatch m [] None)
      | CNonFastForward \<Rightarrow> R_NonFastForward m
      | CDeleteDenied \<Rightarrow> R_DeleteDenied m
      | CInvalidRef \<Rightarrow> R_InvalidRef m
      | CRefDenied \<Rightarrow> R_RefDenied m
      | CSignatureRequired \<Rightarrow> R_SignatureRequired m
      | CBindingMismatch \<Rightarrow> R_BindingMismatch m
      | CInternal \<Rightarrow> R_Internal m)"

subsection \<open>Lemmas\<close>

lemma ALL_CODES_all: "c \<in> set ALL_CODES"
  by (cases c) (simp_all add: ALL_CODES_def)

lemma code_as_str_inj: "code_as_str c = code_as_str c' \<longleftrightarrow> c = c'"
  by (cases c; cases c') (simp_all add: lit_def)

lemma code_from_name_exact: "code_from_name name = Some c \<longleftrightarrow> name = code_as_str c"
proof
  assume "code_from_name name = Some c"
  then show "name = code_as_str c" by (auto simp: code_from_name_def find_Some_iff)
next
  assume n: "name = code_as_str c"
  have "code_from_name name \<noteq> None"
    using ALL_CODES_all by (auto simp: n code_from_name_def find_None_iff)
  then show "code_from_name name = Some c"
    by (auto simp: n code_from_name_def find_Some_iff code_as_str_inj dest!: option.collapse [symmetric])
qed

lemma to_message_code: "em_code (to_message display text_of e) = (case error_code_of e of Some c \<Rightarrow> c | None \<Rightarrow> CInternal)"
  by (cases e) (simp_all add: to_message_def)

lemma to_message_current: "em_code (to_message display text_of e) = CRefMismatch \<longleftrightarrow> em_current (to_message display text_of e) \<noteq> None"
  by (cases e) (simp_all add: to_message_def)

definition error_text :: "remote_error \<Rightarrow> msg option" where
  "error_text e =
     (case e of R_MissingObjects m _ \<Rightarrow> Some m | R_RefMismatch m _ _ \<Rightarrow> Some m | _ \<Rightarrow> error_msg e)"

lemma from_to_message:
  assumes "\<And>b. text_of (Msg b) = b" and "error_code_of e \<noteq> None" and "error_text e = Some (Msg b)"
  shows "from_message (to_message display text_of e) = e"
  using assms by (cases e) (simp_all add: to_message_def from_message_def error_text_def)

lemma from_message_code: "error_code_of (from_message em) = Some (em_code em)"
  by (cases "em_code em") (simp_all add: from_message_def Let_def split: option.split)

end
