(* ===== verification/Remote_Proto.thy ===== *)
theory Remote_Proto imports Remote_Error
begin
section \<open>Constants and small types of the remote protocols\<close>

text \<open>
  \<^verbatim>\<open>crates/ostrya-remote/src/proto/mod.rs\<close>: the limits, the kinds of messages and the encodings with their bytes
  and names, the ref updates and outcomes, and the forms of a checksum and of an object name in a body.
\<close>

subsection \<open>Limits\<close>

definition PROTOCOL_VERSION :: u32 where "PROTOCOL_VERSION = 1"
definition PULL_PROTOCOL_VERSION :: u32 where "PULL_PROTOCOL_VERSION = 1"
definition MIN_FRAME_LIMIT :: u32 where "MIN_FRAME_LIMIT = 2 ^ 20"
definition MAX_FRAME :: u32 where "MAX_FRAME = 2 ^ 20"
definition MAX_HAVE :: u32 where "MAX_HAVE = 16384"
definition ABANDON :: u32 where "ABANDON = 0xFFFFFFFF"
definition MAX_FRAME_LIMIT :: u32 where "MAX_FRAME_LIMIT = 0xFFFFFFFE"

subsection \<open>Kinds and encodings\<close>

definition protocol :: "bytes \<Rightarrow> remote_error" where
  "protocol m = R_Protocol (Msg m)"

text \<open>Rust prints a number in decimal.\<close>

fun nat_text :: "nat \<Rightarrow> bytes" where
  "nat_text n = (if n < 10 then [of_nat (48 + n)] else nat_text (n div 10) @ [of_nat (48 + n mod 10)])"

declare nat_text.simps [simp del]

datatype msg_kind =
    KHello | KHelloReply | KHave | KHaveReply | KObjectHeader | KObjectsEnd | KObjectsReply | KCommit
  | KCommitReply | KError | KAbort | KPullHello | KPullHelloReply | KGet | KGetReply | KListRefs

definition kind_from_u8 :: "u8 \<Rightarrow> (remote_error, msg_kind) result" where
  "kind_from_u8 b =
     (if b = 1 then Ok KHello
      else if b = 2 then Ok KHelloReply
      else if b = 3 then Ok KHave
      else if b = 4 then Ok KHaveReply
      else if b = 5 then Ok KObjectHeader
      else if b = 6 then Ok KObjectsEnd
      else if b = 7 then Ok KObjectsReply
      else if b = 8 then Ok KCommit
      else if b = 9 then Ok KCommitReply
      else if b = 10 then Ok KError
      else if b = 11 then Ok KAbort
      else if b = 12 then Ok KPullHello
      else if b = 13 then Ok KPullHelloReply
      else if b = 14 then Ok KGet
      else if b = 15 then Ok KGetReply
      else if b = 16 then Ok KListRefs
      else Err (protocol (lit ''unknown message kind '' @ nat_text (unat b))))"

fun kind_as_u8 :: "msg_kind \<Rightarrow> u8" where
  "kind_as_u8 KHello = 1"
| "kind_as_u8 KHelloReply = 2"
| "kind_as_u8 KHave = 3"
| "kind_as_u8 KHaveReply = 4"
| "kind_as_u8 KObjectHeader = 5"
| "kind_as_u8 KObjectsEnd = 6"
| "kind_as_u8 KObjectsReply = 7"
| "kind_as_u8 KCommit = 8"
| "kind_as_u8 KCommitReply = 9"
| "kind_as_u8 KError = 10"
| "kind_as_u8 KAbort = 11"
| "kind_as_u8 KPullHello = 12"
| "kind_as_u8 KPullHelloReply = 13"
| "kind_as_u8 KGet = 14"
| "kind_as_u8 KGetReply = 15"
| "kind_as_u8 KListRefs = 16"

datatype encoding = Raw | Deflate

fun encoding_as_u8 :: "encoding \<Rightarrow> u8" where
  "encoding_as_u8 Raw = 0"
| "encoding_as_u8 Deflate = 1"

definition encoding_from_u8 :: "u8 \<Rightarrow> (remote_error, encoding) result" where
  "encoding_from_u8 b =
     (if b = 0 then Ok Raw
      else if b = 1 then Ok Deflate
      else Err (protocol (lit ''unknown encoding '' @ nat_text (unat b))))"

fun encoding_as_str :: "encoding \<Rightarrow> bytes" where
  "encoding_as_str Raw = lit ''raw''"
| "encoding_as_str Deflate = lit ''deflate''"

definition encoding_from_name :: "bytes \<Rightarrow> encoding option" where
  "encoding_from_name name =
     (if name = lit ''raw'' then Some Raw else if name = lit ''deflate'' then Some Deflate else None)"

subsection \<open>Refs\<close>

datatype expected = ExpAbsent | ExpCommit checksum | ExpAny

record ref_update =
  ru_name :: bytes
  ru_expected :: expected
  ru_new :: "checksum option"

record ref_outcome =
  ro_name :: bytes
  ro_old :: "checksum option"
  ro_new :: "checksum option"

subsection \<open>Checksums and object names in a body\<close>

definition proto_checksum :: "bytes \<Rightarrow> (remote_error, checksum) result" where
  "proto_checksum b = map_err (\<lambda>_. protocol (lit ''checksum is not 32 bytes'')) (from_ay b)"

definition checksum_value :: "checksum \<Rightarrow> gvalue" where
  "checksum_value c = VBytes c"

definition maybe_value :: "checksum option \<Rightarrow> gvalue" where
  "maybe_value c = VMaybe (map_option checksum_value c)"

definition proto_object_name :: "(object_type \<Rightarrow> bool) \<Rightarrow> u8 \<times> bytes \<Rightarrow> (remote_error, object_name) result" where
  "proto_object_name allowed e =
     (let (b, sum) = e in
      andthen
        (case objtype_from_u32 (ucast b) of
           Ok ty \<Rightarrow> if allowed ty then Ok ty
             else Err (protocol (lit ''object type '' @ nat_text (unat b) @ lit '' is not allowed here''))
         | Err _ \<Rightarrow> Err (protocol (lit ''object type '' @ nat_text (unat b) @ lit '' is not allowed here''))) (\<lambda>ty.
      andthen (proto_checksum sum) (\<lambda>c. Ok \<lparr>on_checksum = c, on_ty = ty\<rparr>)))"

definition object_name_value :: "object_name \<Rightarrow> gvalue" where
  "object_name_value n = VTuple [VByte (ucast (objtype_as_u32 (on_ty n))), checksum_value (on_checksum n)]"

definition HAVE_ENTRY_LEN :: u32 where "HAVE_ENTRY_LEN = 37"

definition have_entries_within :: "u32 \<Rightarrow> u32" where
  "have_entries_within limit = (limit - 1) div HAVE_ENTRY_LEN"

definition have_type :: "object_type \<Rightarrow> bool" where
  "have_type ty \<longleftrightarrow> ty = File \<or> ty = DirTree \<or> ty = DirMeta \<or> ty = Commit"

definition header_type :: "object_type \<Rightarrow> bool" where
  "header_type ty \<longleftrightarrow> have_type ty \<or> ty = CommitMeta"

subsection \<open>Lemmas\<close>

lemma kind_u8: "kind_from_u8 b = Ok k \<longleftrightarrow> b = kind_as_u8 k"
  by (cases k) (auto simp: kind_from_u8_def)

lemma encoding_u8: "encoding_from_u8 b = Ok e \<longleftrightarrow> b = encoding_as_u8 e"
  by (cases e) (auto simp: encoding_from_u8_def)

lemma encoding_name: "encoding_from_name n = Some e \<longleftrightarrow> n = encoding_as_str e"
  by (cases e) (auto simp: encoding_from_name_def)

lemma proto_checksum_Ok [result_simps]: "proto_checksum b = Ok c \<longleftrightarrow> c = b \<and> is_checksum b"
  by (auto simp: proto_checksum_def from_ay_def is_checksum_def result_simps)

lemma objtype_u8: "ucast (ucast (objtype_as_u32 ty) :: u8) = objtype_as_u32 ty"
  by (cases ty) simp_all

lemma proto_object_name_Ok:
  "proto_object_name allowed (b, s) = Ok n \<longleftrightarrow>
     allowed (on_ty n) \<and> is_checksum s \<and> on_checksum n = s \<and> b = ucast (objtype_as_u32 (on_ty n))"
proof -
  have "ucast (ucast b :: u32) = b" by transfer simp
  then have "objtype_from_u32 (ucast b) = Ok ty \<longleftrightarrow> b = ucast (objtype_as_u32 ty)" for ty
    unfolding objtype_u32 using objtype_u8 [of ty] by metis
  moreover have "proto_object_name allowed (b, s) = Ok n \<longleftrightarrow>
      objtype_from_u32 (ucast b) = Ok (on_ty n) \<and> allowed (on_ty n) \<and> is_checksum s \<and> on_checksum n = s"
    by (cases n; cases "objtype_from_u32 (ucast b)") (auto simp: proto_object_name_def result_simps)
  ultimately show ?thesis by auto
qed

end
