(* ===== verification/Receive_Walk.thy ===== *)
theory Receive_Walk imports Repo_Txn Remote_Proto Core_Commit
begin
section \<open>The completeness walk of a push session\<close>

text \<open>
  \<^verbatim>\<open>crates/ostrya/src/receive/walk.rs\<close>, with \<open>Failure\<close> of \<open>session.rs\<close> and the metadata read of
  \<open>object.rs\<close>. \<open>walk_round\<close> is one round of the loop of \<open>Walk::run\<close>; \<open>walk_loop\<close> repeats it, as a partial
  function whose value \<open>None\<close> is a loop that does not end. The lemmas show that the loop always ends, that the report
  is exactly the absent objects that the roots reach, each once, and that a publication after a walk with an empty report
  leaves a store in which each object that the roots reach is present.
\<close>

subsection \<open>Failures of a session\<close>

datatype failure = Wire remote_error | Internal repo_error | Silent repo_error

definition checksum_text :: "checksum \<Rightarrow> bytes" where
  "checksum_text c = to_hex c"

definition MAX_METADATA_SIZE :: nat where
  "MAX_METADATA_SIZE = 128 * 1024 * 1024"

text \<open>The read of a whole metadata object; \<open>None\<close> is an absent file. No other kind of file has the path of a
  metadata object in a store whose objects match their names.\<close>

definition read_meta_object :: "'h env \<Rightarrow> directory \<Rightarrow> bytes \<Rightarrow> (repo_error, bytes option) result" where
  "read_meta_object env dir path =
     andthen (call_result (ev_read env path)) (\<lambda>_.
     case dir path of
       None \<Rightarrow> Ok None
     | Some (Stored_meta b, _) \<Rightarrow> if length b > MAX_METADATA_SIZE then Err Io_error else Ok (Some b)
     | Some _ \<Rightarrow> Err Io_error)"

subsection \<open>The walk\<close>

record missing =
  mi_listed :: "object_name list"
  mi_total :: nat

definition missing_add :: "missing \<Rightarrow> object_name \<Rightarrow> missing" where
  "missing_add m name =
     (let m = m\<lparr>mi_total := mi_total m + 1\<rparr> in
      if length (mi_listed m) < unat MAX_HAVE then m\<lparr>mi_listed := mi_listed m @ [name]\<rparr> else m)"

text \<open>The stack of dirtrees has its top at the head.\<close>

record walk =
  wk_seen :: "object_name list"
  wk_trees :: "checksum list"
  wk_probes :: "object_name list"
  wk_missing :: missing

definition visit :: "txn \<Rightarrow> walk \<Rightarrow> object_name \<Rightarrow> walk" where
  "visit t w name =
     (if name \<in> set (wk_seen w) then w
      else
        let w = w\<lparr>wk_seen := name # wk_seen w\<rparr> in
        if on_ty name = DirTree then w\<lparr>wk_trees := on_checksum name # wk_trees w\<rparr>
        else if \<not> is_staged t (on_checksum name) (on_ty name) then w\<lparr>wk_probes := wk_probes w @ [name]\<rparr>
        else w)"

abbreviation obj_name :: "checksum \<Rightarrow> object_type \<Rightarrow> object_name" where
  "obj_name c ty \<equiv> \<lparr>on_checksum = c, on_ty = ty\<rparr>"

definition tree_names :: "dirtree \<Rightarrow> object_name list" where
  "tree_names tree =
     map (\<lambda>(_, c). obj_name c File) (dt_files tree) @
     concat (map (\<lambda>(_, subtree, submeta). [obj_name submeta DirMeta, obj_name subtree DirTree]) (dt_dirs tree))"

definition root_names :: "(checksum \<times> checksum) list \<Rightarrow> object_name list" where
  "root_names roots = concat (map (\<lambda>(tree, meta). [obj_name meta DirMeta, obj_name tree DirTree]) roots)"

definition probe_all :: "'h env \<Rightarrow> txn \<Rightarrow> object_name list \<Rightarrow> (repo_error, bool list) result" where
  "probe_all env t probes =
     try_map (\<lambda>n. snd (object_exists env (loose_path (on_checksum n) (on_ty n) (tx_mode t)) t)) probes"

definition read_tree ::
    "'h env \<Rightarrow> txn \<Rightarrow> checksum option \<Rightarrow> (repo_error, (checksum \<times> bool \<times> (core_error, dirtree) result option) option) result" where
  "read_tree env t tree =
     (case tree of
        None \<Rightarrow> Ok None
      | Some c \<Rightarrow>
          if is_staged t c DirTree then
            andthen (read_meta_object env (tx_files t) (flat_name c DirTree (tx_mode t))) (\<lambda>r.
            case r of
              None \<Rightarrow> Err Io_error
            | Some b \<Rightarrow> Ok (Some (c, True, Some (dirtree_parse b))))
          else
            andthen (read_meta_object env (tx_objects t) (loose_path c DirTree (tx_mode t))) (\<lambda>r.
            Ok (Some (c, False, map_option dirtree_parse r))))"

definition tree_failure :: "checksum \<Rightarrow> bool \<Rightarrow> core_error \<Rightarrow> failure" where
  "tree_failure c staged e =
     (let m = Msg_core (lit ''dirtree '' @ checksum_text c @ lit '' does not parse: '') e in
      if staged then Wire (R_Protocol m) else Internal (InvalidFormat m))"

text \<open>What one round of the loop does with the dirtree that it read, and the round; \<open>None\<close> is the return of \<open>run\<close>.\<close>

definition walk_enter ::
    "txn \<Rightarrow> walk \<Rightarrow> (checksum \<times> bool \<times> (core_error, dirtree) result option) option \<Rightarrow> (failure, walk) result" where
  "walk_enter t w read =
     (case read of
        None \<Rightarrow> Ok w
      | Some (c, staged, None) \<Rightarrow> Ok (w\<lparr>wk_missing := missing_add (wk_missing w) (obj_name c DirTree)\<rparr>)
      | Some (c, staged, Some parsed) \<Rightarrow>
          andthen (map_err (tree_failure c staged) parsed) (\<lambda>tree. Ok (foldl (visit t) w (tree_names tree))))"

definition walk_round :: "'h env \<Rightarrow> txn \<Rightarrow> walk \<Rightarrow> (failure, walk option) result" where
  "walk_round env t w =
     (let tree = (case wk_trees w of [] \<Rightarrow> None | c # _ \<Rightarrow> Some c) in
      if tree = None \<and> wk_probes w = [] then Ok None
      else
        let probes = wk_probes w; w = w\<lparr>wk_trees := tl (wk_trees w), wk_probes := []\<rparr> in
        andthen (map_err Internal (probe_all env t probes)) (\<lambda>present.
        andthen (map_err Internal (read_tree env t tree)) (\<lambda>read.
        let absent = map fst (filter (\<lambda>(_, p). \<not> p) (zip probes present)) in
        map_ok Some (walk_enter t (w\<lparr>wk_missing := foldl missing_add (wk_missing w) absent\<rparr>) read))))"

partial_function (option) walk_loop :: "'h env \<Rightarrow> txn \<Rightarrow> walk \<Rightarrow> (failure, walk) result option" where
  "walk_loop env t w =
     (case walk_round env t w of
        Err e \<Rightarrow> Some (Err e)
      | Ok None \<Rightarrow> Some (Ok w)
      | Ok (Some w') \<Rightarrow> walk_loop env t w')"

definition walk_run :: "'h env \<Rightarrow> txn \<Rightarrow> walk \<Rightarrow> (failure, walk) result option" where
  "walk_run env t w =
     (case ev_clone env of Some e \<Rightarrow> Some (Err (Internal e)) | None \<Rightarrow> walk_loop env t w)"

definition walk_new :: walk where
  "walk_new = \<lparr>wk_seen = [], wk_trees = [], wk_probes = [], wk_missing = \<lparr>mi_listed = [], mi_total = 0\<rparr>\<rparr>"

definition completeness :: "'h env \<Rightarrow> txn \<Rightarrow> (checksum \<times> checksum) list \<Rightarrow> (failure, missing) result option" where
  "completeness env t roots =
     map_option (map_ok wk_missing) (walk_run env t (foldl (visit t) walk_new (root_names roots)))"

subsection \<open>What the walk must find\<close>

definition tree_at :: "txn \<Rightarrow> checksum \<Rightarrow> dirtree option" where
  "tree_at t c =
     (case (if is_staged t c DirTree then tx_files t (flat_name c DirTree (tx_mode t))
            else tx_objects t (loose_path c DirTree (tx_mode t))) of
        Some (Stored_meta b, _) \<Rightarrow>
          if length b \<le> MAX_METADATA_SIZE then (case dirtree_parse b of Ok tree \<Rightarrow> Some tree | Err _ \<Rightarrow> None) else None
      | _ \<Rightarrow> None)"

definition absent :: "txn \<Rightarrow> object_name \<Rightarrow> bool" where
  "absent t n \<longleftrightarrow> \<not> is_staged t (on_checksum n) (on_ty n) \<and>
     tx_objects t (loose_path (on_checksum n) (on_ty n) (tx_mode t)) = None"

inductive reached :: "txn \<Rightarrow> (checksum \<times> checksum) list \<Rightarrow> object_name \<Rightarrow> bool" for t roots where
  reached_root: "n \<in> set (root_names roots) \<Longrightarrow> reached t roots n"
| reached_step: "reached t roots (obj_name c DirTree) \<Longrightarrow> tree_at t c = Some tree \<Longrightarrow> n \<in> set (tree_names tree) \<Longrightarrow>
    reached t roots n"

text \<open>A report of the names \<open>L\<close> lists the first ones and counts all.\<close>

definition reports :: "missing \<Rightarrow> object_name list \<Rightarrow> bool" where
  "reports m L \<longleftrightarrow> mi_total m = length L \<and> mi_listed m = take (unat MAX_HAVE) L"

lemma reports_add: "reports m L \<Longrightarrow> reports (missing_add m n) (L @ [n])"
  by (auto simp: reports_def missing_add_def Let_def)

lemma reports_foldl: "reports m L \<Longrightarrow> reports (foldl missing_add m ns) (L @ ns)"
proof (induction ns arbitrary: m L)
  case (Cons n ns)
  show ?case using Cons.IH [OF reports_add [OF Cons.prems, of n]] by simp
qed simp

subsection \<open>The reads\<close>

lemma read_meta_object_Ok:
  "read_meta_object env dir path = Ok r \<Longrightarrow>
     (r = None \<and> dir path = None) \<or> (\<exists>b d. r = Some b \<and> length b \<le> MAX_METADATA_SIZE \<and> dir path = Some (Stored_meta b, d))"
  by (auto simp: read_meta_object_def call_result_def result_simps split: option.splits stored.splits if_splits)

lemma read_tree_Ok:
  assumes "read_tree env t (Some c) = Ok r"
  shows "(\<exists>staged. r = Some (c, staged, None)) \<and> absent t (obj_name c DirTree) \<and> tree_at t c = None \<or>
    (\<exists>staged parsed. r = Some (c, staged, Some parsed) \<and> \<not> absent t (obj_name c DirTree) \<and>
       tree_at t c = (case parsed of Ok tree \<Rightarrow> Some tree | Err _ \<Rightarrow> None))"
proof (cases "is_staged t c DirTree")
  case True
  then obtain b where b: "read_meta_object env (tx_files t) (flat_name c DirTree (tx_mode t)) = Ok (Some b)"
    "r = Some (c, True, Some (dirtree_parse b))"
    using assms by (auto simp: read_tree_def result_simps split: option.splits)
  from read_meta_object_Ok [OF b(1)] show ?thesis using True b(2) by (auto simp: absent_def tree_at_def)
next
  case False
  then obtain rb where rb: "read_meta_object env (tx_objects t) (loose_path c DirTree (tx_mode t)) = Ok rb"
    "r = Some (c, False, map_option dirtree_parse rb)"
    using assms by (auto simp: read_tree_def result_simps)
  from read_meta_object_Ok [OF rb(1)] show ?thesis using False rb(2) by (auto simp: absent_def tree_at_def)
qed

lemma probe_all_Ok:
  assumes "probe_all env t probes = Ok present"
  shows "map fst (filter (\<lambda>(_, p). \<not> p) (zip probes present)) =
    filter (\<lambda>n. tx_objects t (loose_path (on_checksum n) (on_ty n) (tx_mode t)) = None) probes"
proof -
  have "list_all2 (\<lambda>n p. p \<longleftrightarrow> tx_objects t (loose_path (on_checksum n) (on_ty n) (tx_mode t)) \<noteq> None) probes present"
    using assms by (auto simp: probe_all_def result_simps object_exists_def op_bind_def call_result_def
        elim!: list_all2_mono split: option.splits)
  then show ?thesis by (induction rule: list_all2_induct) auto
qed

subsection \<open>The invariant of the loop\<close>

text \<open>\<open>pending\<close> is what the walk met and did not check yet; \<open>D\<close> is the dirtree whose entries it is visiting.\<close>

definition pending :: "walk \<Rightarrow> object_name set" where
  "pending w = set (wk_probes w) \<union> (\<lambda>c. obj_name c DirTree) ` set (wk_trees w)"

definition walk_inv :: "txn \<Rightarrow> (checksum \<times> checksum) list \<Rightarrow> checksum set \<Rightarrow> object_name list \<Rightarrow> walk \<Rightarrow> bool" where
  "walk_inv t roots D L w \<longleftrightarrow>
     (\<forall>n \<in> set (wk_seen w). reached t roots n) \<and> distinct (wk_probes w) \<and> distinct (wk_trees w) \<and>
     pending w \<subseteq> set (wk_seen w) \<and> (\<forall>n \<in> set (wk_probes w). on_ty n \<noteq> DirTree \<and> \<not> is_staged t (on_checksum n) (on_ty n)) \<and>
     (\<forall>c tree. obj_name c DirTree \<in> set (wk_seen w) - pending w \<longrightarrow> c \<notin> D \<longrightarrow> tree_at t c = Some tree \<longrightarrow>
        set (tree_names tree) \<subseteq> set (wk_seen w)) \<and>
     reports (wk_missing w) L \<and> distinct L \<and> set L = {n \<in> set (wk_seen w) - pending w. absent t n}"

lemma walk_inv_extend:
  assumes inv: "walk_inv t roots D L w" and n: "n \<notin> set (wk_seen w)" "reached t roots n"
    and w': "set (wk_seen w') = insert n (set (wk_seen w))" "wk_missing w' = wk_missing w"
    and p: "pending w' = pending w \<union> (if q then {n} else {})" and q: "q \<or> \<not> absent t n \<and> on_ty n \<noteq> DirTree"
    and d: "distinct (wk_probes w')" "distinct (wk_trees w')"
    and pr: "\<forall>n \<in> set (wk_probes w'). on_ty n \<noteq> DirTree \<and> \<not> is_staged t (on_checksum n) (on_ty n)"
  shows "walk_inv t roots D L w'"
proof -
  have "set (tree_names tree) \<subseteq> set (wk_seen w')"
    if *: "obj_name c DirTree \<in> set (wk_seen w') - pending w'" "c \<notin> D" "tree_at t c = Some tree" for c tree
  proof -
    have "obj_name c DirTree \<noteq> n" using *(1) q p by (cases q) auto
    then have "obj_name c DirTree \<in> set (wk_seen w) - pending w" using *(1) p w'(1) by auto
    then show ?thesis using inv *(2,3) w'(1) unfolding walk_inv_def by blast
  qed
  moreover have "{x \<in> set (wk_seen w') - pending w'. absent t x} = {x \<in> set (wk_seen w) - pending w. absent t x}"
    using q p w'(1) n(1) inv by (cases q) (auto simp: walk_inv_def)
  moreover have "pending w' \<subseteq> set (wk_seen w')" using inv p w'(1) by (auto simp: walk_inv_def)
  ultimately show ?thesis using inv n(2) w' d pr unfolding walk_inv_def by auto
qed

lemma visit_inv:
  assumes inv: "walk_inv t roots D L w" and n: "reached t roots n"
  shows "walk_inv t roots D L (visit t w n)"
proof (cases "n \<in> set (wk_seen w)")
  case True
  then show ?thesis using inv by (simp add: visit_def)
next
  case False
  then have fresh: "n \<notin> pending w" using inv by (auto simp: walk_inv_def)
  have nn: "n = obj_name (on_checksum n) (on_ty n)" by simp
  let ?q = "on_ty n = DirTree \<or> \<not> is_staged t (on_checksum n) (on_ty n)"
  have p: "pending (visit t w n) = pending w \<union> (if ?q then {n} else {})"
    using False by (subst (2) nn) (auto simp: visit_def pending_def Let_def)
  have "on_ty n = DirTree \<Longrightarrow> on_checksum n \<notin> set (wk_trees w)" "n \<notin> set (wk_probes w)"
    using fresh nn unfolding pending_def by (metis UnI2 imageI, simp)
  then show ?thesis
    using inv False by (intro walk_inv_extend [OF inv False n _ _ p])
      (auto simp: visit_def Let_def walk_inv_def absent_def)
qed

lemma visits_inv:
  "walk_inv t roots D L w \<Longrightarrow> (\<And>n. n \<in> set ns \<Longrightarrow> reached t roots n) \<Longrightarrow> walk_inv t roots D L (foldl (visit t) w ns)"
  by (induction ns arbitrary: w) (auto simp: visit_inv)

lemma visit_seen: "set (wk_seen (visit t w n)) = insert n (set (wk_seen w))"
  by (auto simp: visit_def Let_def)

lemma visits_seen: "set (wk_seen (foldl (visit t) w ns)) = set (wk_seen w) \<union> set ns"
  by (induction ns arbitrary: w) (auto simp: visit_seen)

lemma walk_inv_discharge:
  assumes "walk_inv t roots D L w"
    and "\<And>c tree. c \<in> D \<Longrightarrow> tree_at t c = Some tree \<Longrightarrow> set (tree_names tree) \<subseteq> set (wk_seen w)"
  shows "walk_inv t roots {} L w"
  using assms unfolding walk_inv_def by blast

abbreviation popped :: "walk \<Rightarrow> checksum list" where
  "popped w \<equiv> take 1 (wk_trees w)"

lemma drain_inv:
  assumes inv: "walk_inv t roots {} L w" and m: "reports m (L @ A @ B)"
    and A: "A = filter (\<lambda>n. tx_objects t (loose_path (on_checksum n) (on_ty n) (tx_mode t)) = None) (wk_probes w)"
    and B: "B = filter (absent t) (map (\<lambda>c. obj_name c DirTree) (popped w))"
  shows "walk_inv t roots (set (popped w)) (L @ A @ B) (w\<lparr>wk_trees := tl (wk_trees w), wk_probes := [], wk_missing := m\<rparr>)"
proof -
  let ?w = "w\<lparr>wk_trees := tl (wk_trees w), wk_probes := [], wk_missing := m\<rparr>"
  have seen: "set (wk_seen ?w) = set (wk_seen w)" by simp
  have A': "set A = {n \<in> set (wk_probes w). absent t n}" using inv by (auto simp: A absent_def walk_inv_def)
  have trees: "set (wk_trees w) = set (popped w) \<union> set (tl (wk_trees w))" "set (popped w) \<inter> set (tl (wk_trees w)) = {}"
    "distinct (tl (wk_trees w))" "length (popped w) \<le> 1"
    using inv by (cases "wk_trees w"; auto simp: walk_inv_def)+
  have probes: "\<And>c. obj_name c DirTree \<notin> set (wk_probes w)" using inv by (fastforce simp: walk_inv_def)
  have p: "pending w = pending ?w \<union> set (wk_probes w) \<union> (\<lambda>c. obj_name c DirTree) ` set (popped w)"
    "pending ?w \<inter> set (wk_probes w) = {}" "pending ?w \<inter> (\<lambda>c. obj_name c DirTree) ` set (popped w) = {}"
    using trees probes by (auto simp: pending_def)
  have sub: "pending w \<subseteq> set (wk_seen w)" and L: "distinct L" "set L = {n \<in> set (wk_seen w) - pending w. absent t n}"
    using inv by (simp_all add: walk_inv_def)
  have "distinct B" using trees(4) by (cases "wk_trees w") (auto simp: B)
  moreover have "distinct A" using inv by (simp add: A walk_inv_def)
  moreover have "set B = {n \<in> (\<lambda>c. obj_name c DirTree) ` set (popped w). absent t n}" by (auto simp: B)
  ultimately have "distinct (L @ A @ B) \<and> set (L @ A @ B) = {n \<in> set (wk_seen w) - pending ?w. absent t n}"
    using L A' sub p probes by auto
  moreover have "set (tree_names tree) \<subseteq> set (wk_seen w)"
    if "obj_name c DirTree \<in> set (wk_seen w) - pending ?w" "c \<notin> set (popped w)" "tree_at t c = Some tree" for c tree
  proof -
    have "obj_name c DirTree \<in> set (wk_seen w) - pending w" using that(1,2) probes unfolding p(1) by auto
    then show ?thesis using inv that(3) unfolding walk_inv_def by blast
  qed
  ultimately show ?thesis
    using inv m trees(3) sub p(1) unfolding walk_inv_def by (simp add: seen)
qed

lemma walk_round_inv:
  assumes inv: "walk_inv t roots {} L w" and run: "walk_round env t w = Ok (Some w')"
  shows "(\<exists>L'. walk_inv t roots {} L' w') \<and> set (wk_seen w) \<subseteq> set (wk_seen w')"
proof -
  let ?A = "filter (\<lambda>n. tx_objects t (loose_path (on_checksum n) (on_ty n) (tx_mode t)) = None) (wk_probes w)"
  let ?B = "filter (absent t) (map (\<lambda>c. obj_name c DirTree) (popped w))"
  let ?m = "foldl missing_add (wk_missing w) ?A"
  let ?w = "\<lambda>m. w\<lparr>wk_trees := tl (wk_trees w), wk_probes := [], wk_missing := m\<rparr>"
  have m: "reports ?m (L @ ?A)" using inv reports_foldl by (auto simp: walk_inv_def)
  let ?tree = "case wk_trees w of [] \<Rightarrow> None | c # _ \<Rightarrow> Some c"
  obtain present read where pr: "probe_all env t (wk_probes w) = Ok present" and rd: "read_tree env t ?tree = Ok read"
    and w': "walk_enter t (?w ?m) read = Ok w'"
    using run by (auto simp: walk_round_def Let_def result_simps probe_all_Ok split: if_splits)
  note drain = drain_inv [OF inv _ refl refl]
  show ?thesis
  proof (cases "wk_trees w")
    case Nil
    then have "w' = ?w ?m" using rd w' by (simp add: read_tree_def walk_enter_def)
    then show ?thesis using drain [of ?m] m Nil by (auto simp: Nil)
  next
    case (Cons c cs)
    then have "read_tree env t (Some c) = Ok read" using rd by simp
    from read_tree_Ok [OF this] show ?thesis
    proof (elim disjE exE conjE)
      fix staged assume *: "read = Some (c, staged, None)" "absent t (obj_name c DirTree)" "tree_at t c = None"
      then have "w' = ?w (missing_add ?m (obj_name c DirTree))" using w' by (simp add: walk_enter_def)
      moreover have "reports (missing_add ?m (obj_name c DirTree)) (L @ ?A @ ?B)" using reports_add [OF m] * Cons by simp
      ultimately show ?thesis using walk_inv_discharge [OF drain] * Cons by auto
    next
      fix staged parsed
      assume *: "read = Some (c, staged, Some parsed)" "\<not> absent t (obj_name c DirTree)"
        "tree_at t c = (case parsed of Ok tree \<Rightarrow> Some tree | Err _ \<Rightarrow> None)"
      obtain tree where tree: "parsed = Ok tree" "w' = foldl (visit t) (?w ?m) (tree_names tree)"
        using * w' by (auto simp: walk_enter_def result_simps)
      have "obj_name c DirTree \<in> pending w" using Cons by (simp add: pending_def)
      then have "reached t roots (obj_name c DirTree)" using inv by (auto simp: walk_inv_def)
      then have sub: "reached t roots n" if "n \<in> set (tree_names tree)" for n
        using reached_step that * tree(1) by fastforce
      have "walk_inv t roots (set (popped w)) (L @ ?A @ ?B) (?w ?m)" using drain [of ?m] m * Cons by simp
      from visits_inv [OF this sub] have "walk_inv t roots (set (popped w)) (L @ ?A @ ?B) w'" by (simp add: tree(2))
      then have "walk_inv t roots {} (L @ ?A @ ?B) w'"
        by (rule walk_inv_discharge) (use * tree Cons in \<open>auto simp: visits_seen\<close>)
      then show ?thesis by (auto simp: tree(2) visits_seen)
    qed
  qed
qed

lemma walk_loop_inv:
  assumes "walk_loop env t w = Some (Ok w')" and "walk_inv t roots {} L w"
  shows "\<exists>L'. walk_inv t roots {} L' w' \<and> pending w' = {} \<and> set (wk_seen w) \<subseteq> set (wk_seen w')"
proof -
  let ?P = "\<lambda>t w r. \<forall>L w'. r = Ok w' \<longrightarrow> walk_inv t roots {} L w \<longrightarrow>
    (\<exists>L'. walk_inv t roots {} L' w' \<and> pending w' = {} \<and> set (wk_seen w) \<subseteq> set (wk_seen w'))"
  have "?P t w r" if "walk_loop env t w = Some r" for r
    using that
  proof (rule walk_loop.raw_induct [rotated, of env t w r], intro allI impI)
    fix f :: "'h env \<Rightarrow> txn \<Rightarrow> walk \<Rightarrow> (failure, walk) result option" and env t w r L w'
    assume IH: "\<And>env t w r. f env t w = Some r \<Longrightarrow> ?P t w r"
      and body: "(case walk_round env t w of Err e \<Rightarrow> Some (Err e) | Ok None \<Rightarrow> Some (Ok w) | Ok (Some w') \<Rightarrow> f env t w') = Some r"
      and r: "r = Ok w'" and inv: "walk_inv t roots {} L w"
    consider (stop) "walk_round env t w = Ok None" "w' = w" | (step) w1 where "walk_round env t w = Ok (Some w1)" "f env t w1 = Some (Ok w')"
      using body r by (auto split: result.splits option.splits)
    then show "\<exists>L'. walk_inv t roots {} L' w' \<and> pending w' = {} \<and> set (wk_seen w) \<subseteq> set (wk_seen w')"
    proof cases
      case stop
      then have "pending w = {}" by (auto simp: walk_round_def pending_def Let_def result_simps
          split: if_splits list.splits option.splits prod.splits)
      then show ?thesis using stop inv by blast
    next
      case step
      from walk_round_inv [OF inv step(1)] IH [OF step(2)] show ?thesis by blast
    qed
  qed
  then show ?thesis using assms by blast
qed

lemma completeness_report:
  assumes "completeness env t roots = Some (Ok m)"
  shows "\<exists>L. distinct L \<and> set L = {n. reached t roots n \<and> absent t n} \<and> reports m L"
proof -
  let ?w0 = "foldl (visit t) walk_new (root_names roots)"
  obtain w where w: "walk_loop env t ?w0 = Some (Ok w)" "m = wk_missing w"
    using assms by (auto simp: completeness_def walk_run_def result_simps split: option.splits)
  have "walk_inv t roots {} [] walk_new" by (simp add: walk_inv_def walk_new_def pending_def reports_def)
  then have "walk_inv t roots {} [] ?w0" by (rule visits_inv) (rule reached_root)
  from walk_loop_inv [OF w(1) this] obtain L where L: "walk_inv t roots {} L w" "pending w = {}" and
    roots: "set (root_names roots) \<subseteq> set (wk_seen w)" by (auto simp: visits_seen)
  have "reached t roots n \<Longrightarrow> n \<in> set (wk_seen w)" for n
  proof (induction rule: reached.induct)
    case (reached_step c tree n)
    then show ?case using L unfolding walk_inv_def by blast
  qed (use roots in auto)
  then have "set (wk_seen w) = {n. reached t roots n}" using L by (auto simp: walk_inv_def)
  then show ?thesis using L w(2) by (auto simp: walk_inv_def intro!: exI [of _ L])
qed

subsection \<open>The walk ends\<close>

abbreviation all_names :: "object_name set" where
  "all_names \<equiv> {n. is_checksum (on_checksum n)}"

lemma finite_object_types: "finite (UNIV :: object_type set)"
proof -
  have "(UNIV :: object_type set) = {File, DirTree, DirMeta, Commit, TombstoneCommit, CommitMeta, PayloadLink, FileXattrs, FileXattrsLink}"
    using object_type.exhaust by auto
  then show ?thesis by (metis finite.emptyI finite_insert)
qed

lemma finite_names: "finite all_names"
proof -
  have "all_names \<subseteq> (\<lambda>(c, ty). obj_name c ty) ` ({c. is_checksum c} \<times> UNIV)"
  proof
    fix n :: object_name assume "n \<in> all_names"
    then show "n \<in> (\<lambda>(c, ty). obj_name c ty) ` ({c. is_checksum c} \<times> UNIV)"
      by (intro image_eqI [of _ _ "(on_checksum n, on_ty n)"]) auto
  qed
  moreover have "finite {c. is_checksum c}"
    using finite_lists_length_eq [of "UNIV :: u8 set" 32] by (auto simp: is_checksum_def)
  ultimately show ?thesis using finite_object_types finite_subset by blast
qed

lemma tree_names_checksums:
  assumes "dirtree_parse b = Ok tree" and "length b \<le> MAX_METADATA_SIZE" and "n \<in> set (tree_names tree)"
  shows "is_checksum (on_checksum n)"
proof -
  have "length b < usize_bound" using assms(2) by (simp add: MAX_METADATA_SIZE_def)
  then have "dirtree_typed tree" using assms(1) by (simp add: dirtree_parse_iff)
  then show ?thesis using assms(3) by (auto simp: dirtree_typed_def tree_names_def)
qed

lemma visits_same: "set ns \<subseteq> set (wk_seen w) \<Longrightarrow> foldl (visit t) w ns = w"
  by (induction ns arbitrary: w) (auto simp: visit_def)

definition walk_rel :: "(walk \<times> walk) set" where
  "walk_rel = measures [\<lambda>w. card (all_names - set (wk_seen w)), \<lambda>w. length (wk_trees w), \<lambda>w. length (wk_probes w)]"

lemma visits_rel:
  assumes "set ns \<subseteq> all_names" and "wk_seen w1 = wk_seen w" and "length (wk_trees w1) < length (wk_trees w)"
  shows "(foldl (visit t) w1 ns, w) \<in> walk_rel"
proof (cases "set ns \<subseteq> set (wk_seen w)")
  case True
  then show ?thesis using assms by (simp add: visits_same walk_rel_def)
next
  case False
  then have "all_names - set (wk_seen (foldl (visit t) w1 ns)) \<subset> all_names - set (wk_seen w)"
    using assms by (auto simp: visits_seen)
  then show ?thesis using psubset_card_mono finite_names by (auto simp: walk_rel_def intro: finite_subset)
qed

lemma walk_round_rel:
  assumes "walk_round env t w = Ok (Some w')"
  shows "(w', w) \<in> walk_rel"
proof (cases "wk_trees w")
  case Nil
  then show ?thesis using assms
    by (auto simp: walk_round_def Let_def read_tree_def walk_enter_def result_simps walk_rel_def split: if_splits)
next
  case (Cons c cs)
  let ?m = "\<lambda>m. w\<lparr>wk_trees := cs, wk_probes := [], wk_missing := m\<rparr>"
  obtain read m where read: "read_tree env t (Some c) = Ok read" and w': "walk_enter t (?m m) read = Ok w'"
    using assms Cons by (auto simp: walk_round_def Let_def result_simps)
  consider (leaf) m' where "w' = ?m m'"
    | (tree) b tree where "dirtree_parse b = Ok tree" "length b \<le> MAX_METADATA_SIZE" "w' = foldl (visit t) (?m m) (tree_names tree)"
    using read w' by (auto simp: read_tree_def walk_enter_def result_simps dest!: read_meta_object_Ok
        split: if_splits option.splits)
  then show ?thesis
  proof cases
    case leaf
    then show ?thesis using Cons by (simp add: walk_rel_def)
  next
    case tree
    then show ?thesis using tree_names_checksums [OF tree(1,2)] Cons by (auto intro!: visits_rel)
  qed
qed

lemma walk_loop_returns: "\<exists>r. walk_loop env t w = Some r"
proof -
  have "wf walk_rel" by (simp add: walk_rel_def)
  then show ?thesis
  proof (induction w rule: wf_induct_rule)
    case (less w)
    then show ?case
      by (subst walk_loop.simps) (auto split: result.split option.split dest: walk_round_rel)
  qed
qed

subsection \<open>After the publication\<close>

lemma sync_all_fst: "map_option fst (sync_all d p) = map_option fst (d p)"
  by (cases "d p") (auto simp: sync_all_def)

lemma published_at:
  assumes ok: "txn_ok sha t" and run: "publish env t = (t', Ok x)" and c: "is_checksum c"
  shows "map_option fst (tx_objects t' (loose_path c ty (tx_mode t))) =
      map_option fst (if is_staged t c ty then tx_files t (flat_name c ty (tx_mode t)) else tx_objects t (loose_path c ty (tx_mode t)))"
    and "is_staged t c ty \<Longrightarrow> tx_objects t' (loose_path c ty (tx_mode t)) \<noteq> None"
proof -
  let ?os = "sg_objects (tx_staged t)" and ?p = "loose_path c ty (tx_mode t)"
  obtain t1 :: txn where moved: "list_all (\<lambda>e. tx_objects t' (st_dest (snd e)) = tx_files t1 (st_name (snd e)) \<and> tx_files t1 (st_name (snd e)) \<noteq> None) ?os"
    and files: "tx_files t1 = tx_files t \<or> tx_files t1 = sync_all (tx_files t)"
    and rest: "\<And>d. d \<notin> (st_dest \<circ> snd) ` set ?os \<Longrightarrow> tx_objects t' d = tx_objects t1 d"
    and objs: "tx_objects t1 = tx_objects t \<or> tx_objects t1 = sync_all (tx_objects t)"
    using publish_moves [OF ok run] by blast
  have named: "list_all (entry_named (tx_mode t)) ?os" by (rule txn_ok_entries(1) [OF ok])
  have "map_option fst (tx_objects t' ?p) = map_option fst (tx_files t (flat_name c ty (tx_mode t))) \<and> tx_objects t' ?p \<noteq> None"
    if "is_staged t c ty"
  proof -
    from that obtain e where "((c, ty), e) \<in> set ?os" by (auto simp: is_staged_def dest: map_of_SomeD)
    then have e: "entry_named (tx_mode t) ((c, ty), e)" "tx_objects t' (st_dest e) = tx_files t1 (st_name e) \<and> tx_files t1 (st_name e) \<noteq> None"
      using moved named by (fastforce simp: list_all_iff)+
    then have "tx_objects t' ?p = tx_files t1 (flat_name c ty (tx_mode t)) \<and> tx_objects t' ?p \<noteq> None"
      by (simp add: entry_named_def Let_def)
    then have "tx_objects t' ?p = tx_files t1 (flat_name c ty (tx_mode t))" "tx_objects t' ?p \<noteq> None" by blast+
    then show ?thesis using files sync_all_fst by metis
  qed
  moreover have "map_option fst (tx_objects t' ?p) = map_option fst (tx_objects t ?p)" if "\<not> is_staged t c ty"
  proof -
    have "?p \<notin> (st_dest \<circ> snd) ` set ?os"
    proof
      assume "?p \<in> (st_dest \<circ> snd) ` set ?os"
      then obtain c' ty' o' where e: "((c', ty'), o') \<in> set ?os" "?p = st_dest o'" by auto
      then have "entry_named (tx_mode t) ((c', ty'), o')" using named by (simp add: list_all_iff)
      then have "is_checksum c'" "?p = loose_path c' ty' (tx_mode t)" using e(2) by (simp_all add: entry_named_def Let_def)
      then have "(c', ty') = (c, ty)" using c loose_path_inj by auto
      then show False using e(1) that weak_map_of_SomeI by (fastforce simp: is_staged_def)
    qed
    then show ?thesis using rest objs by (auto simp: sync_all_fst)
  qed
  ultimately show "map_option fst (tx_objects t' ?p) =
      map_option fst (if is_staged t c ty then tx_files t (flat_name c ty (tx_mode t)) else tx_objects t ?p)"
    "is_staged t c ty \<Longrightarrow> tx_objects t' ?p \<noteq> None" by auto
qed

text \<open>A later transaction over the same store starts with nothing staged.\<close>

definition after :: "txn \<Rightarrow> u64 \<Rightarrow> txn" where
  "after t budget = t\<lparr>tx_staged := staged_new budget\<rparr>"

lemma not_staged_after [simp]: "\<not> is_staged (after t budget) c ty"
  by (simp add: is_staged_def after_def staged_new_def)

lemma after_fields [simp]: "tx_objects (after t budget) = tx_objects t" "tx_mode (after t budget) = tx_mode t"
  by (simp_all add: after_def)

lemma tree_at_after:
  assumes "txn_ok sha t" and "publish env t = (t', Ok x)" and "is_checksum c"
  shows "tree_at (after t' budget) c = tree_at t c"
proof -
  have mode: "tx_mode t' = tx_mode t" using publish_store_ok [OF assms(1,2)] by (simp add: store_ok_def)
  show ?thesis
    using published_at(1) [OF assms, of DirTree] unfolding tree_at_def
    by (cases "tx_objects t' (loose_path c DirTree (tx_mode t))"; cases "tx_files t (flat_name c DirTree (tx_mode t))";
        cases "tx_objects t (loose_path c DirTree (tx_mode t))") (auto simp: mode split: if_splits)
qed

lemma reached_checksum:
  assumes "list_all (\<lambda>(d, m). is_checksum d \<and> is_checksum m) roots" and "reached t roots n"
  shows "is_checksum (on_checksum n)"
  using assms(2)
proof cases
  case reached_root
  then show ?thesis using assms(1) by (auto simp: root_names_def list_all_iff)
next
  case (reached_step c tree)
  then show ?thesis using tree_names_checksums by (auto simp: tree_at_def split: option.splits stored.splits result.splits if_splits)
qed

lemma reached_after:
  assumes "txn_ok sha t" and "publish env t = (t', Ok x)" and "list_all (\<lambda>(d, m). is_checksum d \<and> is_checksum m) roots"
    and "reached (after t' budget) roots n"
  shows "reached t roots n"
  using assms(4)
proof (induction rule: reached.induct)
  case (reached_step c tree n)
  have "is_checksum c" using reached_checksum [OF assms(3) reached_step(1)] by simp
  then show ?case using reached_step tree_at_after [OF assms(1,2)] reached.reached_step by metis
qed (rule reached_root)

lemma complete_publication:
  assumes ok: "txn_ok sha t" and walk: "completeness env t roots = Some (Ok m)" and none: "mi_total m = 0"
    and run: "publish env' t = (t', Ok x)" and roots: "list_all (\<lambda>(d, m). is_checksum d \<and> is_checksum m) roots"
    and n: "reached (after t' budget) roots n"
  shows "tx_objects t' (loose_path (on_checksum n) (on_ty n) (tx_mode t)) \<noteq> None"
proof -
  have rt: "reached t roots n" by (rule reached_after [OF ok run roots n])
  obtain L where L: "set L = {n. reached t roots n \<and> absent t n}" "reports m L"
    using completeness_report [OF walk] by blast
  then have "L = []" using none by (simp add: reports_def)
  then have "\<not> absent t n" using L(1) rt by auto
  moreover note pub = published_at [OF ok run reached_checksum [OF roots rt], of "on_ty n"]
  ultimately show ?thesis by (cases "is_staged t (on_checksum n) (on_ty n)") (auto simp: absent_def)
qed

end
