(* ===== verification/Receive_Ancestry.thy ===== *)
theory Receive_Ancestry imports Receive_Walk
begin
section \<open>The fast-forward walks\<close>

text \<open>
  \<^verbatim>\<open>crates/ostrya/src/receive/ancestry.rs\<close>: the walk of the parent chain of a new commit, which goes on from where
  it stopped, and the walks of one message with their shared parent map. The loop of \<open>Chain::extend\<close> is a partial
  function: it has no check for a cycle. The lemmas show that it returns where no commit is its own ancestor, and that
  \<open>reaches\<close> decides whether a commit is in the parent chain.
\<close>

type_synonym parents = "checksum \<rightharpoonup> checksum option"

datatype chain_end = Target checksum | Absent checksum | Root

record chain =
  ch_seen :: "checksum list"
  ch_end :: chain_end

record walks =
  wl_parents :: parents
  wl_chains :: "chain list"
  wl_index :: "checksum \<times> checksum \<rightharpoonup> nat"

definition walks_new :: "parents \<Rightarrow> walks" where
  "walks_new parents = \<lparr>wl_parents = parents, wl_chains = [], wl_index = Map.empty\<rparr>"

definition stored_parent :: "'h env \<Rightarrow> txn \<Rightarrow> checksum \<Rightarrow> (repo_error, checksum option option) result" where
  "stored_parent env t c =
     andthen (call_result (ev_clone env)) (\<lambda>_.
     andthen (read_meta_object env (tx_objects t) (loose_path c Commit (tx_mode t))) (\<lambda>r.
     case r of
       None \<Rightarrow> Ok None
     | Some b \<Rightarrow>
         andthen (map_err (\<lambda>e. InvalidFormat (Msg_core (lit ''commit '' @ checksum_text c @ lit '' does not parse: '') e))
           (commit_parse b)) (\<lambda>co. Ok (Some (co_parent co)))))"

text \<open>The parent of \<open>next\<close>, and the parent map with what the lookup read; \<open>None\<close> is an absent commit.\<close>

definition lookup_parent ::
    "'h env \<Rightarrow> txn \<Rightarrow> parents \<Rightarrow> checksum \<Rightarrow> (failure, (parents \<times> checksum option) option) result" where
  "lookup_parent env t parents next =
     (case parents next of
        Some parent \<Rightarrow> Ok (Some (parents, parent))
      | None \<Rightarrow>
          andthen (map_err Internal (stored_parent env t next)) (\<lambda>r.
          Ok (map_option (\<lambda>parent. (parents(next \<mapsto> parent), parent)) r)))"

partial_function (option) chain_extend ::
    "'h env \<Rightarrow> txn \<Rightarrow> parents \<Rightarrow> chain \<Rightarrow> checksum \<Rightarrow> checksum \<Rightarrow> (failure, parents \<times> chain) result option" where
  "chain_extend env t parents ch next target =
     (let ch = ch\<lparr>ch_seen := List.insert next (ch_seen ch)\<rparr> in
      if next = target then Some (Ok (parents, ch\<lparr>ch_end := Target next\<rparr>))
      else
        case lookup_parent env t parents next of
          Err e \<Rightarrow> Some (Err e)
        | Ok None \<Rightarrow> Some (Ok (parents, ch\<lparr>ch_end := Absent next\<rparr>))
        | Ok (Some (parents, None)) \<Rightarrow> Some (Ok (parents, ch\<lparr>ch_end := Root\<rparr>))
        | Ok (Some (parents, Some parent)) \<Rightarrow> chain_extend env t parents ch parent target)"

definition chain_walk ::
    "'h env \<Rightarrow> txn \<Rightarrow> parents \<Rightarrow> checksum \<Rightarrow> checksum \<Rightarrow> (failure, parents \<times> chain) result option" where
  "chain_walk env t parents new target = chain_extend env t parents \<lparr>ch_seen = [], ch_end = Root\<rparr> new target"

definition chain_reaches ::
    "'h env \<Rightarrow> txn \<Rightarrow> parents \<Rightarrow> chain \<Rightarrow> checksum \<Rightarrow> (failure, parents \<times> chain \<times> bool) result option" where
  "chain_reaches env t parents ch current =
     (if current \<in> set (ch_seen ch) then Some (Ok (parents, ch, True))
      else
        let resume = (\<lambda>from. map_option (map_ok (\<lambda>(parents, ch). (parents, ch, current \<in> set (ch_seen ch))))
              (chain_extend env t parents ch from current)) in
        case ch_end ch of
          Root \<Rightarrow> Some (Ok (parents, ch, False))
        | Target from \<Rightarrow> resume from
        | Absent from \<Rightarrow> resume from)"

definition walks_chain ::
    "'h env \<Rightarrow> txn \<Rightarrow> walks \<Rightarrow> checksum \<Rightarrow> checksum \<Rightarrow> (failure, walks \<times> nat) result option" where
  "walks_chain env t w new target =
     (case wl_index w (new, target) of
        Some i \<Rightarrow> Some (Ok (w, i))
      | None \<Rightarrow>
          map_option (map_ok (\<lambda>(parents, ch).
            let i = length (wl_chains w) in
            (w\<lparr>wl_parents := parents, wl_chains := wl_chains w @ [ch], wl_index := (wl_index w)((new, target) \<mapsto> i)\<rparr>, i)))
            (chain_walk env t (wl_parents w) new target))"

text \<open>The caller gives an index that \<open>walks_chain\<close> returned.\<close>

definition walks_reaches ::
    "'h env \<Rightarrow> txn \<Rightarrow> walks \<Rightarrow> nat \<Rightarrow> checksum \<Rightarrow> (failure, walks \<times> bool) result option" where
  "walks_reaches env t w i current =
     map_option (map_ok (\<lambda>(parents, ch, r). (w\<lparr>wl_parents := parents, wl_chains := (wl_chains w)[i := ch]\<rparr>, r)))
       (chain_reaches env t (wl_parents w) (wl_chains w ! i) current)"

subsection \<open>The parent relation\<close>

definition known_parent :: "txn \<Rightarrow> parents \<Rightarrow> checksum \<Rightarrow> checksum option option" where
  "known_parent t parents c =
     (case parents c of
        Some p \<Rightarrow> Some p
      | None \<Rightarrow>
          (case tx_objects t (loose_path c Commit (tx_mode t)) of
             Some (Stored_meta b, _) \<Rightarrow> (case commit_parse b of Ok co \<Rightarrow> Some (co_parent co) | Err _ \<Rightarrow> None)
           | _ \<Rightarrow> None))"

abbreviation parent_rel :: "(checksum \<Rightarrow> checksum option option) \<Rightarrow> checksum \<Rightarrow> checksum \<Rightarrow> bool" where
  "parent_rel kp x y \<equiv> kp x = Some (Some y)"

lemma lookup_parent_Ok:
  assumes "lookup_parent env t parents c = Ok r"
  shows "(r = None \<and> known_parent t parents c = None) \<or>
    (\<exists>parents' p. r = Some (parents', p) \<and> known_parent t parents c = Some p \<and> known_parent t parents' = known_parent t parents)"
proof (cases "parents c")
  case None
  then obtain r' where r': "stored_parent env t c = Ok r'" "r = map_option (\<lambda>p. (parents(c \<mapsto> p), p)) r'"
    using assms by (auto simp: lookup_parent_def result_simps)
  from r'(1) obtain rb where rb: "read_meta_object env (tx_objects t) (loose_path c Commit (tx_mode t)) = Ok rb"
    and rb': "(case rb of None \<Rightarrow> r' = None | Some b \<Rightarrow> (\<exists>co. commit_parse b = Ok co \<and> r' = Some (co_parent co)))"
    by (auto simp: stored_parent_def result_simps split: option.splits)
  show ?thesis
  proof (cases rb)
    case None
    then have "tx_objects t (loose_path c Commit (tx_mode t)) = None"
      using rb by (auto simp: read_meta_object_def call_result_def result_simps split: option.splits stored.splits if_splits)
    then show ?thesis using None \<open>parents c = None\<close> r'(2) rb' by (simp add: known_parent_def)
  next
    case (Some b)
    then obtain d where "tx_objects t (loose_path c Commit (tx_mode t)) = Some (Stored_meta b, d)"
      using rb by (auto simp: read_meta_object_def call_result_def result_simps split: option.splits stored.splits if_splits)
    moreover obtain co where "commit_parse b = Ok co" "r' = Some (co_parent co)" using rb' Some by auto
    ultimately show ?thesis using \<open>parents c = None\<close> r'(2)
      by (intro disjI2 exI [of _ "parents(c \<mapsto> co_parent co)"] exI [of _ "co_parent co"]) (auto simp: known_parent_def fun_eq_iff)
  qed
qed (use assms in \<open>auto simp: lookup_parent_def known_parent_def\<close>)

text \<open>A chain holds a run of commits from the new one, each the parent of the one before, and knows where it stopped.\<close>

fun end_ok :: "(checksum \<Rightarrow> checksum option option) \<Rightarrow> checksum \<Rightarrow> chain_end \<Rightarrow> bool" where
  "end_ok kp x (Target c) = (c = x)"
| "end_ok kp x (Absent c) = (c = x)"
| "end_ok kp x Root = (kp x = Some None)"

definition chain_ok :: "(checksum \<Rightarrow> checksum option option) \<Rightarrow> checksum \<Rightarrow> chain \<Rightarrow> bool" where
  "chain_ok kp new ch \<longleftrightarrow> (\<exists>xs. xs \<noteq> [] \<and> hd xs = new \<and> successively (parent_rel kp) xs \<and>
     set xs = set (ch_seen ch) \<and> end_ok kp (last xs) (ch_end ch))"

text \<open>A run is all of the ancestors that come before its end.\<close>

lemma run_ancestors:
  assumes "successively (parent_rel kp) xs" and "xs \<noteq> []" and "x \<in> set xs"
  shows "(parent_rel kp)\<^sup>*\<^sup>* (hd xs) x"
  using assms by (induction xs rule: induct_list012) (auto intro: converse_rtranclp_into_rtranclp)

lemma run_closed:
  assumes "successively (parent_rel kp) xs" and "xs \<noteq> []" and "(parent_rel kp)\<^sup>*\<^sup>* (hd xs) y"
    and "kp (last xs) = None \<or> kp (last xs) = Some None"
  shows "y \<in> set xs"
proof -
  have step: "y \<in> set xs" if "x \<in> set xs" "parent_rel kp x y" for x y
    using that assms(1,4)
  proof (induction xs rule: induct_list012)
    case (3 a b xs)
    then show ?case by (cases "x = a") auto
  qed auto
  show ?thesis using assms(3) by (induction rule: rtranclp_induct) (use step hd_in_set [OF assms(2)] in auto)
qed

text \<open>What an extension of a run reaches.\<close>

lemma chain_extend_run:
  assumes "chain_extend env t parents ch next target = Some (Ok (parents', ch'))"
  shows "known_parent t parents' = known_parent t parents \<and>
    (\<exists>xs. xs \<noteq> [] \<and> hd xs = next \<and> successively (parent_rel (known_parent t parents)) xs \<and>
      set (ch_seen ch') = set (ch_seen ch) \<union> set xs \<and> end_ok (known_parent t parents) (last xs) (ch_end ch') \<and>
      (target \<in> set xs \<or> known_parent t parents (last xs) \<in> {None, Some None}))"
proof -
  let ?P = "\<lambda>t parents ch next target parents' ch'. known_parent t parents' = known_parent t parents \<and>
    (\<exists>xs. xs \<noteq> [] \<and> hd xs = next \<and> successively (parent_rel (known_parent t parents)) xs \<and>
      set (ch_seen ch') = set (ch_seen ch) \<union> set xs \<and> end_ok (known_parent t parents) (last xs) (ch_end ch') \<and>
      (target \<in> set xs \<or> known_parent t parents (last xs) \<in> {None, Some None}))"
  have "\<forall>parents' ch'. r = Ok (parents', ch') \<longrightarrow> ?P t parents ch next target parents' ch'"
    if "chain_extend env t parents ch next target = Some r" for r
    using that
  proof (rule chain_extend.raw_induct [rotated, of env t parents ch "next" target r], intro allI impI)
    fix f :: "'h env \<Rightarrow> txn \<Rightarrow> parents \<Rightarrow> chain \<Rightarrow> checksum \<Rightarrow> checksum \<Rightarrow> (failure, parents \<times> chain) result option"
      and e t parents ch "next" target r parents' ch'
    assume IH: "\<And>e t parents ch next target r. f e t parents ch next target = Some r \<Longrightarrow>
        \<forall>parents' ch'. r = Ok (parents', ch') \<longrightarrow> ?P t parents ch next target parents' ch'"
      and body: "(let ch = ch\<lparr>ch_seen := List.insert next (ch_seen ch)\<rparr> in
        if next = target then Some (Ok (parents, ch\<lparr>ch_end := Target next\<rparr>))
        else case lookup_parent e t parents next of
            Err e \<Rightarrow> Some (Err e)
          | Ok None \<Rightarrow> Some (Ok (parents, ch\<lparr>ch_end := Absent next\<rparr>))
          | Ok (Some (parents, None)) \<Rightarrow> Some (Ok (parents, ch\<lparr>ch_end := Root\<rparr>))
          | Ok (Some (parents, Some parent)) \<Rightarrow> f e t parents ch parent target) = Some r"
      and r: "r = Ok (parents', ch')"
    let ?ch = "ch\<lparr>ch_seen := List.insert next (ch_seen ch)\<rparr>"
    show "?P t parents ch next target parents' ch'"
    proof (cases "next = target")
      case True
      then have "parents' = parents" "ch' = ?ch\<lparr>ch_end := Target next\<rparr>" using body r by (simp_all add: Let_def)
      then show ?thesis using True by (intro conjI exI [of _ "[next]"]) simp_all
    next
      case False
      then obtain l where l: "lookup_parent e t parents next = Ok l"
        and body': "(case l of None \<Rightarrow> Some (Ok (parents, ?ch\<lparr>ch_end := Absent next\<rparr>))
          | Some (parents, None) \<Rightarrow> Some (Ok (parents, ?ch\<lparr>ch_end := Root\<rparr>))
          | Some (parents, Some parent) \<Rightarrow> f e t parents ?ch parent target) = Some (Ok (parents', ch'))"
        using body r by (cases "lookup_parent e t parents next") (simp_all add: Let_def)
      consider (absent) "l = None" "known_parent t parents next = None"
        | (root) ps where "l = Some (ps, None)" "known_parent t parents next = Some None" "known_parent t ps = known_parent t parents"
        | (step) ps p where "l = Some (ps, Some p)" "known_parent t parents next = Some (Some p)" "known_parent t ps = known_parent t parents"
        using lookup_parent_Ok [OF l] by (metis option.exhaust)
      then show ?thesis
      proof cases
        case absent
        then have "parents' = parents" "ch' = ?ch\<lparr>ch_end := Absent next\<rparr>" using body' by simp_all
        then show ?thesis using absent by (intro conjI exI [of _ "[next]"]) simp_all
      next
        case root
        then have "parents' = ps" "ch' = ?ch\<lparr>ch_end := Root\<rparr>" using body' by simp_all
        then show ?thesis using root by (intro conjI exI [of _ "[next]"]) simp_all
      next
        case step
        then have "f e t ps ?ch p target = Some (Ok (parents', ch'))" using body' by simp
        from IH [OF this] step(3) obtain xs where xs: "xs \<noteq> []" "hd xs = p" "successively (parent_rel (known_parent t parents)) xs"
          "set (ch_seen ch') = insert next (set (ch_seen ch)) \<union> set xs" "end_ok (known_parent t parents) (last xs) (ch_end ch')"
          "target \<in> set xs \<or> known_parent t parents (last xs) \<in> {None, Some None}" "known_parent t parents' = known_parent t parents"
          by (auto simp del: successively.simps end_ok.simps)
        then have "successively (parent_rel (known_parent t parents)) (next # xs)" using step(2) by (cases xs) auto
        then show ?thesis using xs by (intro conjI exI [of _ "next # xs"]) auto
      qed
    qed
  qed
  then show ?thesis using assms by blast
qed

lemma chain_walk_ok:
  assumes "chain_walk env t parents new target = Some (Ok (parents', ch))"
  shows "known_parent t parents' = known_parent t parents" "chain_ok (known_parent t parents) new ch"
  using chain_extend_run [OF assms [unfolded chain_walk_def]] by (auto simp: chain_ok_def)

lemma run_join:
  assumes "successively P xs" "xs \<noteq> []" "successively P ys" "ys \<noteq> []" "hd ys = last xs"
  shows "successively P (xs @ tl ys)" "last (xs @ tl ys) = last ys" "set (xs @ tl ys) = set xs \<union> set ys"
proof -
  obtain y zs where ys: "ys = y # zs" using assms(4) by (cases ys) auto
  show "successively P (xs @ tl ys)" using assms by (auto simp: ys successively_append_iff successively_Cons)
  show "last (xs @ tl ys) = last ys" using assms by (auto simp: ys)
  show "set (xs @ tl ys) = set xs \<union> set ys" using assms(2,5) by (auto simp: ys)
qed

lemma chain_reaches_correct:
  assumes ch: "chain_ok (known_parent t parents) new ch"
    and run: "chain_reaches env t parents ch current = Some (Ok (parents', ch', b))"
  shows "known_parent t parents' = known_parent t parents" "chain_ok (known_parent t parents) new ch'"
    "b \<longleftrightarrow> (parent_rel (known_parent t parents))\<^sup>*\<^sup>* new current"
proof -
  let ?kp = "known_parent t parents"
  obtain xs where xs: "xs \<noteq> []" "hd xs = new" "successively (parent_rel ?kp) xs" "set xs = set (ch_seen ch)"
    "end_ok ?kp (last xs) (ch_end ch)" using ch by (auto simp: chain_ok_def)
  have "known_parent t parents' = ?kp \<and> chain_ok ?kp new ch' \<and> (b \<longleftrightarrow> (parent_rel ?kp)\<^sup>*\<^sup>* new current)"
  proof (cases "current \<in> set (ch_seen ch)")
    case True
    then have "parents' = parents" "ch' = ch" b using run by (simp_all add: chain_reaches_def)
    then show ?thesis using ch xs True run_ancestors [OF xs(3,1), of current] by auto
  next
    case False
    show ?thesis
    proof (cases "ch_end ch = Root")
      case True
      then have "parents' = parents" "ch' = ch" "\<not> b" using run False by (simp_all add: chain_reaches_def)
      then show ?thesis using ch xs False True run_closed [OF xs(3,1)] by auto
    next
      case notroot: False
      then have "chain_extend env t parents ch (last xs) current = Some (Ok (parents', ch'))" and b: "b = (current \<in> set (ch_seen ch'))"
        using run False xs(5) by (cases "ch_end ch"; auto simp: chain_reaches_def Let_def result_simps)+
      from chain_extend_run [OF this(1)] obtain ys where kp: "known_parent t parents' = ?kp"
        and ys: "ys \<noteq> []" "hd ys = last xs" "successively (parent_rel ?kp) ys"
        "set (ch_seen ch') = set (ch_seen ch) \<union> set ys" "end_ok ?kp (last ys) (ch_end ch')"
        "current \<in> set ys \<or> ?kp (last ys) \<in> {None, Some None}" by auto
      note join = run_join [OF xs(3,1) ys(3,1,2)]
      have seen: "set (xs @ tl ys) = set (ch_seen ch')" using join(3) ys(4) xs(4) by simp
      have hd: "hd (xs @ tl ys) = new" "xs @ tl ys \<noteq> []" using xs(1,2) by auto
      have "chain_ok ?kp new ch'"
        unfolding chain_ok_def using join(1,2) seen hd ys(5) by (intro exI [of _ "xs @ tl ys"]) simp
      moreover have "b \<longleftrightarrow> (parent_rel ?kp)\<^sup>*\<^sup>* new current"
      proof
        assume b
        then show "(parent_rel ?kp)\<^sup>*\<^sup>* new current" using run_ancestors [OF join(1) hd(2)] seen b hd(1) by auto
      next
        assume anc: "(parent_rel ?kp)\<^sup>*\<^sup>* new current"
        show b
        proof (cases "current \<in> set ys")
          case True then show ?thesis using b ys(4) by simp
        next
          case F: False
          then have "?kp (last (xs @ tl ys)) = None \<or> ?kp (last (xs @ tl ys)) = Some None" using ys(6) join(2) by auto
          from run_closed [OF join(1) hd(2) _ this] show ?thesis using anc hd(1) seen b by blast
        qed
      qed
      ultimately show ?thesis using kp by blast
    qed
  qed
  then show "known_parent t parents' = ?kp" "chain_ok ?kp new ch'" "b \<longleftrightarrow> (parent_rel ?kp)\<^sup>*\<^sup>* new current" by blast+
qed

subsection \<open>Termination\<close>

abbreviation ancestors :: "(checksum \<Rightarrow> checksum option option) \<Rightarrow> checksum \<Rightarrow> checksum set" where
  "ancestors kp c \<equiv> {x. (parent_rel kp)\<^sup>*\<^sup>* c x}"

definition acyclic_from :: "(checksum \<Rightarrow> checksum option option) \<Rightarrow> checksum \<Rightarrow> bool" where
  "acyclic_from kp c \<longleftrightarrow> (\<forall>x \<in> ancestors kp c. \<not> (parent_rel kp)\<^sup>+\<^sup>+ x x)"

lemma chain_extend_returns:
  assumes "finite (ancestors (known_parent t parents) c)" and "acyclic_from (known_parent t parents) c"
  shows "\<exists>r. chain_extend env t parents ch c target = Some r"
  using assms
proof (induction "card (ancestors (known_parent t parents) c)" arbitrary: parents ch c rule: less_induct)
  case less
  let ?kp = "known_parent t parents"
  show ?case
  proof (cases "c = target \<or> \<not> (\<exists>ps p. lookup_parent env t parents c = Ok (Some (ps, Some p)))")
    case True
    then show ?thesis
      by (subst chain_extend.simps) (auto simp: Let_def split: result.splits option.splits)
  next
    case False
    then obtain ps p where look: "lookup_parent env t parents c = Ok (Some (ps, Some p))" and "c \<noteq> target" by blast
    from lookup_parent_Ok [OF look] have kp: "?kp c = Some (Some p)" "known_parent t ps = ?kp" by auto
    have sub: "ancestors ?kp p \<subseteq> ancestors ?kp c" using kp(1) by (auto intro: converse_rtranclp_into_rtranclp)
    have "c \<notin> ancestors ?kp p"
    proof
      assume "c \<in> ancestors ?kp p"
      then have "(parent_rel ?kp)\<^sup>+\<^sup>+ c c" using kp(1) by (auto intro: rtranclp_into_tranclp2)
      then show False using less.prems(2) by (auto simp: acyclic_from_def)
    qed
    then have "card (ancestors ?kp p) < card (ancestors ?kp c)"
      using sub less.prems(1) by (intro psubset_card_mono) auto
    moreover have "acyclic_from ?kp p" using sub less.prems(2) by (auto simp: acyclic_from_def)
    moreover have "finite (ancestors ?kp p)" using sub less.prems(1) finite_subset by blast
    ultimately obtain r where "chain_extend env t ps (ch\<lparr>ch_seen := List.insert c (ch_seen ch)\<rparr>) p target = Some r"
      using less.hyps [of ps p] kp(2) by auto
    then show ?thesis using look \<open>c \<noteq> target\<close> by (subst chain_extend.simps) (simp add: Let_def)
  qed
qed

lemma finite_checksums: "finite {c. is_checksum c}"
  using finite_lists_length_eq [of "UNIV :: u8 set" 32] by (auto simp: is_checksum_def)

lemma commit_parse_parent: "commit_parse b = Ok co \<Longrightarrow> co_parent co = Some p \<Longrightarrow> is_checksum p"
  by (auto simp: commit_parse_def parse_parent_def from_ay_def is_checksum_def result_simps split: if_splits)

lemma ancestors_finite:
  assumes "\<And>c p. parents c = Some (Some p) \<Longrightarrow> is_checksum p"
  shows "finite (ancestors (known_parent t parents) c)"
proof -
  have step: "parent_rel (known_parent t parents) x y \<Longrightarrow> is_checksum y" for x y
    using assms by (auto simp: known_parent_def commit_parse_parent split: option.splits prod.splits stored.splits result.splits)
  have "(parent_rel (known_parent t parents))\<^sup>*\<^sup>* c x \<Longrightarrow> x = c \<or> is_checksum x" for x
    by (induction rule: rtranclp_induct) (auto dest: step)
  then have "ancestors (known_parent t parents) c \<subseteq> insert c {c. is_checksum c}" by auto
  then show ?thesis using finite_checksums finite_subset by blast
qed

lemma chain_reaches_returns:
  assumes "finite (ancestors (known_parent t parents) new)" and "acyclic_from (known_parent t parents) new"
    and "chain_ok (known_parent t parents) new ch"
  shows "\<exists>r. chain_reaches env t parents ch current = Some r"
proof (cases "current \<in> set (ch_seen ch) \<or> ch_end ch = Root")
  case True
  then show ?thesis by (auto simp: chain_reaches_def)
next
  case False
  let ?kp = "known_parent t parents"
  obtain xs where xs: "xs \<noteq> []" "hd xs = new" "successively (parent_rel ?kp) xs" "end_ok ?kp (last xs) (ch_end ch)"
    using assms(3) by (auto simp: chain_ok_def)
  have "(parent_rel ?kp)\<^sup>*\<^sup>* new (last xs)" using run_ancestors [OF xs(3,1) last_in_set [OF xs(1)]] xs(2) by simp
  then have sub: "ancestors ?kp (last xs) \<subseteq> ancestors ?kp new" by (auto intro: rtranclp_trans)
  have "finite (ancestors ?kp (last xs))" using assms(1) sub finite_subset by blast
  moreover have "acyclic_from ?kp (last xs)" using assms(2) sub by (auto simp: acyclic_from_def)
  ultimately obtain r where "chain_extend env t parents ch (last xs) current = Some r" using chain_extend_returns by blast
  then show ?thesis using False xs(4) by (cases "ch_end ch") (auto simp: chain_reaches_def Let_def)
qed

subsection \<open>The walks of a message\<close>

definition walks_ok :: "txn \<Rightarrow> walks \<Rightarrow> bool" where
  "walks_ok t w \<longleftrightarrow> (\<forall>new target i. wl_index w (new, target) = Some i \<longrightarrow>
     i < length (wl_chains w) \<and> chain_ok (known_parent t (wl_parents w)) new (wl_chains w ! i))"

definition walk_of :: "walks \<Rightarrow> checksum \<Rightarrow> nat \<Rightarrow> bool" where
  "walk_of w new i \<longleftrightarrow> (\<exists>target. wl_index w (new, target) = Some i)"

text \<open>What a step on the walks keeps.\<close>

definition walks_next :: "txn \<Rightarrow> walks \<Rightarrow> walks \<Rightarrow> bool" where
  "walks_next t w w' \<longleftrightarrow> walks_ok t w' \<and> known_parent t (wl_parents w') = known_parent t (wl_parents w) \<and>
     (\<forall>new i. walk_of w new i \<longrightarrow> walk_of w' new i)"

lemma walks_new_ok: "walks_ok t (walks_new parents)"
  by (simp add: walks_ok_def walks_new_def)

lemma walks_next_refl: "walks_ok t w \<Longrightarrow> walks_next t w w"
  by (simp add: walks_next_def)

lemma walks_next_trans: "walks_next t w w1 \<Longrightarrow> walks_next t w1 w2 \<Longrightarrow> walks_next t w w2"
  by (simp add: walks_next_def)

lemma walks_chain_next:
  assumes ok: "walks_ok t w" and run: "walks_chain env t w new target = Some (Ok (w', i))"
  shows "walks_next t w w'" "walk_of w' new i"
proof -
  have "walks_next t w w' \<and> walk_of w' new i"
  proof (cases "wl_index w (new, target)")
    case (Some j)
    then show ?thesis using ok run by (auto simp: walks_chain_def walks_next_refl walk_of_def)
  next
    case None
    then obtain parents ch where walk: "chain_walk env t (wl_parents w) new target = Some (Ok (parents, ch))"
      and w': "w' = w\<lparr>wl_parents := parents, wl_chains := wl_chains w @ [ch], wl_index := (wl_index w)((new, target) \<mapsto> length (wl_chains w))\<rparr>"
      "i = length (wl_chains w)"
      using run by (auto simp: walks_chain_def Let_def result_simps)
    note ch = chain_walk_ok [OF walk]
    have "walks_ok t w'" using ok ch by (auto simp: walks_ok_def w' nth_append less_Suc_eq)
    moreover have "walk_of w' n j" if old: "walk_of w n j" for n j
    proof -
      obtain x where x: "wl_index w (n, x) = Some j" using old by (auto simp: walk_of_def)
      then have "(n, x) \<noteq> (new, target)" using None by auto
      then show ?thesis using x unfolding walk_of_def w' by (intro exI [of _ x]) auto
    qed
    ultimately show ?thesis using ch(1) by (auto simp: walks_next_def w' walk_of_def)
  qed
  then show "walks_next t w w'" "walk_of w' new i" by auto
qed

lemma walks_reaches_next:
  assumes ok: "walks_ok t w" and i: "walk_of w new i" and run: "walks_reaches env t w i current = Some (Ok (w', b))"
  shows "walks_next t w w'" "b \<longleftrightarrow> (parent_rel (known_parent t (wl_parents w)))\<^sup>*\<^sup>* new current"
proof -
  obtain parents ch where r: "chain_reaches env t (wl_parents w) (wl_chains w ! i) current = Some (Ok (parents, ch, b))"
    and w': "w' = w\<lparr>wl_parents := parents, wl_chains := (wl_chains w)[i := ch]\<rparr>"
    using run by (auto simp: walks_reaches_def result_simps)
  have ch: "i < length (wl_chains w)" "chain_ok (known_parent t (wl_parents w)) new (wl_chains w ! i)"
    using ok i by (auto simp: walks_ok_def walk_of_def)
  note step = chain_reaches_correct [OF _ r]
  have "chain_ok (known_parent t parents) n ((wl_chains w)[i := ch] ! j)"
    if "j < length (wl_chains w)" "chain_ok (known_parent t (wl_parents w)) n (wl_chains w ! j)" for n j
    using that step(1) [OF ch(2)] step(2) [of n] by (cases "j = i") auto
  then have "walks_ok t w'" using ok by (simp add: walks_ok_def w')
  then show "walks_next t w w'" using step(1) [OF ch(2)] by (simp add: walks_next_def walk_of_def w')
  show "b \<longleftrightarrow> (parent_rel (known_parent t (wl_parents w)))\<^sup>*\<^sup>* new current" by (rule step(3) [OF ch(2)])
qed

text \<open>Other writers add objects to the store between the walks and the lock.\<close>

definition grows :: "txn \<Rightarrow> txn \<Rightarrow> bool" where
  "grows t t' \<longleftrightarrow> tx_mode t' = tx_mode t \<and>
     (\<forall>path obj d. tx_objects t path = Some (obj, d) \<longrightarrow> (\<exists>d'. tx_objects t' path = Some (obj, d')))"

lemma known_parent_grows:
  assumes "grows t t'" and "known_parent t parents c = Some p"
  shows "known_parent t' parents c = Some p"
proof (cases "parents c")
  case None
  then obtain b d co where "tx_objects t (loose_path c Commit (tx_mode t)) = Some (Stored_meta b, d)"
    "commit_parse b = Ok co" "p = co_parent co"
    using assms(2) by (auto simp: known_parent_def split: option.splits stored.splits result.splits)
  then show ?thesis using assms(1) None by (fastforce simp: known_parent_def grows_def)
qed (use assms(2) in \<open>simp add: known_parent_def\<close>)

lemma known_parent_cached:
  assumes "grows t t'" and eq: "known_parent t parents' = known_parent t parents"
  shows "known_parent t' parents' = known_parent t' parents"
proof
  fix c
  note mono = known_parent_grows [OF assms(1)]
  show "known_parent t' parents' c = known_parent t' parents c"
  proof (cases "known_parent t parents c")
    case None
    then have "known_parent t parents' c = None" using eq by simp
    then have "parents' c = None" "parents c = None" using None by (auto simp: known_parent_def split: option.splits)
    then show ?thesis by (simp add: known_parent_def)
  next
    case (Some p)
    then show ?thesis using mono [of parents c p] mono [of parents' c p] eq by simp
  qed
qed

lemma end_ok_mono: "end_ok kp x e \<Longrightarrow> (\<And>c p. kp c = Some p \<Longrightarrow> kp' c = Some p) \<Longrightarrow> end_ok kp' x e"
  by (cases e) auto

lemma chain_ok_mono:
  assumes "chain_ok kp new ch" and "\<And>c p. kp c = Some p \<Longrightarrow> kp' c = Some p"
  shows "chain_ok kp' new ch"
proof -
  obtain xs where xs: "xs \<noteq> []" "hd xs = new" "successively (parent_rel kp) xs" "set xs = set (ch_seen ch)" "end_ok kp (last xs) (ch_end ch)"
    using assms(1) by (auto simp: chain_ok_def)
  have "successively (parent_rel kp') xs" by (rule successively_mono [OF xs(3)]) (use assms(2) in auto)
  then show ?thesis using xs end_ok_mono [OF xs(5) assms(2)] by (auto simp: chain_ok_def)
qed

lemma walks_ok_grows: "grows t t' \<Longrightarrow> walks_ok t w \<Longrightarrow> walks_ok t' w"
  using chain_ok_mono known_parent_grows unfolding walks_ok_def by meson

end
