(* ===== verification/Receive_Refs.thy ===== *)
theory Receive_Refs imports Receive_Ancestry
begin
section \<open>The checks of the ref updates of a push\<close>

text \<open>
  \<^verbatim>\<open>crates/ostrya/src/receive/finish.rs\<close>: the paths of the refs, the check of one update under the lock, and the
  loops of \<open>finish\<close> that run the walks before the lock and the checks under it. Between the two, other writers may add
  objects to the store (\<open>grows\<close>).
\<close>

text \<open>A call that may not return, or fails.\<close>

definition later :: "('e, 'a) result option \<Rightarrow> ('a \<Rightarrow> ('e, 'b) result option) \<Rightarrow> ('e, 'b) result option" where
  "later m f = (case m of None \<Rightarrow> None | Some (Err e) \<Rightarrow> Some (Err e) | Some (Ok x) \<Rightarrow> f x)"

lemma later_Ok: "later m f = Some (Ok y) \<longleftrightarrow> (\<exists>x. m = Some (Ok x) \<and> f x = Some (Ok y))"
  by (auto simp: later_def split: option.splits result.splits)

lemma later_simps [simp]: "later (Some (Ok x)) f = f x" "later (Some (Err e)) f = Some (Err e)"
  by (simp_all add: later_def)

lemma later_returns: "\<exists>r. m = Some r \<Longrightarrow> (\<And>x. m = Some (Ok x) \<Longrightarrow> \<exists>r. f x = Some r) \<Longrightarrow> \<exists>r. later m f = Some r"
  by (auto simp: later_def split: result.splits)

datatype ref_file_state = RefAbsent | RefCommit checksum | RefAlias | RefNotARef

record update_rule =
  ur_create_only :: bool
  ur_allow_delete :: bool
  ur_allow_non_fast_forward :: bool

definition ref_denied :: "bytes \<Rightarrow> failure" where
  "ref_denied m = Wire (R_RefDenied (Msg m))"

definition ref_text :: "bytes \<Rightarrow> bytes" where
  "ref_text name = lit ''ref '' @ [39] @ name @ [39]"

text \<open>The parents of a path: the loop over \<open>rsplit_once('/')\<close>.\<close>

function path_parents :: "bytes \<Rightarrow> bytes list" where
  "path_parents path =
     (case rposition (\<lambda>b. b = of_char CHR ''/'') path of
        None \<Rightarrow> []
      | Some i \<Rightarrow> take i path # path_parents (take i path))"
  by auto
termination by (relation "measure length") (auto simp: rposition_Some)

declare path_parents.simps [simp del]

definition state_commit :: "bytes \<Rightarrow> ref_file_state \<Rightarrow> (failure, checksum option) result" where
  "state_commit name state =
     (case state of
        RefAbsent \<Rightarrow> Ok None
      | RefCommit c \<Rightarrow> Ok (Some c)
      | RefAlias \<Rightarrow> Err (ref_denied (ref_text name @ lit '' is an alias of another ref''))
      | RefNotARef \<Rightarrow> Err (ref_denied (ref_text name @
          lit '' names a directory or a path below a ref file, which a ref write cannot replace'')))"

definition check_ref_paths ::
    "(bytes \<times> bytes \<times> bool) list \<Rightarrow> ref_file_state list \<Rightarrow> (failure, checksum option list) result" where
  "check_ref_paths refs states =
     andthen (try_map (\<lambda>((name, _, _), state). state_commit name state) (zip refs states)) (\<lambda>current.
     let writes = filter (\<lambda>(_, _, w). w) refs;
         written = foldl (\<lambda>m (name, relpath, _). m(relpath \<mapsto> name)) Map.empty writes in
     andthen (try_each (\<lambda>(name, relpath, _).
         case List.find (\<lambda>p. written p \<noteq> None) (path_parents relpath) of
           None \<Rightarrow> Ok ()
         | Some p \<Rightarrow> Err (ref_denied (ref_text name @ lit '' names a path below '' @ ref_text (the (written p)) @
             lit '' of the same message''))) writes) (\<lambda>_.
     Ok current))"

definition state_matches :: "expected \<Rightarrow> checksum option \<Rightarrow> bool" where
  "state_matches e current =
     (case e of ExpAbsent \<Rightarrow> current = None | ExpCommit c \<Rightarrow> current = Some c | ExpAny \<Rightarrow> True)"

definition check_ref ::
    "'h env \<Rightarrow> txn \<Rightarrow> ref_update \<Rightarrow> update_rule \<Rightarrow> bool \<Rightarrow> checksum option \<Rightarrow> nat option \<Rightarrow> walks \<Rightarrow> (failure, walks \<times> bool) result option" where
  "check_ref env t u rule force current chain w =
     (let name = ru_name u in
      if \<not> state_matches (ru_expected u) current then
        let state = (case current of Some c \<Rightarrow> lit ''at '' @ checksum_text c | None \<Rightarrow> lit ''absent'') in
        Some (Err (Wire (R_RefMismatch (Msg (ref_text name @ lit '' is '' @ state)) name current)))
      else if current \<noteq> None \<and> ru_new u \<noteq> None \<and> ur_create_only rule then
        Some (Err (Wire (R_RefMismatch (Msg (ref_text name @ lit '' is at '' @ checksum_text (the current) @
          lit '', and the policy lets an update create the ref and not write to it'')) name current)))
      else
        case (current, ru_new u) of
          (None, None) \<Rightarrow> Some (Ok (w, False))
        | (Some _, None) \<Rightarrow>
            if \<not> ur_allow_delete rule
            then Some (Err (Wire (R_DeleteDenied (Msg (lit ''the policy does not allow a delete of '' @ ref_text name)))))
            else Some (Ok (w, True))
        | (None, Some _) \<Rightarrow> Some (Ok (w, True))
        | (Some current, Some new) \<Rightarrow>
            if current = new then Some (Ok (w, False))
            else if force \<and> ur_allow_non_fast_forward rule then Some (Ok (w, True))
            else
              later (case chain of Some i \<Rightarrow> Some (Ok (w, i)) | None \<Rightarrow> walks_chain env t w new current) (\<lambda>(w, i).
              later (walks_reaches env t w i current) (\<lambda>(w, reaches).
              if \<not> reaches
              then Some (Err (Wire (R_NonFastForward (Msg (lit ''commit '' @ checksum_text new @ lit '' does not descend from '' @
                checksum_text current @ lit '', the commit of '' @ ref_text name)))))
              else Some (Ok (w, True)))))"

text \<open>The loops of \<open>finish\<close>: the walks before the update lock, and the checks under it.\<close>

definition plan_chain ::
    "'h env \<Rightarrow> txn \<Rightarrow> bool \<Rightarrow> walks \<Rightarrow> ref_update \<Rightarrow> checksum option \<Rightarrow> update_rule \<Rightarrow> (failure, walks \<times> nat option) result option" where
  "plan_chain env t force w u tip rule =
     (if force \<and> ur_allow_non_fast_forward rule \<or> ur_create_only rule then Some (Ok (w, None))
      else
        case (ru_new u, tip) of
          (Some new, Some tip) \<Rightarrow>
            if new \<noteq> tip then map_option (map_ok (\<lambda>(w, i). (w, Some i))) (walks_chain env t w new tip)
            else Some (Ok (w, None))
        | _ \<Rightarrow> Some (Ok (w, None)))"

fun plan_chains ::
    "'h env \<Rightarrow> txn \<Rightarrow> bool \<Rightarrow> walks \<Rightarrow> (ref_update \<times> checksum option \<times> update_rule) list \<Rightarrow> (failure, walks \<times> nat option list) result option" where
  "plan_chains env t force w [] = Some (Ok (w, []))"
| "plan_chains env t force w ((u, tip, rule) # us) =
     later (plan_chain env t force w u tip rule) (\<lambda>(w, c).
     later (plan_chains env t force w us) (\<lambda>(w, cs). Some (Ok (w, c # cs))))"

fun check_refs ::
    "'h env \<Rightarrow> txn \<Rightarrow> bool \<Rightarrow> walks \<Rightarrow> (ref_update \<times> update_rule \<times> checksum option \<times> nat option) list \<Rightarrow> (failure, walks \<times> bool list) result option" where
  "check_refs env t force w [] = Some (Ok (w, []))"
| "check_refs env t force w ((u, rule, current, chain) # us) =
     later (check_ref env t u rule force current chain w) (\<lambda>(w, c).
     later (check_refs env t force w us) (\<lambda>(w, cs). Some (Ok (w, c # cs))))"

subsection \<open>Paths\<close>

lemma path_parents_iff: "p \<in> set (path_parents q) \<longleftrightarrow> (\<exists>s. q = p @ of_char CHR ''/'' # s)"
proof (induction q rule: path_parents.induct)
  case (1 q)
  let ?sep = "\<lambda>b :: u8. b = of_char CHR ''/''"
  show ?case
  proof (cases "rposition ?sep q")
    case None
    then have "of_char CHR ''/'' \<notin> set q" by (auto simp: rposition_None)
    then show ?thesis using None by (subst path_parents.simps) auto
  next
    case (Some i)
    then have i: "i < length q" "q ! i = of_char CHR ''/''" "of_char CHR ''/'' \<notin> set (drop (Suc i) q)"
      by (auto simp: rposition_Some)
    have split: "q = take i q @ of_char CHR ''/'' # drop (Suc i) q" using id_take_nth_drop [OF i(1)] i(2) by simp
    have "p \<in> set (path_parents q) \<longleftrightarrow> p = take i q \<or> (\<exists>s. take i q = p @ of_char CHR ''/'' # s)"
      using 1 Some by (subst path_parents.simps) auto
    also have "\<dots> \<longleftrightarrow> (\<exists>s. q = p @ of_char CHR ''/'' # s)"
    proof (intro iffI; elim disjE exE)
      assume "p = take i q" then show "\<exists>s. q = p @ of_char CHR ''/'' # s" using split by blast
    next
      fix s assume "take i q = p @ of_char CHR ''/'' # s"
      then have "q = p @ of_char CHR ''/'' # s @ of_char CHR ''/'' # drop (Suc i) q" using split by simp
      then show "\<exists>s. q = p @ of_char CHR ''/'' # s" by blast
    next
      fix s assume q: "q = p @ of_char CHR ''/'' # s"
      have "length p \<le> i"
      proof (rule ccontr)
        assume "\<not> length p \<le> i"
        then have "drop (Suc i) q = drop (Suc i) p @ of_char CHR ''/'' # s" by (simp add: q)
        then show False using i(3) by simp
      qed
      then show "p = take i q \<or> (\<exists>s. take i q = p @ of_char CHR ''/'' # s)"
        using i(1) by (cases "length p = i") (auto simp: q take_Cons split: nat.splits)
    qed
    finally show ?thesis .
  qed
qed

lemma written_dom: "dom (foldl (\<lambda>m (name, relpath, _). m(relpath \<mapsto> name)) m ws) = dom m \<union> (\<lambda>(_, r, _). r) ` set ws"
  by (induction ws arbitrary: m) auto

lemma state_commit_Ok: "state_commit name state = Ok c \<longleftrightarrow> state = (case c of None \<Rightarrow> RefAbsent | Some x \<Rightarrow> RefCommit x)"
  by (cases state) (auto simp: state_commit_def split: option.splits)

lemma check_ref_paths_Ok:
  assumes "check_ref_paths refs states = Ok current"
  shows "list_all2 (\<lambda>(_, state) c. state = (case c of None \<Rightarrow> RefAbsent | Some x \<Rightarrow> RefCommit x)) (zip refs states) current"
    and "(n1, p1, True) \<in> set refs \<Longrightarrow> (n2, p2, True) \<in> set refs \<Longrightarrow> p2 \<noteq> p1 @ of_char CHR ''/'' # s"
proof -
  let ?ws = "filter (\<lambda>(_, _, w). w) refs"
  let ?written = "foldl (\<lambda>m (name, relpath, _). m(relpath \<mapsto> name)) Map.empty ?ws"
  have states: "list_all2 (\<lambda>((name, _, _), state) c. state_commit name state = Ok c) (zip refs states) current"
    and below: "\<And>name relpath w. (name, relpath, w) \<in> set ?ws \<Longrightarrow> List.find (\<lambda>p. ?written p \<noteq> None) (path_parents relpath) = None"
    using assms by (fastforce simp: check_ref_paths_def Let_def result_simps case_prod_unfold split: option.splits)+
  show "list_all2 (\<lambda>(_, state) c. state = (case c of None \<Rightarrow> RefAbsent | Some x \<Rightarrow> RefCommit x)) (zip refs states) current"
    by (rule list_all2_mono [OF states]) (auto simp: state_commit_Ok)
  assume w: "(n1, p1, True) \<in> set refs" "(n2, p2, True) \<in> set refs"
  show "p2 \<noteq> p1 @ of_char CHR ''/'' # s"
  proof
    assume "p2 = p1 @ of_char CHR ''/'' # s"
    then have "p1 \<in> set (path_parents p2)" by (auto simp: path_parents_iff)
    moreover have "?written p1 \<noteq> None" using w(1) written_dom [of Map.empty ?ws] by (force simp: dom_def)
    ultimately show False using below [of n2 p2 True] w(2) by (auto simp: find_None_iff)
  qed
qed

subsection \<open>Updates\<close>

text \<open>What the policy lets an update that changes its ref do.\<close>

definition allowed_update ::
    "(checksum \<Rightarrow> checksum option option) \<Rightarrow> bool \<Rightarrow> update_rule \<Rightarrow> checksum option \<Rightarrow> ref_update \<Rightarrow> bool" where
  "allowed_update kp force rule current u \<longleftrightarrow> state_matches (ru_expected u) current \<and>
     (case (current, ru_new u) of
        (None, None) \<Rightarrow> False
      | (Some _, None) \<Rightarrow> ur_allow_delete rule
      | (None, Some _) \<Rightarrow> True
      | (Some c, Some n) \<Rightarrow> c \<noteq> n \<and> \<not> ur_create_only rule \<and>
          (force \<and> ur_allow_non_fast_forward rule \<or> (parent_rel kp)\<^sup>*\<^sup>* n c))"

definition chain_for :: "walks \<Rightarrow> ref_update \<Rightarrow> nat option \<Rightarrow> bool" where
  "chain_for w u chain \<longleftrightarrow> (\<forall>new i. ru_new u = Some new \<longrightarrow> chain = Some i \<longrightarrow> walk_of w new i)"

lemma check_ref_correct:
  assumes ok: "walks_ok t w" and chain: "chain_for w u chain"
    and run: "check_ref env t u rule force current chain w = Some (Ok (w', c))"
  shows "walks_next t w w'"
    and "c \<longleftrightarrow> allowed_update (known_parent t (wl_parents w)) force rule current u"
    and "\<not> c \<Longrightarrow> state_matches (ru_expected u) current \<and> ru_new u = current"
proof -
  let ?kp = "known_parent t (wl_parents w)"
  have m: "state_matches (ru_expected u) current" using run by (auto simp: check_ref_def Let_def split: if_splits)
  have "walks_next t w w' \<and> (c \<longleftrightarrow> allowed_update ?kp force rule current u) \<and> (\<not> c \<longrightarrow> ru_new u = current)"
  proof (cases "\<exists>cur new. current = Some cur \<and> ru_new u = Some new \<and> cur \<noteq> new \<and> \<not> (force \<and> ur_allow_non_fast_forward rule)")
    case False
    then show ?thesis using run m walks_next_refl [OF ok]
      by (auto simp: check_ref_def allowed_update_def Let_def split: if_splits option.splits)
  next
    case True
    then obtain cur new where cn: "current = Some cur" "ru_new u = Some new" "cur \<noteq> new" "\<not> (force \<and> ur_allow_non_fast_forward rule)"
      by blast
    then have create: "\<not> ur_create_only rule" using run m by (auto simp: check_ref_def Let_def)
    obtain w1 i b where w1: "(case chain of Some i \<Rightarrow> Some (Ok (w, i)) | None \<Rightarrow> walks_chain env t w new cur) = Some (Ok (w1, i))"
      and r: "walks_reaches env t w1 i cur = Some (Ok (w', b))" and c: "c" "b"
      using run m cn create by (auto simp: check_ref_def Let_def later_Ok split: if_splits)
    have step: "walks_next t w w1 \<and> walk_of w1 new i"
      using w1 chain cn(2) walks_next_refl [OF ok] walks_chain_next [OF ok, of env new cur w1 i]
      by (cases chain) (auto simp: chain_for_def)
    then have ok1: "walks_ok t w1" and kp: "known_parent t (wl_parents w1) = ?kp" by (simp_all add: walks_next_def)
    note re = walks_reaches_next [OF ok1 conjunct2 [OF step] r]
    have "walks_next t w w'" using walks_next_trans [OF conjunct1 [OF step] re(1)] .
    moreover have "(parent_rel ?kp)\<^sup>*\<^sup>* new cur" using re(2) c kp by simp
    ultimately show ?thesis using m cn create c(1) by (simp add: allowed_update_def)
  qed
  then show "walks_next t w w'" "c \<longleftrightarrow> allowed_update ?kp force rule current u"
    "\<not> c \<Longrightarrow> state_matches (ru_expected u) current \<and> ru_new u = current" using m by auto
qed

lemma plan_chains_next:
  assumes "walks_ok t w" and "plan_chains env t force w us = Some (Ok (w', cs))"
  shows "walks_next t w w' \<and> list_all2 (\<lambda>x c. chain_for w' (fst x) c) us cs"
  using assms
proof (induction us arbitrary: w cs)
  case Nil
  then show ?case by (simp add: walks_next_refl)
next
  case (Cons x us)
  obtain u tip rule where x: "x = (u, tip, rule)" by (metis surj_pair)
  obtain w1 c ds where c: "plan_chain env t force w u tip rule = Some (Ok (w1, c))"
    and ds: "plan_chains env t force w1 us = Some (Ok (w', ds))" "cs = c # ds"
    using Cons.prems(2) by (auto simp: x later_Ok)
  have one: "walks_next t w w1 \<and> chain_for w1 u c"
    using c walks_next_refl [OF Cons.prems(1)] walks_chain_next [OF Cons.prems(1)]
    by (fastforce simp: plan_chain_def chain_for_def result_simps split: if_splits option.splits)
  then have "walks_next t w1 w' \<and> list_all2 (\<lambda>x c. chain_for w' (fst x) c) us ds"
    using Cons.IH [OF _ ds(1)] by (simp add: walks_next_def)
  then show ?case using one walks_next_trans by (auto simp: x ds(2) chain_for_def walks_next_def)
qed

lemma check_refs_correct:
  assumes "walks_ok t w" and "list_all (\<lambda>(u, _, _, chain). chain_for w u chain) us"
    and "check_refs env t force w us = Some (Ok (w', cs))"
  shows "list_all2 (\<lambda>(u, rule, current, _) c. c \<longleftrightarrow> allowed_update (known_parent t (wl_parents w)) force rule current u) us cs"
  using assms
proof (induction us arbitrary: w cs)
  case (Cons x us)
  obtain u rule current chain where x: "x = (u, rule, current, chain)" by (metis surj_pair)
  obtain w1 c ds where c: "check_ref env t u rule force current chain w = Some (Ok (w1, c))"
    and ds: "check_refs env t force w1 us = Some (Ok (w', ds))" "cs = c # ds"
    using Cons.prems(3) by (auto simp: x later_Ok)
  note one = check_ref_correct [OF Cons.prems(1) _ c]
  have next1: "walks_next t w w1" "c \<longleftrightarrow> allowed_update (known_parent t (wl_parents w)) force rule current u"
    using one(1,2) Cons.prems(2) by (auto simp: x)
  have "list_all (\<lambda>(u, _, _, chain). chain_for w1 u chain) us"
    using Cons.prems(2) next1(1) by (auto simp: list_all_iff chain_for_def walks_next_def x)
  then have "list_all2 (\<lambda>(u, rule, current, _) c. c \<longleftrightarrow> allowed_update (known_parent t (wl_parents w1)) force rule current u) us ds"
    using Cons.IH [OF _ _ ds(1)] next1(1) by (simp add: walks_next_def)
  then show ?case using next1 by (simp add: x ds(2) walks_next_def)
qed simp

end
