(* ===== verification/Spec2Isabelle.thy ===== *)
theory Spec2Isabelle
  imports Core_Sizes Core_Commit Core_Refpattern Delta_Rollsum Delta_Bspatch Receive_Refs
begin

text \<open>
  A verification development for Ostrya, a content-addressed repository of file system trees
  written in Rust. The theories follow the crates of the program.

  \<^bold>\<open>ostrya-gvariant\<close> (\<open>src/crates/ostrya-gvariant/src\<close>) reads and writes the GVariant
  serialization in normal form.
\<close>

end
